(* ===== verification/Prelude.thy ===== *)
theory Prelude
  imports Main "HOL-Library.Word"
begin

text \<open>
  Prelude of the UoDOS verification library: the machine integer types of \<^verbatim>\<open>types.h\<close>, the
  numeric constants and address macros of \<^verbatim>\<open>param.h\<close>, \<^verbatim>\<open>memlayout.h\<close> and \<^verbatim>\<open>mmu.h\<close>, the
  outcome type of kernel code (return, panic, hang, fault) with its sequencing operator, first-match
  scans of the kernel's fixed tables, and the lemmas on words and lists that the components share.
\<close>

unbundle bit_operations_syntax

named_theorems kmonad \<open>equations that run sequenced kernel operations\<close>
named_theorems const_defs \<open>numeric constants of the kernel headers\<close>

section \<open>Integer types\<close>

type_synonym byte = "8 word"
type_synonym u16 = "16 word"
type_synonym u32 = "32 word"
type_synonym memory = "u32 \<Rightarrow> byte"

section \<open>Constants of the headers\<close>

definition NPROC :: nat where [const_defs]: "NPROC = 64"
definition NCPU :: nat where [const_defs]: "NCPU = 8"
definition NOFILE :: nat where [const_defs]: "NOFILE = 16"
definition NFILE :: nat where [const_defs]: "NFILE = 100"
definition NDEV :: nat where [const_defs]: "NDEV = 10"
definition MAXARG :: nat where [const_defs]: "MAXARG = 32"
definition NBUF :: nat where [const_defs]: "NBUF = 30"
definition MAXFATSIZE :: nat where [const_defs]: "MAXFATSIZE = 10"
definition MAXCWDSIZE :: int where [const_defs]: "MAXCWDSIZE = 200"

definition EXTMEM :: u32 where [const_defs]: "EXTMEM = 0x100000"
definition PHYSTOP :: u32 where [const_defs]: "PHYSTOP = 0xE000000"
definition DEVSPACE :: u32 where [const_defs]: "DEVSPACE = 0xFE000000"
definition KERNBASE :: u32 where [const_defs]: "KERNBASE = 0x80000000"
definition PGSIZE :: u32 where [const_defs]: "PGSIZE = 4096"
definition FL_IF :: u32 where [const_defs]: "FL_IF = 0x200"

definition V2P :: "u32 \<Rightarrow> u32" where
  "V2P a = a - KERNBASE"

definition P2V :: "u32 \<Rightarrow> u32" where
  "P2V a = a + KERNBASE"

definition PGROUNDUP :: "u32 \<Rightarrow> u32" where
  "PGROUNDUP sz = (sz + PGSIZE - 1) AND NOT (PGSIZE - 1)"

definition PGROUNDDOWN :: "u32 \<Rightarrow> u32" where
  "PGROUNDDOWN a = a AND NOT (PGSIZE - 1)"

section \<open>Outcomes of kernel code\<close>

text \<open>
  A kernel operation runs on the kernel state and either returns a value with the new state, calls
  \<^verbatim>\<open>panic\<close> (which never returns), spins for ever with nobody left to release it (\<open>Hang\<close>), or
  accesses memory the program does not own, such as a null pointer or an index past an array
  (\<open>Fault\<close>).
\<close>

datatype ('s, 'a) outcome = Ret 'a 's | Panic string | Hang | Fault

type_synonym ('s, 'a) op = "'s \<Rightarrow> ('s, 'a) outcome"

definition returnK :: "'a \<Rightarrow> ('s, 'a) op" where
  "returnK a s = Ret a s"

definition panicK :: "string \<Rightarrow> ('s, 'a) op" where
  "panicK msg s = Panic msg"

definition faultK :: "('s, 'a) op" where
  "faultK s = Fault"

definition getK :: "('s \<Rightarrow> 'a) \<Rightarrow> ('s, 'a) op" where
  "getK f s = Ret (f s) s"

definition modifyK :: "('s \<Rightarrow> 's) \<Rightarrow> ('s, unit) op" where
  "modifyK f s = Ret () (f s)"

definition bindK :: "('s, 'a) op \<Rightarrow> ('a \<Rightarrow> ('s, 'b) op) \<Rightarrow> ('s, 'b) op" where
  "bindK m f s = (case m s of Ret a t \<Rightarrow> f a t | Panic msg \<Rightarrow> Panic msg | Hang \<Rightarrow> Hang | Fault \<Rightarrow> Fault)"

definition hangK :: "('s, 'a) op" where
  "hangK s = Hang"

definition whenK :: "bool \<Rightarrow> ('s, unit) op \<Rightarrow> ('s, unit) op" where
  "whenK b m = (if b then m else returnK ())"

lemma returnK_run [simp, kmonad]: "returnK a s = Ret a s"
  by (simp add: returnK_def)

lemma panicK_run [simp, kmonad]: "panicK msg s = Panic msg"
  by (simp add: panicK_def)

lemma faultK_run [simp, kmonad]: "faultK s = Fault"
  by (simp add: faultK_def)

lemma hangK_run [simp, kmonad]: "hangK s = Hang"
  by (simp add: hangK_def)

lemma getK_run [simp, kmonad]: "getK f s = Ret (f s) s"
  by (simp add: getK_def)

lemma modifyK_run [simp, kmonad]: "modifyK f s = Ret () (f s)"
  by (simp add: modifyK_def)

lemma whenK_simps [simp, kmonad]: "whenK True m = m" "whenK False m = returnK ()"
  by (simp_all add: whenK_def)

lemma bindK_run [kmonad]:
  "bindK m f s = (case m s of Ret a t \<Rightarrow> f a t | Panic msg \<Rightarrow> Panic msg | Hang \<Rightarrow> Hang | Fault \<Rightarrow> Fault)"
  by (fact bindK_def)

lemma bindK_Ret: "m s = Ret a t \<Longrightarrow> bindK m f s = f a t"
  by (simp add: bindK_def)

lemma bindK_eq_Ret:
  "bindK m f s = Ret b u \<longleftrightarrow> (\<exists>a t. m s = Ret a t \<and> f a t = Ret b u)"
  by (auto simp: bindK_def split: outcome.splits)

lemma bindK_RetE:
  assumes "bindK m f s = Ret b u"
  obtains a t where "m s = Ret a t" "f a t = Ret b u"
  using assms by (auto simp: bindK_eq_Ret)

lemma bindK_cong [fundef_cong]:
  assumes "m s = m' s'" and "\<And>a t. m' s' = Ret a t \<Longrightarrow> f a t = f' a t"
  shows "bindK m f s = bindK m' f' s'"
  using assms by (auto simp: bindK_def split: outcome.splits)

lemma bindK_returnK [simp]: "bindK (returnK a) f = f a"
  by (rule ext) (simp add: bindK_def)

lemma bindK_assoc: "bindK (bindK m f) g = bindK m (\<lambda>a. bindK (f a) g)"
  by (rule ext) (simp add: bindK_def split: outcome.split)

text \<open>\<open>foreachK xs f\<close> is a counting loop whose body \<open>f\<close> never leaves it early.\<close>

fun foreachK :: "'b list \<Rightarrow> ('b \<Rightarrow> ('s, unit) op) \<Rightarrow> ('s, unit) op" where
  "foreachK [] f = returnK ()"
| "foreachK (x # xs) f = bindK (f x) (\<lambda>_. foreachK xs f)"

lemma bindK_Ret_left [simp]: "bindK (Ret a) f = f a"
  by (rule ext) (simp add: bindK_def)

lemma foreachK_append: "foreachK (xs @ ys) f = bindK (foreachK xs f) (\<lambda>_. foreachK ys f)"
  by (induction xs) (simp_all add: bindK_assoc)

section \<open>Frames\<close>

text \<open>
  \<open>keeps sel m\<close>: whenever the operation \<open>m\<close> returns, the part \<open>sel\<close> of the state is what it was.  The rules
  in \<open>keeps\<close> follow the structure of an operation, so a frame of a whole operation is found by applying
  them backwards.
\<close>

definition keeps :: "('s \<Rightarrow> 'f) \<Rightarrow> ('s, 'a) op \<Rightarrow> bool" where
  "keeps sel m \<longleftrightarrow> (\<forall>s a t. m s = Ret a t \<longrightarrow> sel t = sel s)"

named_theorems keep_rules \<open>introduction rules for frames of operations\<close>

lemma keepsD: "keeps sel m \<Longrightarrow> m s = Ret a t \<Longrightarrow> sel t = sel s"
  by (simp add: keeps_def)

lemma keeps_bindK [keep_rules]: "keeps sel m \<Longrightarrow> (\<And>a. keeps sel (f a)) \<Longrightarrow> keeps sel (bindK m f)"
  unfolding keeps_def bindK_eq_Ret by metis

lemma keeps_trivial [keep_rules]:
  "keeps sel (returnK a)" "keeps sel (Ret a)" "keeps sel (panicK msg)" "keeps sel faultK" "keeps sel hangK" "keeps sel (getK f)"
  by (simp_all add: keeps_def)

lemma keeps_modifyK: "(\<And>s. sel (f s) = sel s) \<Longrightarrow> keeps sel (modifyK f)"
  by (simp add: keeps_def)

lemma keeps_if [keep_rules]: "(b \<Longrightarrow> keeps sel m) \<Longrightarrow> (\<not> b \<Longrightarrow> keeps sel n) \<Longrightarrow> keeps sel (if b then m else n)"
  by simp

lemma keeps_whenK [keep_rules]: "keeps sel m \<Longrightarrow> keeps sel (whenK b m)"
  by (simp add: whenK_def keeps_trivial)

lemma keeps_case_option [keep_rules]:
  "keeps sel m \<Longrightarrow> (\<And>x. keeps sel (f x)) \<Longrightarrow> keeps sel (case r of None \<Rightarrow> m | Some x \<Rightarrow> f x)"
  by (cases r) simp_all

lemma keeps_case_list [keep_rules]:
  "keeps sel m \<Longrightarrow> (\<And>x ys. xs = x # ys \<Longrightarrow> keeps sel (f x ys)) \<Longrightarrow> keeps sel (case xs of [] \<Rightarrow> m | x # ys \<Rightarrow> f x ys)"
  by (cases xs) simp_all

lemma keeps_case_sum [keep_rules]:
  "(\<And>x. keeps sel (f x)) \<Longrightarrow> (\<And>y. keeps sel (g y)) \<Longrightarrow> keeps sel (case r of Inl x \<Rightarrow> f x | Inr y \<Rightarrow> g y)"
  by (cases r) simp_all

lemma keeps_case_prod [keep_rules]: "(\<And>x y. keeps sel (f x y)) \<Longrightarrow> keeps sel (case r of (x, y) \<Rightarrow> f x y)"
  by (cases r) simp

lemma keeps_Let [keep_rules]: "(\<And>x. keeps sel (f x)) \<Longrightarrow> keeps sel (let x = e in f x)"
  by simp

lemma keeps_foreachK [keep_rules]: "(\<And>x. keeps sel (f x)) \<Longrightarrow> keeps sel (foreachK xs f)"
  by (induction xs) (auto intro: keep_rules)

section \<open>First-match scans\<close>

text \<open>
  The kernel scans its fixed tables from the first slot and stops at the first one that satisfies a
  condition.  \<open>findIndex\<close> is that loop: the index at which it stops, or \<open>None\<close> when it runs off the end.
\<close>

fun findIndex :: "('a \<Rightarrow> bool) \<Rightarrow> 'a list \<Rightarrow> nat option" where
  "findIndex P [] = None"
| "findIndex P (x # xs) = (if P x then Some 0 else map_option Suc (findIndex P xs))"

lemma findIndex_None [simp]: "findIndex P xs = None \<longleftrightarrow> (\<forall>x \<in> set xs. \<not> P x)"
  by (induction xs) auto

lemma findIndex_Some:
  "findIndex P xs = Some i \<longleftrightarrow> i < length xs \<and> P (xs ! i) \<and> (\<forall>j < i. \<not> P (xs ! j))"
proof (induction xs arbitrary: i)
  case Nil
  then show ?case by simp
next
  case (Cons x xs)
  show ?case
    by (cases i) (auto simp: Cons.IH less_Suc_eq_0_disj)
qed

lemma findIndex_bound: "findIndex P xs = Some i \<Longrightarrow> i < length xs"
  by (simp add: findIndex_Some)

lemma findIndex_holds: "findIndex P xs = Some i \<Longrightarrow> P (xs ! i)"
  by (simp add: findIndex_Some)

section \<open>Words\<close>

lemma word_less_unat: "(a :: u32) < b \<longleftrightarrow> unat a < unat b"
  by (simp add: word_less_nat_alt)

lemma word_le_unat: "(a :: u32) \<le> b \<longleftrightarrow> unat a \<le> unat b"
  by (simp add: word_le_nat_alt)

lemma unat_u32_bound [simp]: "unat (a :: u32) < 4294967296"
  using unsigned_less [where ?'b = 32 and ?'a = nat, of a] by simp

lemma unat_add_u32: "unat (a :: u32) + unat b < 4294967296 \<Longrightarrow> unat (a + b) = unat a + unat b"
  by (simp add: unat_word_ariths)

lemma unat_add_of_nat:
  "unat (a :: u32) + n < 4294967296 \<Longrightarrow> unat (a + of_nat n) = unat a + n"
  by (simp add: unat_word_ariths unat_of_nat)

lemma unat_of_nat_u32: "n < 4294967296 \<Longrightarrow> unat (of_nat n :: u32) = n"
  by (simp add: unat_of_nat)

lemma unat_diff_of_nat:
  assumes "n \<le> unat (a :: u32)"
  shows "unat (a - of_nat n) = unat a - n"
proof -
  have n: "unat (of_nat n :: u32) = n"
    using assms unat_u32_bound [of a] by (intro unat_of_nat_u32) linarith
  with assms have "(of_nat n :: u32) \<le> a"
    by (simp add: word_le_unat)
  then show ?thesis
    by (simp add: unat_sub n)
qed

section \<open>Rounding to pages\<close>

lemma and_not_mask_word: "(a :: u32) AND NOT (mask n) = push_bit n (drop_bit n a)"
  by (rule bit_word_eqI) (auto simp: bit_simps)

lemma unat_and_not_mask: "unat ((a :: u32) AND NOT (mask n)) = unat a div 2 ^ n * 2 ^ n"
proof -
  have "unat a div 2 ^ n * 2 ^ n < 4294967296"
    using div_times_less_eq_dividend [of "unat a" "2 ^ n"] unat_u32_bound [of a] by linarith
  then show ?thesis
    unfolding and_not_mask_word unsigned_push_bit_eq unsigned_drop_bit_eq
    by (simp add: push_bit_eq_mult drop_bit_eq_div take_bit_eq_mod)
qed

lemma PGSIZE_mask: "PGSIZE - 1 = mask 12"
  by (simp add: PGSIZE_def mask_eq_exp_minus_1)

lemma unat_PGROUNDDOWN: "unat (PGROUNDDOWN a) = unat a div 4096 * 4096"
  unfolding PGROUNDDOWN_def PGSIZE_mask unat_and_not_mask by simp

lemma unat_PGROUNDUP:
  assumes "unat a + 4095 < 4294967296"
  shows "unat (PGROUNDUP a) = (unat a + 4095) div 4096 * 4096"
proof -
  have "unat (a + PGSIZE - 1) = unat (a + 4095)"
    by (rule arg_cong [of _ _ unat]) (simp add: PGSIZE_def)
  also have "\<dots> = unat a + 4095"
    using assms by (subst unat_add_u32) simp_all
  finally have "unat (a + PGSIZE - 1) = unat a + 4095" .
  then show ?thesis
    unfolding PGROUNDUP_def PGSIZE_mask unat_and_not_mask by simp
qed

definition page_aligned :: "u32 \<Rightarrow> bool" where
  "page_aligned v \<longleftrightarrow> v mod PGSIZE = 0"

lemma page_aligned_unat: "page_aligned v \<longleftrightarrow> unat v mod 4096 = 0"
  by (simp add: page_aligned_def PGSIZE_def word_unat_eq_iff unat_mod)

lemma PGROUNDDOWN_aligned [simp]: "page_aligned (PGROUNDDOWN a)"
  by (simp add: page_aligned_unat unat_PGROUNDDOWN)

lemma PGROUNDUP_aligned: "page_aligned (PGROUNDUP a)"
  unfolding page_aligned_unat PGROUNDUP_def PGSIZE_mask unat_and_not_mask by simp

text \<open>Signed and unsigned readings of a machine word.\<close>

lemma uint_sint_mod: "uint (x :: u32) = sint x mod 4294967296"
proof -
  have "uint x = take_bit 32 (sint x)"
    by transfer (simp add: take_bit_signed_take_bit)
  then show ?thesis by (simp add: take_bit_eq_mod)
qed

text \<open>The value that a 32-bit C \<^verbatim>\<open>int\<close> has after an operation with the mathematical result \<open>n\<close>.\<close>

definition int32 :: "int \<Rightarrow> int" where
  "int32 n = signed_take_bit 31 n"

lemma int32_id: "- (2 ^ 31) \<le> n \<Longrightarrow> n < 2 ^ 31 \<Longrightarrow> int32 n = n"
  by (simp add: int32_def signed_take_bit_int_eq_self)

lemma sint_u32_bounds: "- 2147483648 \<le> sint (x :: u32)" "sint x < 2147483648"
  using sint_ge [of x] sint_lt [of x] by simp_all

lemma sint_positive:
  fixes w :: u32
  assumes "0 < unat w" "unat w < 2147483648"
  shows "0 < sint w"
proof (rule ccontr)
  assume "\<not> 0 < sint w"
  moreover have "0 < int (unat w)" "int (unat w) < 2147483648" using assms by linarith+
  moreover have "(sint w + 4294967296) mod 4294967296 = sint w + 4294967296" if "sint w < 0"
    using that sint_u32_bounds [of w] by (intro mod_pos_pos_trivial) simp_all
  ultimately show False using uint_sint_mod [of w] sint_u32_bounds [of w] by (cases "sint w = 0") simp_all
qed

text \<open>
  Positions in a ring buffer whose size divides \<open>2 ^ 32\<close>: the counters may wrap around without a jump of the position.
\<close>

lemma unat_add_ring:
  assumes "n dvd 2 ^ 32"
  shows "unat ((x :: u32) + y) mod n = (unat x + unat y) mod n"
proof -
  have "unat (x + y) mod n = (unat x + unat y) mod 2 ^ 32 mod n" by (simp add: unat_word_ariths)
  also have "\<dots> = (unat x + unat y) mod n" using assms by (rule mod_mod_cancel)
  finally show ?thesis .
qed

lemma ring_position_le:
  assumes "j \<le> l" "l < n" "(r + j) mod n = (r + l) mod (n :: nat)"
  shows "j = l"
proof -
  have "n dvd (r + l) - (r + j)"
    using assms by (subst mod_eq_dvd_iff_nat [symmetric]) simp_all
  then have "l - j = 0" using assms(2) by (auto dest: dvd_imp_le)
  then show ?thesis using assms(1) by simp
qed

lemma ring_position: "j < n \<Longrightarrow> l < n \<Longrightarrow> (r + j) mod n = (r + l) mod (n :: nat) \<Longrightarrow> j = l"
  using ring_position_le [of j l n r] ring_position_le [of l j n r] by (cases "j \<le> l") simp_all

end
