(* ===== verification/CString.thy ===== *)
theory CString
  imports Prelude
begin

text \<open>
  The kernel's C library (\<^verbatim>\<open>string.c\<close>) over a flat 32-bit address space: memory is a function from
  addresses to bytes, pointers are 32-bit words and pointer arithmetic wraps.  The block operations
  (\<^verbatim>\<open>memset\<close>, \<^verbatim>\<open>memcmp\<close>, \<^verbatim>\<open>memmove\<close>, \<^verbatim>\<open>memcpy\<close>) and the bounded string operations
  (\<^verbatim>\<open>strncmp\<close>, \<^verbatim>\<open>strncpy\<close>, \<^verbatim>\<open>safestrcpy\<close>) are total; \<^verbatim>\<open>strlen\<close>, \<^verbatim>\<open>strcmp\<close>, \<^verbatim>\<open>strcpy\<close> and
  \<^verbatim>\<open>strchr\<close> run until they meet a terminator and are partial functions whose value \<open>None\<close> means that
  they never return.  The lemmas characterise each by what it does to the bytes, first as equations
  on the whole memory and then on zero-terminated strings (\<open>cstr\<close>).
\<close>

unbundle bit_operations_syntax

section \<open>Definitions\<close>

subsection \<open>Little-endian 32-bit accesses\<close>

definition load32 :: "memory \<Rightarrow> u32 \<Rightarrow> u32" where
  "load32 m a = ucast (m a) OR push_bit 8 (ucast (m (a + 1)))
     OR push_bit 16 (ucast (m (a + 2))) OR push_bit 24 (ucast (m (a + 3)))"

definition store32 :: "memory \<Rightarrow> u32 \<Rightarrow> u32 \<Rightarrow> memory" where
  "store32 m a v = m(a := ucast v, a + 1 := ucast (drop_bit 8 v),
     a + 2 := ucast (drop_bit 16 v), a + 3 := ucast (drop_bit 24 v))"

subsection \<open>Block operations\<close>

fun storeSequenceOfBytes :: "memory \<Rightarrow> u32 \<Rightarrow> u32 \<Rightarrow> nat \<Rightarrow> memory" where
  "storeSequenceOfBytes m addr data 0 = m"
| "storeSequenceOfBytes m addr data (Suc cnt) =
     storeSequenceOfBytes (m(addr := ucast data)) (addr + 1) data cnt"

fun storeSequenceOfDwords :: "memory \<Rightarrow> u32 \<Rightarrow> u32 \<Rightarrow> nat \<Rightarrow> memory" where
  "storeSequenceOfDwords m addr data 0 = m"
| "storeSequenceOfDwords m addr data (Suc cnt) =
     storeSequenceOfDwords (store32 m addr data) (addr + 4) data cnt"

definition memset :: "memory \<Rightarrow> u32 \<Rightarrow> u32 \<Rightarrow> u32 \<Rightarrow> memory" where
  "memset m dst c n =
     (if sint dst mod 4 = 0 \<and> n mod 4 = 0
      then let c = c AND 0xFF in
        storeSequenceOfDwords m dst
          (push_bit 24 c OR push_bit 16 c OR push_bit 8 c OR c) (unat (n div 4))
      else storeSequenceOfBytes m dst c (unat n))"

fun memcmp_loop :: "memory \<Rightarrow> u32 \<Rightarrow> u32 \<Rightarrow> nat \<Rightarrow> int" where
  "memcmp_loop m s1 s2 0 = 0"
| "memcmp_loop m s1 s2 (Suc n) =
     (if m s1 \<noteq> m s2 then uint (m s1) - uint (m s2) else memcmp_loop m (s1 + 1) (s2 + 1) n)"

definition memcmp :: "memory \<Rightarrow> u32 \<Rightarrow> u32 \<Rightarrow> u32 \<Rightarrow> int" where
  "memcmp m v1 v2 n = memcmp_loop m v1 v2 (unat n)"

fun copy_backward :: "memory \<Rightarrow> u32 \<Rightarrow> u32 \<Rightarrow> nat \<Rightarrow> memory" where
  "copy_backward m d s 0 = m"
| "copy_backward m d s (Suc n) = copy_backward (m(d - 1 := m (s - 1))) (d - 1) (s - 1) n"

fun copy_forward :: "memory \<Rightarrow> u32 \<Rightarrow> u32 \<Rightarrow> nat \<Rightarrow> memory" where
  "copy_forward m d s 0 = m"
| "copy_forward m d s (Suc n) = copy_forward (m(d := m s)) (d + 1) (s + 1) n"

definition memmove :: "memory \<Rightarrow> u32 \<Rightarrow> u32 \<Rightarrow> u32 \<Rightarrow> memory" where
  "memmove m dst src n =
     (if src < dst \<and> src + n > dst
      then copy_backward m (dst + n) (src + n) (unat n)
      else copy_forward m dst src (unat n))"

definition memcpy :: "memory \<Rightarrow> u32 \<Rightarrow> u32 \<Rightarrow> u32 \<Rightarrow> memory" where
  "memcpy m dst src n = memmove m dst src n"

subsection \<open>Bounded string operations\<close>

fun strncmp_loop :: "memory \<Rightarrow> u32 \<Rightarrow> u32 \<Rightarrow> nat \<Rightarrow> int" where
  "strncmp_loop m p q 0 = 0"
| "strncmp_loop m p q (Suc n) =
     (if m p \<noteq> 0 \<and> m p = m q then strncmp_loop m (p + 1) (q + 1) n
      else uint (m p) - uint (m q))"

definition strncmp :: "memory \<Rightarrow> u32 \<Rightarrow> u32 \<Rightarrow> u32 \<Rightarrow> int" where
  "strncmp m p q n = strncmp_loop m p q (unat n)"

text \<open>
  The two loops of \<^verbatim>\<open>strncpy\<close>.  The first returns the memory, the write pointer and the count as
  they are when its condition fails: the count has been decremented by the failed test \<^verbatim>\<open>n-- > 0\<close>.
\<close>

function strncpy_copy :: "memory \<Rightarrow> u32 \<Rightarrow> u32 \<Rightarrow> int \<Rightarrow> memory \<times> u32 \<times> int" where
  "strncpy_copy m s t n =
     (if n > 0
      then if m t \<noteq> 0 then strncpy_copy (m(s := m t)) (s + 1) (t + 1) (n - 1)
           else (m(s := m t), s + 1, n - 1)
      else (m, s, n - 1))"
  by pat_completeness auto
termination by (relation "measure (\<lambda>(m, s, t, n). nat n)") auto

function strncpy_pad :: "memory \<Rightarrow> u32 \<Rightarrow> int \<Rightarrow> memory" where
  "strncpy_pad m s n = (if n > 0 then strncpy_pad (m(s := 0)) (s + 1) (n - 1) else m)"
  by pat_completeness auto
termination by (relation "measure (\<lambda>(m, s, n). nat n)") auto

definition strncpy :: "memory \<Rightarrow> u32 \<Rightarrow> u32 \<Rightarrow> int \<Rightarrow> memory" where
  "strncpy m s t n = (case strncpy_copy m s t n of (m', s', n') \<Rightarrow> strncpy_pad m' s' n')"

function safestrcpy_loop :: "memory \<Rightarrow> u32 \<Rightarrow> u32 \<Rightarrow> int \<Rightarrow> memory \<times> u32" where
  "safestrcpy_loop m s t n =
     (if n - 1 > 0
      then if m t \<noteq> 0 then safestrcpy_loop (m(s := m t)) (s + 1) (t + 1) (n - 1)
           else (m(s := m t), s + 1)
      else (m, s))"
  by pat_completeness auto
termination by (relation "measure (\<lambda>(m, s, t, n). nat n)") auto

definition safestrcpy :: "memory \<Rightarrow> u32 \<Rightarrow> u32 \<Rightarrow> int \<Rightarrow> memory" where
  "safestrcpy m s t n =
     (if n \<le> 0 then m else case safestrcpy_loop m s t n of (m', s') \<Rightarrow> m'(s' := 0))"

subsection \<open>Unbounded string operations\<close>

partial_function (option) strlen_loop :: "memory \<Rightarrow> u32 \<Rightarrow> nat \<Rightarrow> nat option" where
  "strlen_loop m s n =
     (if m (s + of_nat n) \<noteq> 0 then strlen_loop m s (Suc n) else Some n)"

definition strlen :: "memory \<Rightarrow> u32 \<Rightarrow> nat option" where
  "strlen m s = strlen_loop m s 0"

partial_function (option) strcmp_loop :: "memory \<Rightarrow> u32 \<Rightarrow> u32 \<Rightarrow> int option" where
  "strcmp_loop m str1 str2 =
     (if uint (m str1) - uint (m str2) = 0 \<and> m str2 \<noteq> 0
      then strcmp_loop m (str1 + 1) (str2 + 1)
      else Some (uint (m str1) - uint (m str2)))"

definition strcmp :: "memory \<Rightarrow> u32 \<Rightarrow> u32 \<Rightarrow> int option" where
  "strcmp m str1 str2 =
     map_option (\<lambda>result. if result < 0 then -1 else if result > 0 then 1 else result)
       (strcmp_loop m str1 str2)"

partial_function (option) strcpy :: "memory \<Rightarrow> u32 \<Rightarrow> u32 \<Rightarrow> memory option" where
  "strcpy m destination source =
     (if m source \<noteq> 0
      then strcpy (m(destination := m source)) (destination + 1) (source + 1)
      else Some (m(destination := m source)))"

partial_function (option) strchr :: "memory \<Rightarrow> u32 \<Rightarrow> int \<Rightarrow> u32 option" where
  "strchr m str character =
     (if sint (m str) = character then Some str
      else if m str \<noteq> 0 then strchr m (str + 1) character
      else Some 0)"

section \<open>Addresses and 32-bit accesses\<close>

lemma unat_minus_next:
  assumes "(x :: u32) \<noteq> a"
  shows "unat (x - a) = Suc (unat (x - (a + 1)))"
proof -
  have "unat (x - a - 1) = unat (x - a) - 1" and "unat (x - a) \<noteq> 0"
    using assms by (simp_all add: unat_minus_one unat_0_iff)
  then show ?thesis by (simp add: diff_diff_eq)
qed

lemma unat_minus_one_word [simp]: "unat (- 1 :: u32) = 4294967295"
  by (simp add: unsigned_minus_1_eq_mask mask_eq_exp_minus_1)

lemma unat_eq_of_nat_iff: "unat ((x :: u32) - d) = n \<Longrightarrow> x = d + of_nat n"
  by (metis add_diff_cancel_left' diff_eq_eq of_nat_unat ucast_id add.commute)

lemma addr_in_range_Suc:
  assumes "n < 4294967296"
  shows "unat ((x :: u32) - a) < Suc n \<longleftrightarrow> x = a \<or> unat (x - (a + 1)) < n"
proof (cases "x = a")
  case False
  then show ?thesis by (simp add: unat_minus_next)
qed simp

lemma word_succ_neq [simp]:
  "(a :: u32) + 1 \<noteq> a" "a + 2 \<noteq> a" "a + 3 \<noteq> a" "a + 2 \<noteq> a + 1" "a + 3 \<noteq> a + 1" "a + 3 \<noteq> a + 2"
  "a \<noteq> a + 1" "a \<noteq> a + 2" "a \<noteq> a + 3" "a + 1 \<noteq> a + 2" "a + 1 \<noteq> a + 3" "a + 2 \<noteq> a + 3"
  by simp_all

lemma store32_apply:
  "store32 m a v x =
     (if x = a then ucast v else if x = a + 1 then ucast (drop_bit 8 v)
      else if x = a + 2 then ucast (drop_bit 16 v) else if x = a + 3 then ucast (drop_bit 24 v)
      else m x)"
  by (simp add: store32_def)

lemma load32_store32 [simp]: "load32 (store32 m a v) a = v"
proof (rule bit_word_eqI)
  fix n assume "n < LENGTH(32)"
  then show "bit (load32 (store32 m a v) a) n \<longleftrightarrow> bit v n"
    by (cases "n < 24"; cases "n < 16") (auto simp: load32_def store32_apply bit_simps)
qed

lemma load32_cong:
  assumes "\<And>i. i \<in> {0, 1, 2, 3} \<Longrightarrow> m' (a + i) = m (a + i)"
  shows "load32 m' a = load32 m a"
  using assms [of 0] assms [of 1] assms [of 2] assms [of 3] by (simp add: load32_def)

section \<open>memset\<close>

lemma storeSequenceOfBytes_apply:
  "n \<le> 4294967296 \<Longrightarrow>
   storeSequenceOfBytes m a c n x = (if unat (x - a) < n then ucast c else m x)"
proof (induction n arbitrary: m a)
  case (Suc n)
  then show ?case
    by (simp add: addr_in_range_Suc)
qed simp

lemma byte_mask: "(0xFF :: u32) = mask 8"
  by (simp add: mask_eq_exp_minus_1)

lemma drop_replicated_byte:
  fixes c :: u32
  defines "r \<equiv> push_bit 24 (c AND 0xFF) OR push_bit 16 (c AND 0xFF) OR push_bit 8 (c AND 0xFF) OR (c AND 0xFF)"
  shows "(ucast r :: byte) = ucast c" "(ucast (drop_bit 8 r) :: byte) = ucast c"
    "(ucast (drop_bit 16 r) :: byte) = ucast c" "(ucast (drop_bit 24 r) :: byte) = ucast c"
  unfolding r_def byte_mask
  by (rule bit_word_eqI; auto simp: bit_simps)+

lemma addr_in_range_dword:
  assumes "4 * Suc n \<le> 4294967296"
  shows "unat ((x :: u32) - a) < 4 * Suc n \<longleftrightarrow>
     x = a \<or> x = a + 1 \<or> x = a + 2 \<or> x = a + 3 \<or> unat (x - (a + 4)) < 4 * n"
proof -
  have "4 * Suc n = Suc (Suc (Suc (Suc (4 * n))))" by simp
  with assms show ?thesis
    by (simp add: addr_in_range_Suc add.assoc del: mult_Suc_right)
qed

lemma storeSequenceOfDwords_apply:
  assumes "\<And>k. k \<in> {0, 8, 16, 24} \<Longrightarrow> (ucast (drop_bit k v) :: byte) = c"
    and "4 * n \<le> 4294967296"
  shows "storeSequenceOfDwords m a v n x = (if unat (x - a) < 4 * n then c else m x)"
  using assms(2)
proof (induction n arbitrary: m a)
  case (Suc n)
  have "store32 m a v = m(a := c, a + 1 := c, a + 2 := c, a + 3 := c)"
    using assms(1) [of 0] assms(1) [of 8] assms(1) [of 16] assms(1) [of 24]
    by (simp add: store32_def)
  with Suc show ?case
    by (simp add: addr_in_range_dword del: mult_Suc_right)
qed simp

lemma memset_apply: "memset m dst c n x = (if unat (x - dst) < unat n then ucast c else m x)"
proof (cases "sint dst mod 4 = 0 \<and> n mod 4 = 0")
  case True
  let ?c = "c AND 0xFF"
  let ?v = "push_bit 24 ?c OR push_bit 16 ?c OR push_bit 8 ?c OR ?c"
  have "unat n mod 4 = 0"
    using True unat_mod [of n 4] by simp
  then have n: "4 * unat (n div 4) = unat n"
    by (simp add: unat_div) (metis add_0 div_mult_mod_eq mult.commute add.commute)
  have "storeSequenceOfDwords m dst ?v (unat (n div 4)) x =
      (if unat (x - dst) < 4 * unat (n div 4) then ucast c else m x)"
  proof (rule storeSequenceOfDwords_apply)
    show "(ucast (drop_bit k ?v) :: byte) = ucast c" if "k \<in> {0, 8, 16, 24}" for k
      using that drop_replicated_byte [of c] by auto
  qed (simp add: n less_imp_le)
  with True n show ?thesis by (simp add: memset_def Let_def)
next
  case False
  then show ?thesis
    by (simp only: memset_def if_False storeSequenceOfBytes_apply less_imp_le [OF unat_u32_bound])
qed

section \<open>memmove and memcmp\<close>

lemma copy_forward_apply:
  assumes "n \<le> 4294967296" and "d = s \<or> n \<le> unat (d - s)"
  shows "copy_forward m d s n x = (if unat (x - d) < n then m (s + (x - d)) else m x)"
  using assms
proof (induction n arbitrary: m d s)
  case (Suc n)
  have IH: "copy_forward (m(d := m s)) (d + 1) (s + 1) n x =
      (if unat (x - (d + 1)) < n then (m(d := m s)) (s + 1 + (x - (d + 1))) else (m(d := m s)) x)"
    using Suc.prems by (intro Suc.IH) auto
  show ?case
  proof (cases "x = d")
    case True
    with IH Suc.prems show ?thesis by simp
  next
    case False
    have "s + (x - d) = d \<Longrightarrow> x - d = d - s" by (simp add: algebra_simps)
    then have "unat (x - (d + 1)) < n \<Longrightarrow> s + (x - d) \<noteq> d"
      using False Suc.prems unat_minus_next [OF False] by auto
    with False IH Suc.prems show ?thesis
      by (auto simp: addr_in_range_Suc algebra_simps)
  qed
qed simp

lemma copy_backward_apply:
  assumes "n \<le> 4294967296" and "d = s \<or> n \<le> unat (s - d)"
  shows "copy_backward m (d + of_nat n) (s + of_nat n) n x =
    (if unat (x - d) < n then m (s + (x - d)) else m x)"
  using assms
proof (induction n arbitrary: m)
  case (Suc n)
  let ?m = "m(d + of_nat n := m (s + of_nat n))"
  have IH: "copy_backward ?m (d + of_nat n) (s + of_nat n) n x =
      (if unat (x - d) < n then ?m (s + (x - d)) else ?m x)"
    using Suc.prems by (intro Suc.IH) auto
  have n: "unat (of_nat n :: u32) = n"
    using Suc.prems by (simp add: unat_of_nat)
  have step: "copy_backward m (d + of_nat (Suc n)) (s + of_nat (Suc n)) (Suc n) x =
      copy_backward ?m (d + of_nat n) (s + of_nat n) n x"
    by simp
  show ?case
  proof (cases "x = d + of_nat n")
    case True
    then show ?thesis using n IH step by simp
  next
    case False
    then have xn: "unat (x - d) \<noteq> n"
      by (auto simp: unat_eq_of_nat_iff)
    have "s + (x - d) = d + of_nat n \<Longrightarrow> x - d = of_nat n - (s - d)"
      by (simp add: algebra_simps)
    moreover have "unat (x - d) < n \<Longrightarrow> x - d = of_nat n - (s - d) \<Longrightarrow> False"
    proof -
      assume lt: "unat (x - d) < n" and eq: "x - d = of_nat n - (s - d)"
      show False
      proof (cases "d = s")
        case True
        with eq n xn show False by simp
      next
        case False
        then have "unat (s - d) > n" using Suc.prems by simp
        have sum: "(s - d) + (x - d) = of_nat n" unfolding eq by simp
        have "unat (s - d) + unat (x - d) = n + 4294967296 \<or> unat (s - d) + unat (x - d) = n"
          using unat_plus_if' [of "s - d" "x - d"] unfolding sum n by (simp split: if_splits)
        with lt \<open>unat (s - d) > n\<close> show False
          using unat_u32_bound [of "s - d"] by linarith
      qed
    qed
    ultimately have "unat (x - d) < n \<Longrightarrow> s + (x - d) \<noteq> d + of_nat n" by blast
    then have "unat (x - d) < n \<Longrightarrow> ?m (s + (x - d)) = m (s + (x - d))"
      by (rule fun_upd_other)
    moreover have "?m x = m x"
      using False by (rule fun_upd_other)
    moreover have "unat (x - d) < Suc n \<longleftrightarrow> unat (x - d) < n"
      using xn by linarith
    ultimately show ?thesis
      unfolding step IH by presburger
  qed
qed simp

lemma memmove_apply:
  assumes src: "unat src + unat n < 4294967296" and dst: "unat dst + unat n < 4294967296"
  shows "memmove m dst src n x = (if unat (x - dst) < unat n then m (src + (x - dst)) else m x)"
proof (cases "src < dst \<and> src + n > dst")
  case True
  have "dst = src \<or> unat n \<le> unat (src - dst)"
    using True dst unat_sub_if_size [of src dst]
    by (auto simp: word_less_unat word_size)
  then show ?thesis
    using True copy_backward_apply [of "unat n" dst src m x] by (simp add: memmove_def less_imp_le)
next
  case False
  have "dst = src \<or> unat n \<le> unat (dst - src)"
    using False src unat_add_u32 [OF src] unat_sub_if_size [of dst src]
    by (auto simp: word_less_unat word_size word_unat_eq_iff)
  then show ?thesis
    using False copy_forward_apply [of "unat n" dst src m x] by (auto simp: memmove_def less_imp_le)
qed

lemma memcmp_loop_zero:
  "n \<le> 4294967296 \<Longrightarrow>
   memcmp_loop m p q n = 0 \<longleftrightarrow> (\<forall>i < n. m (p + of_nat i) = m (q + of_nat i))"
proof (induction n arbitrary: p q)
  case (Suc n)
  have "(\<forall>i < Suc n. m (p + of_nat i) = m (q + of_nat i)) \<longleftrightarrow>
      m p = m q \<and> (\<forall>i < n. m (p + 1 + of_nat i) = m (q + 1 + of_nat i))"
    by (auto simp: less_Suc_eq_0_disj add.assoc)
  with Suc show ?case by (auto simp: word_uint_eq_iff)
qed simp

section \<open>Zero-terminated strings\<close>

text \<open>
  \<open>cstr m a xs\<close>: the non-zero bytes \<open>xs\<close> are stored from address \<open>a\<close> on and a zero byte follows.
  \<open>write_bytes m a bs\<close> is the memory after storing \<open>bs\<close> from \<open>a\<close> on.  \<open>apart a n b k\<close>: the \<open>n\<close> bytes at
  \<open>a\<close> and the \<open>k\<close> bytes at \<open>b\<close> have no address in common.
\<close>

fun cstr :: "memory \<Rightarrow> u32 \<Rightarrow> byte list \<Rightarrow> bool" where
  "cstr m a [] \<longleftrightarrow> m a = 0"
| "cstr m a (x # xs) \<longleftrightarrow> x \<noteq> 0 \<and> m a = x \<and> cstr m (a + 1) xs"

fun write_bytes :: "memory \<Rightarrow> u32 \<Rightarrow> byte list \<Rightarrow> memory" where
  "write_bytes m a [] = m"
| "write_bytes m a (b # bs) = write_bytes (m(a := b)) (a + 1) bs"

definition apart :: "u32 \<Rightarrow> nat \<Rightarrow> u32 \<Rightarrow> nat \<Rightarrow> bool" where
  "apart a n b k \<longleftrightarrow> (\<forall>i < n. \<forall>j < k. a + of_nat i \<noteq> b + of_nat j)"

lemma apart_Suc:
  "apart a (Suc n) b (Suc k) \<Longrightarrow> (\<forall>j < Suc k. a \<noteq> b + of_nat j) \<and> apart (a + 1) n (b + 1) k"
  unfolding apart_def
proof (intro conjI allI impI)
  fix i j
  assume h: "\<forall>i<Suc n. \<forall>j<Suc k. a + of_nat i \<noteq> b + of_nat j" and "i < n" "j < k"
  then have "a + of_nat (Suc i) \<noteq> b + of_nat (Suc j)"
    by (meson Suc_less_eq)
  then show "a + 1 + of_nat i \<noteq> b + 1 + of_nat j"
    by (simp add: add.assoc)
next
  fix j
  assume h: "\<forall>i<Suc n. \<forall>j<Suc k. a + of_nat i \<noteq> b + of_nat j" and "j < Suc k"
  then have "a + of_nat 0 \<noteq> b + of_nat j" by blast
  then show "a \<noteq> b + of_nat j" by simp
qed

lemma apart_mono: "apart a n b k \<Longrightarrow> n' \<le> n \<Longrightarrow> k' \<le> k \<Longrightarrow> apart a n' b k'"
  by (auto simp: apart_def)

lemma cstr_iff:
  "cstr m a xs \<longleftrightarrow>
     0 \<notin> set xs \<and> (\<forall>i < length xs. m (a + of_nat i) = xs ! i) \<and> m (a + of_nat (length xs)) = 0"
proof (induction xs arbitrary: a)
  case (Cons x xs)
  show ?case
    by (auto simp: Cons.IH less_Suc_eq_0_disj add.assoc)
qed simp

lemma cstr_upd:
  "\<forall>j < Suc (length xs). a \<noteq> b + of_nat j \<Longrightarrow> cstr (m(a := v)) b xs \<longleftrightarrow> cstr m b xs"
proof (induction xs arbitrary: b)
  case (Cons x xs)
  have "a \<noteq> b"
    using Cons.prems [rule_format, of 0] by simp
  moreover have "\<forall>j < Suc (length xs). a \<noteq> (b + 1) + of_nat j"
  proof (intro allI impI)
    fix j assume "j < Suc (length xs)"
    then have "a \<noteq> b + of_nat (Suc j)"
      using Cons.prems [rule_format, of "Suc j"] by simp
    then show "a \<noteq> (b + 1) + of_nat j" by (simp add: add.assoc)
  qed
  ultimately show ?case
    using Cons.IH by simp
qed simp

lemma write_bytes_apply:
  "length bs \<le> 4294967296 \<Longrightarrow>
   write_bytes m a bs x = (if unat (x - a) < length bs then bs ! unat (x - a) else m x)"
proof (induction bs arbitrary: m a)
  case (Cons b bs)
  then show ?case
    by (cases "x = a") (simp_all add: addr_in_range_Suc unat_minus_next)
qed simp

lemma cstr_write_bytes:
  assumes "0 \<notin> set bs" "length bs < 4294967296" "length bs + length cs < 4294967296"
  shows "cstr (write_bytes m a (bs @ 0 # cs)) a bs"
  unfolding cstr_iff using assms
  by (auto simp: write_bytes_apply unat_of_nat nth_append)

lemma strlen_loop_cstr: "cstr m (s + of_nat n) xs \<Longrightarrow> strlen_loop m s n = Some (n + length xs)"
proof (induction xs arbitrary: n)
  case Nil
  then show ?case by (subst strlen_loop.simps) simp
next
  case (Cons x xs)
  then have "cstr m (s + of_nat (Suc n)) xs" by (simp add: algebra_simps)
  from Cons.IH [OF this] Cons.prems show ?case
    by (subst strlen_loop.simps) simp
qed

lemma strlen_cstr: "cstr m s xs \<Longrightarrow> strlen m s = Some (length xs)"
  using strlen_loop_cstr [of m s 0 xs] by (simp add: strlen_def)

lemma uint_pos_iff: "0 < uint (x :: byte) \<longleftrightarrow> x \<noteq> 0"
  by (simp add: order_less_le uint_0_iff)

fun byte_order :: "byte list \<Rightarrow> byte list \<Rightarrow> int" where
  "byte_order [] [] = 0"
| "byte_order [] (y # ys) = -1"
| "byte_order (x # xs) [] = 1"
| "byte_order (x # xs) (y # ys) = (if x < y then -1 else if y < x then 1 else byte_order xs ys)"

lemma byte_order_zero: "byte_order xs ys = 0 \<longleftrightarrow> xs = ys"
  by (induction xs ys rule: byte_order.induct) auto

lemma byte_order_swap: "byte_order ys xs = - byte_order xs ys"
  by (induction xs ys rule: byte_order.induct) auto

lemma strcmp_step:
  "strcmp m p q =
     (if m p = m q \<and> m q \<noteq> 0 then strcmp m (p + 1) (q + 1)
      else Some (if m p < m q then -1 else if m q < m p then 1 else 0))"
  by (auto simp: strcmp_def strcmp_loop.simps [of m p q] word_less_def word_uint_eq_iff)

lemma strcmp_cstr:
  "cstr m p xs \<Longrightarrow> cstr m q ys \<Longrightarrow> strcmp m p q = Some (byte_order xs ys)"
proof (induction xs ys arbitrary: p q rule: byte_order.induct)
  case 1
  then show ?case by (simp add: strcmp_step [of m p q])
next
  case (2 y ys)
  then show ?case by (auto simp: strcmp_step [of m p q] word_gt_0)
next
  case (3 x xs)
  then show ?case by (auto simp: strcmp_step [of m p q] word_gt_0)
next
  case (4 x xs y ys)
  then show ?case by (auto simp: strcmp_step [of m p q])
qed

lemma strncmp_loop_zero:
  "cstr m p xs \<Longrightarrow> cstr m q ys \<Longrightarrow> strncmp_loop m p q n = 0 \<longleftrightarrow> take n xs = take n ys"
proof (induction n arbitrary: p q xs ys)
  case (Suc n)
  then show ?case
    by (cases xs; cases ys) (auto simp: word_uint_eq_iff)
qed simp

lemma strcpy_cstr:
  "cstr m t xs \<Longrightarrow> apart s (Suc (length xs)) t (Suc (length xs)) \<Longrightarrow>
   strcpy m s t = Some (write_bytes m s (xs @ [0]))"
proof (induction xs arbitrary: m s t)
  case Nil
  then show ?case by (simp add: strcpy.simps [of m s t] fun_upd_def)
next
  case (Cons x xs)
  from apart_Suc [OF Cons.prems(2)]
  have ap: "\<forall>j < Suc (Suc (length xs)). s \<noteq> t + of_nat j"
    "apart (s + 1) (Suc (length xs)) (t + 1) (Suc (length xs))"
    by simp_all
  have "cstr (m(s := x)) t (x # xs)"
    using ap(1) Cons.prems(1) cstr_upd [of "x # xs" s t m x] by simp
  then have "strcpy (m(s := x)) (s + 1) (t + 1) = Some (write_bytes (m(s := x)) (s + 1) (xs @ [0]))"
    by (intro Cons.IH [OF _ ap(2)]) (simp add: fun_upd_def)
  with Cons.prems(1) show ?case
    by (simp add: strcpy.simps [of m s t] fun_upd_def)
qed

declare strncpy_copy.simps [simp del] strncpy_pad.simps [simp del] safestrcpy_loop.simps [simp del]

lemma strncpy_pad_write: "strncpy_pad m s n = write_bytes m s (replicate (nat n) 0)"
proof (induction m s n rule: strncpy_pad.induct)
  case (1 m s n)
  show ?case
  proof (cases "n > 0")
    case True
    then have "nat n = Suc (nat (n - 1))" by simp
    with True 1 show ?thesis by (simp add: strncpy_pad.simps [of m s n] fun_upd_def)
  qed (simp add: strncpy_pad.simps [of m s n])
qed

lemma strncpy_cstr:
  "cstr m t xs \<Longrightarrow> apart s (nat n) t (Suc (length xs)) \<Longrightarrow>
   strncpy m s t n = write_bytes m s (take (nat n) xs @ replicate (nat n - length xs) 0)"
proof (induction xs arbitrary: m s t n)
  case Nil
  then show ?case
    by (cases "n > 0")
      (auto simp: strncpy_def strncpy_copy.simps [of m s t n] strncpy_pad_write
        nat_diff_distrib' Suc_diff_Suc simp flip: replicate_Suc write_bytes.simps(2))
next
  case (Cons x xs)
  show ?case
  proof (cases "n > 0")
    case False
    then show ?thesis
      by (simp add: strncpy_def strncpy_copy.simps [of m s t n] strncpy_pad_write)
  next
    case True
    then have n: "nat n = Suc (nat (n - 1))" by simp
    from apart_Suc [of s "nat (n - 1)" t] Cons.prems(2) n
    have ap: "\<forall>j < Suc (Suc (length xs)). s \<noteq> t + of_nat j"
      "apart (s + 1) (nat (n - 1)) (t + 1) (Suc (length xs))"
      by simp_all
    have "cstr (m(s := x)) t (x # xs)"
      using ap(1) Cons.prems(1) cstr_upd [of "x # xs" s t m x] by simp
    then have "strncpy (m(s := x)) (s + 1) (t + 1) (n - 1) =
        write_bytes (m(s := x)) (s + 1) (take (nat (n - 1)) xs @ replicate (nat (n - 1) - length xs) 0)"
      by (intro Cons.IH [OF _ ap(2)]) (simp add: fun_upd_def)
    with Cons.prems(1) True show ?thesis
      by (simp add: strncpy_def strncpy_copy.simps [of m s t n] n fun_upd_def)
  qed
qed

text \<open>
  \<^verbatim>\<open>safestrcpy\<close> writes at most \<open>n\<close> bytes: the string cut to \<open>n - 1\<close> characters and its terminator, and
  a second zero byte when the string is shorter than \<open>n - 1\<close>.
\<close>

definition safestrcpy_bytes :: "byte list \<Rightarrow> nat \<Rightarrow> byte list" where
  "safestrcpy_bytes xs n = (if length xs < n - 1 then xs @ [0, 0] else take (n - 1) xs @ [0])"

lemma safestrcpy_cstr:
  "0 < n \<Longrightarrow> cstr m t xs \<Longrightarrow> apart s (nat n) t (Suc (length xs)) \<Longrightarrow>
   safestrcpy m s t n = write_bytes m s (safestrcpy_bytes xs (nat n))"
proof (induction xs arbitrary: m s t n)
  case Nil
  then show ?case
    by (auto simp: safestrcpy_def safestrcpy_loop.simps [of m s t n] safestrcpy_bytes_def fun_upd_def)
next
  case (Cons x xs)
  show ?case
  proof (cases "n - 1 > 0")
    case False
    with Cons.prems have "n = 1" by simp
    then show ?thesis
      by (simp add: safestrcpy_def safestrcpy_loop.simps [of m s t 1] safestrcpy_bytes_def)
  next
    case True
    then have n: "nat n = Suc (nat (n - 1))" "nat (n - 1) > 0" by simp_all
    from apart_Suc [of s "nat (n - 1)" t] Cons.prems(3) n
    have ap: "\<forall>j < Suc (Suc (length xs)). s \<noteq> t + of_nat j"
      "apart (s + 1) (nat (n - 1)) (t + 1) (Suc (length xs))"
      by simp_all
    have "cstr (m(s := x)) t (x # xs)"
      using ap(1) Cons.prems(2) cstr_upd [of "x # xs" s t m x] by simp
    then have "safestrcpy (m(s := x)) (s + 1) (t + 1) (n - 1) =
        write_bytes (m(s := x)) (s + 1) (safestrcpy_bytes xs (nat (n - 1)))"
      by (intro Cons.IH [OF True _ ap(2)]) (simp add: fun_upd_def)
    moreover have "safestrcpy_bytes (x # xs) (nat n) = x # safestrcpy_bytes xs (nat (n - 1))"
      using n by (cases "nat (n - 1)") (auto simp: safestrcpy_bytes_def)
    moreover have "safestrcpy m s t n = safestrcpy (m(s := x)) (s + 1) (t + 1) (n - 1)"
      using True Cons.prems(2) by (simp add: safestrcpy_def safestrcpy_loop.simps [of m s t n] fun_upd_def)
    ultimately show ?thesis by simp
  qed
qed

lemma length_safestrcpy_bytes: "0 < n \<Longrightarrow> length (safestrcpy_bytes xs n) \<le> n"
  by (auto simp: safestrcpy_bytes_def)

lemma safestrcpy_bytes_split:
  "\<exists>cs. safestrcpy_bytes xs n = take (n - 1) xs @ 0 # cs"
  by (auto simp: safestrcpy_bytes_def)

lemma sint_byte_eq: "sint (a :: byte) = sint b \<longleftrightarrow> a = b" "sint a = 0 \<longleftrightarrow> a = 0"
  by (auto intro: signed_word_eqI)

lemma strchr_cstr:
  "cstr m p xs \<Longrightarrow>
   strchr m p (sint c) =
     Some (case findIndex (\<lambda>x. x = c) (xs @ [0]) of Some i \<Rightarrow> p + of_nat i | None \<Rightarrow> 0)"
proof (induction xs arbitrary: p)
  case Nil
  then show ?case by (simp add: strchr.simps [of m p] sint_byte_eq)
next
  case (Cons x xs)
  then show ?case
    by (auto simp: strchr.simps [of m p] sint_byte_eq add.assoc
        simp del: findIndex_None split: option.split)
qed

end
