(* ===== verification/Spinlock.thy ===== *)
theory Spinlock
  imports Prelude
begin

text \<open>
  Per-CPU state and spin locks (\<^verbatim>\<open>spinlock.c\<close>, \<^verbatim>\<open>spinlock.h\<close>, the CPU lookup of \<^verbatim>\<open>proc.c\<close>).

  The record \<open>hw\<close> is the part of the kernel state that every kernel thread shares: the flags
  register, the local APIC identifier of the executing processor, the table of processors and all
  spin locks, indexed by a datatype \<open>lockid\<close> that stands for their addresses.  Later components
  extend this record with their own globals, so the operations here apply to their states too.
  A lock operation runs on one processor; a lock held by another processor makes the acquiring one
  spin, which no step of the same processor can end, so the outcome is \<open>Hang\<close>.  The step relation
  \<open>lock_step\<close> at the end interleaves the atomic instructions of any number of processors on one lock.
  The debugging copy of the call stack (\<^verbatim>\<open>Pcs\<close>) is not part of the model.
\<close>

unbundle bit_operations_syntax

section \<open>Definitions\<close>

datatype lockid =
    KernelMemoryLock | ProcessTableLock | FileTableLock | TicksLock | ConsLock | IdeLock
  | DiskBufferCacheLock | PipeLock u32 | SleeplockSpinlock nat

record Spinlock =
  Locked :: u32
  LockName :: string
  Holder :: "nat option"

record Cpu =
  Apicid :: byte
  Started :: u32
  CliDepth :: int
  InterruptsEnabled :: u32
  CpuProcess :: "nat option"

record hw =
  eflags :: u32
  localApicId :: int
  cpus :: "Cpu list"
  ncpu :: nat
  locks :: "lockid \<Rightarrow> Spinlock"

definition readExtendedFlags :: "('a hw_scheme, u32) op" where
  "readExtendedFlags = getK eflags"

definition disableInterrupts :: "('a hw_scheme, unit) op" where
  "disableInterrupts = modifyK (\<lambda>s. s\<lparr>eflags := eflags s AND NOT FL_IF\<rparr>)"

definition enableInterrupts :: "('a hw_scheme, unit) op" where
  "enableInterrupts = modifyK (\<lambda>s. s\<lparr>eflags := eflags s OR FL_IF\<rparr>)"

definition cpu_index :: "'a hw_scheme \<Rightarrow> nat option" where
  "cpu_index s = findIndex (\<lambda>c. uint (Apicid c) = localApicId s) (take (ncpu s) (cpus s))"

definition myCpu :: "('a hw_scheme, nat) op" where
  "myCpu =
     bindK readExtendedFlags (\<lambda>fl.
     if fl AND FL_IF \<noteq> 0 then panicK (''myCpu called with interrupts enabled'' @ [CHR 0x0A])
     else bindK (getK cpu_index) (\<lambda>found.
     case found of Some i \<Rightarrow> returnK i | None \<Rightarrow> panicK (''unknown apicid'' @ [CHR 0x0A])))"

definition cpuId :: "('a hw_scheme, nat) op" where
  "cpuId = myCpu"

definition getCpu :: "nat \<Rightarrow> ('a hw_scheme, Cpu) op" where
  "getCpu i = getK (\<lambda>s. cpus s ! i)"

definition updCpu :: "nat \<Rightarrow> (Cpu \<Rightarrow> Cpu) \<Rightarrow> ('a hw_scheme, unit) op" where
  "updCpu i f = modifyK (\<lambda>s. s\<lparr>cpus := (cpus s)[i := f (cpus s ! i)]\<rparr>)"

text \<open>
  \<open>wrap\<close> is the arithmetic of the nesting counter, a C \<^verbatim>\<open>int\<close>: \<open>int32\<close> in \<open>pushCli32\<close> and \<open>popCli32\<close>.  The kernel's operations are
  stated with \<open>pushCli\<close> and \<open>popCli\<close>, whose counter does not wrap; they are the same as long as the counter stays in range
  (\<open>cli32_same\<close>).
\<close>

definition pushCliBy :: "(int \<Rightarrow> int) \<Rightarrow> ('a hw_scheme, unit) op" where
  "pushCliBy wrap =
     bindK readExtendedFlags (\<lambda>fl.
     bindK disableInterrupts (\<lambda>_.
     bindK myCpu (\<lambda>i.
     bindK (getCpu i) (\<lambda>c.
     bindK (whenK (CliDepth c = 0) (updCpu i (\<lambda>c. c\<lparr>InterruptsEnabled := fl AND FL_IF\<rparr>))) (\<lambda>_.
     updCpu i (\<lambda>c. c\<lparr>CliDepth := wrap (CliDepth c + 1)\<rparr>))))))"

definition popCliBy :: "(int \<Rightarrow> int) \<Rightarrow> ('a hw_scheme, unit) op" where
  "popCliBy wrap =
     bindK readExtendedFlags (\<lambda>fl.
     if fl AND FL_IF \<noteq> 0 then panicK ''popCli - interruptible''
     else bindK myCpu (\<lambda>i.
     bindK (updCpu i (\<lambda>c. c\<lparr>CliDepth := wrap (CliDepth c - 1)\<rparr>)) (\<lambda>_.
     bindK (getCpu i) (\<lambda>c.
     if CliDepth c < 0 then panicK ''popCli''
     else whenK (CliDepth c = 0 \<and> InterruptsEnabled c \<noteq> 0) enableInterrupts))))"

definition pushCli :: "('a hw_scheme, unit) op" where "pushCli = pushCliBy (\<lambda>n. n)"
definition popCli :: "('a hw_scheme, unit) op" where "popCli = popCliBy (\<lambda>n. n)"
definition pushCli32 :: "('a hw_scheme, unit) op" where "pushCli32 = pushCliBy int32"
definition popCli32 :: "('a hw_scheme, unit) op" where "popCli32 = popCliBy int32"

lemmas pushCli_unfold = pushCli_def pushCliBy_def
lemmas popCli_unfold = popCli_def popCliBy_def

definition spinlockInitialise :: "lockid \<Rightarrow> string \<Rightarrow> ('a hw_scheme, unit) op" where
  "spinlockInitialise l name =
     modifyK (\<lambda>s. s\<lparr>locks := (locks s)(l := \<lparr>Locked = 0, LockName = name, Holder = None\<rparr>)\<rparr>)"

definition updLock :: "lockid \<Rightarrow> (Spinlock \<Rightarrow> Spinlock) \<Rightarrow> ('a hw_scheme, unit) op" where
  "updLock l f = modifyK (\<lambda>s. s\<lparr>locks := (locks s)(l := f (locks s l))\<rparr>)"

definition isHolding :: "lockid \<Rightarrow> ('a hw_scheme, bool) op" where
  "isHolding l =
     bindK (getK (\<lambda>s. locks s l)) (\<lambda>lk.
     if Locked lk = 0 then returnK False
     else bindK myCpu (\<lambda>i. returnK (Holder lk = Some i)))"

text \<open>
  \<^verbatim>\<open>atomicExchange(&lk->Locked, 1)\<close>: the old value, with the lock word set.  The spinning loop of
  \<^verbatim>\<open>spinlockAcquire\<close> leaves at once when the old value is 0; otherwise the lock word stays 1 and the
  processor repeats the exchange without end.
\<close>

definition atomicExchangeLocked :: "lockid \<Rightarrow> ('a hw_scheme, u32) op" where
  "atomicExchangeLocked l =
     bindK (getK (\<lambda>s. Locked (locks s l))) (\<lambda>old.
     bindK (updLock l (\<lambda>lk. lk\<lparr>Locked := 1\<rparr>)) (\<lambda>_. returnK old))"

definition spinlockAcquire :: "lockid \<Rightarrow> ('a hw_scheme, unit) op" where
  "spinlockAcquire l =
     bindK pushCli (\<lambda>_.
     bindK (isHolding l) (\<lambda>holding.
     if holding then panicK ''spinlockAcquire''
     else bindK (atomicExchangeLocked l) (\<lambda>old.
     if old \<noteq> 0 then hangK
     else bindK myCpu (\<lambda>i. updLock l (\<lambda>lk. lk\<lparr>Holder := Some i\<rparr>)))))"

definition spinlockRelease :: "lockid \<Rightarrow> ('a hw_scheme, unit) op" where
  "spinlockRelease l =
     bindK (isHolding l) (\<lambda>holding.
     if \<not> holding then panicK ''spinlockRelease''
     else bindK (updLock l (\<lambda>lk. lk\<lparr>Holder := None\<rparr>)) (\<lambda>_.
     bindK (updLock l (\<lambda>lk. lk\<lparr>Locked := 0\<rparr>)) (\<lambda>_.
     popCli)))"

definition myProcess :: "('a hw_scheme, nat option) op" where
  "myProcess =
     bindK pushCli (\<lambda>_.
     bindK myCpu (\<lambda>i.
     bindK (getCpu i) (\<lambda>c.
     bindK popCli (\<lambda>_.
     returnK (CpuProcess c)))))"

section \<open>Interrupt flag and nesting depth\<close>

text \<open>
  \<open>cpu_ok i s\<close>: the executing processor has index \<open>i\<close> in the table, its nesting depth is not negative,
  and interrupts are off inside a nested section.  Every kernel thread runs in such a state.
  \<open>pushed\<close> and \<open>popped\<close> are the effects of the two operations, and \<open>resync i s\<close> is what a matched pair
  leaves behind: at depth 0 the saved interrupt state of the processor is brought up to date.
\<close>

definition cpu_ok :: "nat \<Rightarrow> 'a hw_scheme \<Rightarrow> bool" where
  "cpu_ok i s \<longleftrightarrow> cpu_index s = Some i \<and> 0 \<le> CliDepth (cpus s ! i) \<and>
     (0 < CliDepth (cpus s ! i) \<longrightarrow> eflags s AND FL_IF = 0)"

definition pushed :: "nat \<Rightarrow> 'a hw_scheme \<Rightarrow> 'a hw_scheme" where
  "pushed i s = s\<lparr>eflags := eflags s AND NOT FL_IF,
     cpus := (cpus s)[i := (cpus s ! i)\<lparr>
       InterruptsEnabled := (if CliDepth (cpus s ! i) = 0 then eflags s AND FL_IF
                             else InterruptsEnabled (cpus s ! i)),
       CliDepth := CliDepth (cpus s ! i) + 1\<rparr>]\<rparr>"

definition popped :: "nat \<Rightarrow> 'a hw_scheme \<Rightarrow> 'a hw_scheme" where
  "popped i s = s\<lparr>eflags := (if CliDepth (cpus s ! i) = 1 \<and> InterruptsEnabled (cpus s ! i) \<noteq> 0
                               then eflags s OR FL_IF else eflags s),
     cpus := (cpus s)[i := (cpus s ! i)\<lparr>CliDepth := CliDepth (cpus s ! i) - 1\<rparr>]\<rparr>"

definition resync :: "nat \<Rightarrow> 'a hw_scheme \<Rightarrow> 'a hw_scheme" where
  "resync i s =
     (if CliDepth (cpus s ! i) = 0
      then s\<lparr>cpus := (cpus s)[i := (cpus s ! i)\<lparr>InterruptsEnabled := eflags s AND FL_IF\<rparr>]\<rparr>
      else s)"

lemma FL_IF_exp: "FL_IF = 2 ^ 9"
  by (simp add: FL_IF_def)

lemma bit_FL_IF [bit_simps]: "bit FL_IF n \<longleftrightarrow> n = 9"
  unfolding FL_IF_exp by (auto simp only: bit_exp_iff possible_bit_word) simp_all

lemma and_FL_IF_zero: "e AND FL_IF = 0 \<longleftrightarrow> \<not> bit e 9"
  unfolding FL_IF_exp by (rule and_exp_eq_0_iff_not_bit)

lemma flags_disable [simp]: "(e AND NOT FL_IF) AND FL_IF = 0"
  by (simp add: and_FL_IF_zero bit_simps)

lemma FL_IF_nonzero [simp]: "FL_IF \<noteq> 0"
  by (simp add: FL_IF_def)

lemma flags_disable_same: "e AND FL_IF = 0 \<Longrightarrow> e AND NOT FL_IF = e"
  by (rule bit_word_eqI) (auto simp: and_FL_IF_zero bit_simps)

lemma flags_restore: "e AND FL_IF \<noteq> 0 \<Longrightarrow> e AND NOT FL_IF OR FL_IF = e"
  by (rule bit_word_eqI) (auto simp: and_FL_IF_zero bit_simps)

lemma cpu_index_bound: "cpu_index s = Some i \<Longrightarrow> i < length (cpus s)"
  using findIndex_bound by (fastforce simp: cpu_index_def)

lemma cpu_index_upd:
  assumes "cpu_index s = Some i" and "Apicid c = Apicid (cpus s ! i)"
    and "cpus t = (cpus s)[i := c]" and "ncpu t = ncpu s" and "localApicId t = localApicId s"
  shows "cpu_index t = Some i"
proof -
  let ?P = "\<lambda>c. uint (Apicid c) = localApicId s"
  from assms(1) have i: "i < length (take (ncpu s) (cpus s))" "?P (cpus s ! i)"
    "\<forall>j < i. \<not> ?P (cpus s ! j)"
    by (auto simp: cpu_index_def findIndex_Some)
  have "findIndex ?P (take (ncpu s) ((cpus s)[i := c])) = Some i"
    using i assms(2) by (auto simp: findIndex_Some nth_list_update)
  then show ?thesis
    using assms(3-5) by (simp add: cpu_index_def)
qed

lemma cpu_index_pushed [simp]: "cpu_index s = Some i \<Longrightarrow> cpu_index (pushed i s) = Some i"
  by (rule cpu_index_upd) (auto simp: pushed_def)

lemma cpu_index_popped [simp]: "cpu_index s = Some i \<Longrightarrow> cpu_index (popped i s) = Some i"
  by (rule cpu_index_upd) (auto simp: popped_def)

lemma cpu_index_resync [simp]:
  assumes "cpu_index s = Some i"
  shows "cpu_index (resync i s) = Some i"
proof (cases "CliDepth (cpus s ! i) = 0")
  case True
  show ?thesis
    by (rule cpu_index_upd
        [OF assms, of "(cpus s ! i)\<lparr>InterruptsEnabled := eflags s AND FL_IF\<rparr>"])
      (simp_all add: True resync_def)
qed (simp add: resync_def assms)

lemma cpu_index_locks [simp]: "cpu_index (s\<lparr>locks := L\<rparr>) = cpu_index s"
  by (simp add: cpu_index_def)

lemma cpu_index_eflags [simp]: "cpu_index (s\<lparr>eflags := e\<rparr>) = cpu_index s"
  by (simp add: cpu_index_def)

lemma myCpu_run [simp]: "eflags s AND FL_IF = 0 \<Longrightarrow> cpu_index s = Some i \<Longrightarrow> myCpu s = Ret i s"
  by (simp add: myCpu_def readExtendedFlags_def kmonad)

lemma pushCli_run:
  assumes "cpu_index s = Some i"
  shows "pushCli s = Ret () (pushed i s)"
proof -
  have i: "i < length (cpus s)" using assms by (rule cpu_index_bound)
  show ?thesis
    by (cases "CliDepth (cpus s ! i) = 0")
      (simp_all add: kmonad pushCli_unfold readExtendedFlags_def disableInterrupts_def getCpu_def updCpu_def
        pushed_def assms i)
qed

lemma popCli_run:
  assumes "cpu_index s = Some i" and "eflags s AND FL_IF = 0" and "0 < CliDepth (cpus s ! i)"
  shows "popCli s = Ret () (popped i s)"
proof -
  have i: "i < length (cpus s)" using assms(1) by (rule cpu_index_bound)
  show ?thesis
    using assms(2,3)
    by (auto simp: kmonad popCli_unfold readExtendedFlags_def enableInterrupts_def getCpu_def updCpu_def
        popped_def assms(1) i whenK_def)
qed

lemma cli32_same:
  assumes "cpu_index s = Some i"
  shows "- (2 ^ 31) \<le> CliDepth (cpus s ! i) + 1 \<Longrightarrow> CliDepth (cpus s ! i) + 1 < 2 ^ 31 \<Longrightarrow> pushCli32 s = pushCli s"
    "- (2 ^ 31) \<le> CliDepth (cpus s ! i) - 1 \<Longrightarrow> CliDepth (cpus s ! i) - 1 < 2 ^ 31 \<Longrightarrow> popCli32 s = popCli s"
proof -
  have i: "i < length (cpus s)" using assms by (rule cpu_index_bound)
  show "pushCli32 s = pushCli s" if "- (2 ^ 31) \<le> CliDepth (cpus s ! i) + 1" "CliDepth (cpus s ! i) + 1 < 2 ^ 31"
    using int32_id [OF that]
    by (cases "CliDepth (cpus s ! i) = 0") (simp_all add: kmonad pushCli32_def pushCli_unfold pushCliBy_def readExtendedFlags_def
      disableInterrupts_def getCpu_def updCpu_def assms i)
  show "popCli32 s = popCli s" if "- (2 ^ 31) \<le> CliDepth (cpus s ! i) - 1" "CliDepth (cpus s ! i) - 1 < 2 ^ 31"
    using int32_id [OF that]
    by (cases "eflags s AND FL_IF = 0") (simp_all add: kmonad popCli32_def popCli_unfold popCliBy_def readExtendedFlags_def
      getCpu_def updCpu_def assms i)
qed

lemma popped_pushed:
  assumes "cpu_ok i s"
  shows "popped i (pushed i s) = resync i s"
proof -
  have i: "i < length (cpus s)" using assms cpu_index_bound by (auto simp: cpu_ok_def)
  show ?thesis
    using assms i flags_restore [of "eflags s"] flags_disable_same [of "eflags s"]
    by (auto simp: popped_def pushed_def resync_def cpu_ok_def)
qed

section \<open>Locks on one processor\<close>

text \<open>
  \<open>lock_free l s\<close>: the lock is not held and records no holder.  \<open>acquired i l s\<close> is the state after
  processor \<open>i\<close> took it.  \<open>holds i l s\<close> is what the code between acquire and release relies on.
\<close>

definition lock_free :: "lockid \<Rightarrow> 'a hw_scheme \<Rightarrow> bool" where
  "lock_free l s \<longleftrightarrow> Locked (locks s l) = 0 \<and> Holder (locks s l) = None"

definition holds :: "nat \<Rightarrow> lockid \<Rightarrow> 'a hw_scheme \<Rightarrow> bool" where
  "holds i l s \<longleftrightarrow> Locked (locks s l) \<noteq> 0 \<and> Holder (locks s l) = Some i"

definition acquired :: "nat \<Rightarrow> lockid \<Rightarrow> 'a hw_scheme \<Rightarrow> 'a hw_scheme" where
  "acquired i l s = (pushed i s)\<lparr>locks := (locks s)(l := (locks s l)\<lparr>Locked := 1, Holder := Some i\<rparr>)\<rparr>"

definition released :: "nat \<Rightarrow> lockid \<Rightarrow> 'a hw_scheme \<Rightarrow> 'a hw_scheme" where
  "released i l s = (popped i s)\<lparr>locks := (locks s)(l := (locks s l)\<lparr>Holder := None, Locked := 0\<rparr>)\<rparr>"

lemma pushed_simps [simp]:
  "locks (pushed i s) = locks s" "ncpu (pushed i s) = ncpu s"
  "localApicId (pushed i s) = localApicId s" "eflags (pushed i s) AND FL_IF = 0"
  "length (cpus (pushed i s)) = length (cpus s)"
  "i < length (cpus s) \<Longrightarrow> CliDepth (cpus (pushed i s) ! i) = CliDepth (cpus s ! i) + 1"
  by (auto simp: pushed_def)

lemma isHolding_run:
  "eflags s AND FL_IF = 0 \<Longrightarrow> cpu_index s = Some i \<Longrightarrow> isHolding l s = Ret (holds i l s) s"
  by (simp add: kmonad isHolding_def holds_def)

lemma atomicExchangeLocked_run:
  "atomicExchangeLocked l s =
     Ret (Locked (locks s l)) (s\<lparr>locks := (locks s)(l := (locks s l)\<lparr>Locked := 1\<rparr>)\<rparr>)"
  by (simp add: kmonad atomicExchangeLocked_def updLock_def)

lemma spinlockAcquire_free:
  assumes "cpu_index s = Some i" and "lock_free l s"
  shows "spinlockAcquire l s = Ret () (acquired i l s)"
proof -
  have "isHolding l (pushed i s) = Ret False (pushed i s)"
    using assms by (simp add: isHolding_run holds_def lock_free_def)
  then show ?thesis
    using assms
    by (simp add: kmonad spinlockAcquire_def pushCli_run atomicExchangeLocked_run updLock_def acquired_def
        lock_free_def)
qed

lemma spinlockAcquire_self:
  assumes "cpu_index s = Some i" and "holds i l s"
  shows "spinlockAcquire l s = Panic ''spinlockAcquire''"
proof -
  have "isHolding l (pushed i s) = Ret True (pushed i s)"
    using assms by (simp add: isHolding_run holds_def)
  then show ?thesis
    using assms by (simp add: kmonad spinlockAcquire_def pushCli_run)
qed

lemma spinlockAcquire_other:
  assumes "cpu_index s = Some i" and "Locked (locks s l) \<noteq> 0" and "Holder (locks s l) \<noteq> Some i"
  shows "spinlockAcquire l s = Hang"
proof -
  have "isHolding l (pushed i s) = Ret False (pushed i s)"
    using assms by (simp add: isHolding_run holds_def)
  then show ?thesis
    using assms
    by (simp add: kmonad spinlockAcquire_def pushCli_run atomicExchangeLocked_run)
qed

lemma spinlockRelease_run:
  assumes "cpu_index s = Some i" and "holds i l s" and "eflags s AND FL_IF = 0"
    and "0 < CliDepth (cpus s ! i)"
  shows "spinlockRelease l s = Ret () (released i l s)"
proof -
  let ?t = "s\<lparr>locks := (locks s)(l := (locks s l)\<lparr>Holder := None, Locked := 0\<rparr>)\<rparr>"
  have "isHolding l s = Ret True s"
    using assms by (simp add: isHolding_run)
  moreover have "popCli ?t = Ret () (popped i ?t)"
    using assms by (intro popCli_run) simp_all
  ultimately show ?thesis
    by (simp add: kmonad spinlockRelease_def updLock_def released_def popped_def)
qed

lemma spinlockRelease_not_held:
  assumes "cpu_index s = Some i" and "\<not> holds i l s" and "eflags s AND FL_IF = 0"
  shows "spinlockRelease l s = Panic ''spinlockRelease''"
  using assms by (simp add: kmonad spinlockRelease_def isHolding_run)

lemma released_acquired:
  assumes "cpu_ok i s" and "lock_free l s"
  shows "released i l (acquired i l s) = resync i s"
proof -
  have "(locks s)(l := (locks s l)\<lparr>Holder := None, Locked := 0\<rparr>) = locks s"
    using assms(2) by (auto simp: lock_free_def)
  then have "released i l (acquired i l s) = (popped i (pushed i s))\<lparr>locks := locks s\<rparr>"
    by (simp add: released_def acquired_def popped_def)
  also have "\<dots> = resync i s"
    using assms(1) by (simp add: popped_pushed) (simp add: resync_def)
  finally show ?thesis .
qed

section \<open>Algebra of lock sections\<close>

text \<open>
  The equations below let the proofs of later components run code that takes and releases locks:
  each acquire or release of a lock in the expected state is a state transformer, and the
  transformers of matched sections cancel to \<open>resync\<close>.
\<close>

definition in_section :: "nat \<Rightarrow> 'a hw_scheme \<Rightarrow> bool" where
  "in_section i s \<longleftrightarrow> cpu_ok i s \<and> 0 < CliDepth (cpus s ! i)"

definition curproc :: "nat \<Rightarrow> 'a hw_scheme \<Rightarrow> nat option" where
  "curproc i s = CpuProcess (cpus s ! i)"

lemma cpu_ok_index: "cpu_ok i s \<Longrightarrow> cpu_index s = Some i"
  by (simp add: cpu_ok_def)

lemma cpu_ok_bound: "cpu_ok i s \<Longrightarrow> i < length (cpus s)"
  by (rule cpu_index_bound) (rule cpu_ok_index)

lemma cpu_ok_pushed [simp]: "cpu_ok i s \<Longrightarrow> cpu_ok i (pushed i s)"
  using cpu_ok_bound [of i s] by (simp add: cpu_ok_def)

lemma cpu_ok_locks [simp]: "cpu_ok i (s\<lparr>locks := L\<rparr>) = cpu_ok i s"
  by (simp add: cpu_ok_def)

lemma cpu_ok_acquired [simp]: "cpu_ok i s \<Longrightarrow> cpu_ok i (acquired i l s)"
  by (simp add: acquired_def)

lemma in_section_acquired [simp]: "cpu_ok i s \<Longrightarrow> in_section i (acquired i l s)"
  using cpu_ok_bound [of i s] by (simp add: in_section_def) (simp add: acquired_def cpu_ok_def)

lemma cpu_ok_resync [simp]: "cpu_ok i s \<Longrightarrow> cpu_ok i (resync i s)"
  using cpu_ok_bound [of i s] by (auto simp: cpu_ok_def) (auto simp: resync_def)

lemma lock_free_acquired [simp]: "l \<noteq> l' \<Longrightarrow> lock_free l (acquired i l' s) = lock_free l s"
  by (simp add: lock_free_def acquired_def)

lemma lock_free_released [simp]: "l \<noteq> l' \<Longrightarrow> lock_free l (released i l' s) = lock_free l s"
  by (simp add: lock_free_def released_def)

lemma lock_free_resync [simp]: "lock_free l (resync i s) = lock_free l s"
  by (simp add: lock_free_def resync_def)

lemma holds_acquired [simp]: "holds i l (acquired i l s)"
  by (simp add: holds_def acquired_def)

lemma holds_acquired_other [simp]: "l \<noteq> l' \<Longrightarrow> holds i l (acquired i l' s) = holds i l s"
  by (simp add: holds_def acquired_def)

lemma holds_released_other [simp]: "l \<noteq> l' \<Longrightarrow> holds i l (released i l' s) = holds i l s"
  by (simp add: holds_def released_def)

lemma holds_resync [simp]: "holds i l (resync i s) = holds i l s"
  by (simp add: holds_def resync_def)

lemma resync_section: "in_section i s \<Longrightarrow> resync i s = s"
  by (simp add: resync_def in_section_def)

lemma resync_acquired [simp]: "cpu_ok i s \<Longrightarrow> resync i (acquired i l s) = acquired i l s"
  by (simp add: resync_section)

lemma resync_idem [simp]: "cpu_ok i s \<Longrightarrow> resync i (resync i s) = resync i s"
  using cpu_ok_bound [of i s] by (auto simp: resync_def)

lemma acquired_resync [simp]: "cpu_ok i s \<Longrightarrow> acquired i l (resync i s) = acquired i l s"
  using cpu_ok_bound [of i s] by (auto simp: resync_def acquired_def pushed_def)

lemma released_acquired_inner [simp]:
  "cpu_ok i s \<Longrightarrow> lock_free l s \<Longrightarrow> released i l (acquired i l s) = resync i s"
  by (rule released_acquired)

lemma released_acquired_swap [simp]:
  assumes "cpu_ok i s" "lock_free l1 s" "l1 \<noteq> l2"
  shows "released i l1 (acquired i l2 (acquired i l1 s)) = acquired i l2 s"
proof -
  have l1: "(locks s l1)\<lparr>Holder := None, Locked := 0\<rparr> = locks s l1"
    using assms(2) by (simp add: lock_free_def)
  have "(locks s)(l1 := locks s l1, l2 := x) = (locks s)(l2 := x)" for x
    by simp
  with l1 show ?thesis
    using assms cpu_ok_bound [OF assms(1)]
    by (auto simp: released_def popped_def acquired_def pushed_def cpu_ok_def fun_upd_twist [of l2 l1]
        flags_disable_same add.commute)
qed

lemma curproc_acquired [simp]: "cpu_ok i s \<Longrightarrow> curproc i (acquired i l s) = curproc i s"
  using cpu_ok_bound [of i s] by (simp add: curproc_def acquired_def pushed_def)

lemma curproc_resync [simp]: "cpu_ok i s \<Longrightarrow> curproc i (resync i s) = curproc i s"
  using cpu_ok_bound [of i s] by (simp add: curproc_def resync_def)

lemma spinlockAcquire_ok:
  "cpu_ok i s \<Longrightarrow> lock_free l s \<Longrightarrow> spinlockAcquire l s = Ret () (acquired i l s)"
  by (intro spinlockAcquire_free cpu_ok_index)

lemma spinlockRelease_ok:
  "in_section i s \<Longrightarrow> holds i l s \<Longrightarrow> spinlockRelease l s = Ret () (released i l s)"
  by (intro spinlockRelease_run) (auto simp: in_section_def cpu_ok_def)

lemma myProcess_ok:
  assumes "cpu_ok i s"
  shows "myProcess s = Ret (curproc i s) (resync i s)"
proof -
  let ?t = "pushed i s"
  have i: "i < length (cpus s)" using assms by (rule cpu_ok_bound)
  have "pushCli s = Ret () ?t"
    using assms by (intro pushCli_run cpu_ok_index)
  moreover have "myCpu ?t = Ret i ?t"
    using assms by (intro myCpu_run) (simp_all add: cpu_ok_index)
  moreover have "popCli ?t = Ret () (resync i s)"
    using assms i popCli_run [of ?t i] by (simp add: cpu_ok_index popped_pushed) (simp add: cpu_ok_def)
  moreover have "CpuProcess (cpus ?t ! i) = curproc i s"
    using i by (simp add: pushed_def curproc_def)
  ultimately show ?thesis
    by (simp add: kmonad myProcess_def getCpu_def)
qed

lemma myCpu_ok: "in_section i s \<Longrightarrow> myCpu s = Ret i s"
  by (simp add: in_section_def cpu_ok_def)

section \<open>Fields of later components\<close>

text \<open>
  \<open>hw_field\<close> is what a field added by a later component satisfies: it is independent of the processor
  state and of the locks.  Every such field therefore passes unchanged through lock operations.
\<close>

locale hw_field =
  fixes sel :: "'a hw_scheme \<Rightarrow> 'f"
    and upd :: "('f \<Rightarrow> 'f) \<Rightarrow> 'a hw_scheme \<Rightarrow> 'a hw_scheme"
  assumes sel_eflags: "sel (s\<lparr>eflags := e\<rparr>) = sel s"
    and sel_cpus: "sel (s\<lparr>cpus := c\<rparr>) = sel s"
    and sel_locks: "sel (s\<lparr>locks := k\<rparr>) = sel s"
    and upd_eflags: "(upd g s)\<lparr>eflags := e\<rparr> = upd g (s\<lparr>eflags := e\<rparr>)"
    and upd_cpus: "(upd g s)\<lparr>cpus := c\<rparr> = upd g (s\<lparr>cpus := c\<rparr>)"
    and upd_locks: "(upd g s)\<lparr>locks := k\<rparr> = upd g (s\<lparr>locks := k\<rparr>)"
    and upd_sel: "eflags (upd g s) = eflags s" "cpus (upd g s) = cpus s" "locks (upd g s) = locks s"
      "ncpu (upd g s) = ncpu s" "localApicId (upd g s) = localApicId s"
begin

lemma sel_acquired [simp]: "sel (acquired i l s) = sel s"
  by (simp add: acquired_def pushed_def sel_eflags sel_cpus sel_locks)

lemma sel_released [simp]: "sel (released i l s) = sel s"
  by (simp add: released_def popped_def sel_eflags sel_cpus sel_locks)

lemma sel_resync [simp]: "sel (resync i s) = sel s"
  by (simp add: resync_def sel_cpus)

lemma acquired_upd [simp]: "acquired i l (upd g s) = upd g (acquired i l s)"
  by (simp add: acquired_def pushed_def upd_sel upd_eflags upd_cpus upd_locks)

lemma released_upd [simp]: "released i l (upd g s) = upd g (released i l s)"
  by (simp add: released_def popped_def upd_sel upd_eflags upd_cpus upd_locks)

lemma resync_upd [simp]: "resync i (upd g s) = upd g (resync i s)"
  by (simp add: resync_def upd_sel upd_cpus)

lemma cpu_index_upd_field [simp]: "cpu_index (upd g s) = cpu_index s"
  by (simp add: cpu_index_def upd_sel)

lemma cpu_ok_upd [simp]: "cpu_ok i (upd g s) = cpu_ok i s"
  by (simp add: cpu_ok_def upd_sel)

lemma in_section_upd [simp]: "in_section i (upd g s) = in_section i s"
  by (simp add: in_section_def upd_sel)

lemma lock_free_upd [simp]: "lock_free l (upd g s) = lock_free l s"
  by (simp add: lock_free_def upd_sel)

lemma holds_upd [simp]: "holds i l (upd g s) = holds i l s"
  by (simp add: holds_def upd_sel)

lemma curproc_upd [simp]: "curproc i (upd g s) = curproc i s"
  by (simp add: curproc_def upd_sel)

end

section \<open>Nested sections\<close>

datatype cli_op = Push | Pop

fun run_cli :: "cli_op list \<Rightarrow> ('a hw_scheme, unit) op" where
  "run_cli [] = returnK ()"
| "run_cli (Push # ops) = bindK pushCli32 (\<lambda>_. run_cli ops)"
| "run_cli (Pop # ops) = bindK popCli32 (\<lambda>_. run_cli ops)"

fun nested :: "nat \<Rightarrow> cli_op list \<Rightarrow> bool" where
  "nested h [] \<longleftrightarrow> h = 0"
| "nested h (Push # ops) \<longleftrightarrow> nested (Suc h) ops"
| "nested h (Pop # ops) \<longleftrightarrow> (case h of 0 \<Rightarrow> False | Suc k \<Rightarrow> nested k ops)"

fun highest :: "nat \<Rightarrow> cli_op list \<Rightarrow> nat" where
  "highest h [] = h"
| "highest h (Push # ops) = max h (highest (Suc h) ops)"
| "highest h (Pop # ops) = max h (highest (h - 1) ops)"

lemma highest_start: "h \<le> highest h ops"
  by (induction h ops rule: highest.induct) auto

definition nest_inv :: "nat \<Rightarrow> 'a hw_scheme \<Rightarrow> nat \<Rightarrow> 'a hw_scheme \<Rightarrow> bool" where
  "nest_inv i s h t \<longleftrightarrow> cpu_index t = Some i \<and>
     CliDepth (cpus t ! i) = CliDepth (cpus s ! i) + int h \<and>
     eflags t = (if h = 0 then eflags s else eflags s AND NOT FL_IF) \<and>
     (CliDepth (cpus s ! i) = 0 \<and> 0 < h \<longrightarrow> InterruptsEnabled (cpus t ! i) = eflags s AND FL_IF)"

lemma flags_disable_idem [simp]: "(e AND NOT FL_IF) AND NOT FL_IF = e AND NOT FL_IF"
  by (rule flags_disable_same) simp

lemma pushed_eflags: "eflags (pushed i s) = eflags s AND NOT FL_IF"
  by (simp add: pushed_def)

lemma pushed_InterruptsEnabled:
  "i < length (cpus s) \<Longrightarrow> InterruptsEnabled (cpus (pushed i s) ! i) =
     (if CliDepth (cpus s ! i) = 0 then eflags s AND FL_IF else InterruptsEnabled (cpus s ! i))"
  by (simp add: pushed_def)

lemma popped_cpu:
  "i < length (cpus s) \<Longrightarrow> CliDepth (cpus (popped i s) ! i) = CliDepth (cpus s ! i) - 1"
  "i < length (cpus s) \<Longrightarrow> InterruptsEnabled (cpus (popped i s) ! i) = InterruptsEnabled (cpus s ! i)"
  by (simp_all add: popped_def)

lemma popped_eflags:
  "eflags (popped i s) = (if CliDepth (cpus s ! i) = 1 \<and> InterruptsEnabled (cpus s ! i) \<noteq> 0
     then eflags s OR FL_IF else eflags s)"
  by (simp add: popped_def)

lemma nest_inv_push:
  assumes ok: "cpu_ok i s" and inv: "nest_inv i s h t"
  shows "nest_inv i s (Suc h) (pushed i t)"
proof -
  have t: "cpu_index t = Some i" "CliDepth (cpus t ! i) = CliDepth (cpus s ! i) + int h"
    and i: "i < length (cpus t)"
    using inv cpu_index_bound by (auto simp: nest_inv_def)
  show ?thesis
    using ok inv t(2)
    by (cases "h = 0")
      (simp_all add: nest_inv_def t(1) i pushed_eflags pushed_InterruptsEnabled cpu_ok_def)
qed

lemma nest_inv_pop:
  assumes ok: "cpu_ok i s" and inv: "nest_inv i s (Suc h) t"
  shows "nest_inv i s h (popped i t)"
proof -
  have t: "cpu_index t = Some i" "CliDepth (cpus t ! i) = CliDepth (cpus s ! i) + 1 + int h"
      "eflags t = eflags s AND NOT FL_IF"
      "CliDepth (cpus s ! i) = 0 \<Longrightarrow> InterruptsEnabled (cpus t ! i) = eflags s AND FL_IF"
    and i: "i < length (cpus t)"
    using inv cpu_index_bound by (auto simp: nest_inv_def)
  have s: "0 \<le> CliDepth (cpus s ! i)" "0 < CliDepth (cpus s ! i) \<Longrightarrow> eflags s AND FL_IF = 0"
    using ok by (simp_all add: cpu_ok_def)
  have "eflags (popped i t) = (if h = 0 then eflags s else eflags s AND NOT FL_IF)"
  proof (cases "CliDepth (cpus s ! i) = 0 \<and> h = 0")
    case True
    then show ?thesis
      using flags_restore [of "eflags s"] flags_disable_same [of "eflags s"]
      by (simp add: popped_eflags t)
  next
    case False
    with s t(2) have "CliDepth (cpus t ! i) \<noteq> 1" by auto
    then show ?thesis
      using s False by (cases "h = 0") (simp_all add: popped_eflags t(3) flags_disable_same)
  qed
  then show ?thesis
    by (simp add: nest_inv_def popped_cpu i t)
qed

lemma run_cli_nested:
  "cpu_ok i s \<Longrightarrow> nest_inv i s h t \<Longrightarrow> nested h ops \<Longrightarrow> CliDepth (cpus s ! i) + int (highest h ops) < 2 ^ 31 \<Longrightarrow>
   \<exists>u. run_cli ops t = Ret () u \<and> nest_inv i s 0 u"
proof (induction ops arbitrary: h t)
  case (Cons a ops)
  have t: "cpu_index t = Some i" "CliDepth (cpus t ! i) = CliDepth (cpus s ! i) + int h" "0 \<le> CliDepth (cpus s ! i)"
    using Cons.prems(1,2) by (simp_all add: nest_inv_def cpu_ok_def)
  show ?case
  proof (cases a)
    case Push
    have m: "CliDepth (cpus s ! i) + int (highest (Suc h) ops) < 2 ^ 31" using Cons.prems(4) Push by simp
    then have "CliDepth (cpus t ! i) + 1 < 2 ^ 31" using highest_start [of "Suc h" ops] t(2) by simp
    then have "pushCli32 t = Ret () (pushed i t)" using t by (simp add: cli32_same(1) [OF t(1)] pushCli_run)
    then show ?thesis
      using Cons.IH [OF Cons.prems(1) nest_inv_push [OF Cons.prems(1,2)]] Cons.prems(3) m Push
      by (simp add: kmonad)
  next
    case Pop
    then obtain k where k: "h = Suc k" "nested k ops"
      using Cons.prems(3) by (auto split: nat.splits)
    have m: "CliDepth (cpus s ! i) + int (highest k ops) < 2 ^ 31" "CliDepth (cpus s ! i) + int h < 2 ^ 31"
      using Cons.prems(4) Pop k(1) by simp_all
    have "popCli t = Ret () (popped i t)"
      using Cons.prems(1,2) k by (intro popCli_run) (auto simp: nest_inv_def cpu_ok_def)
    then have "popCli32 t = Ret () (popped i t)" using t m(2) k(1) by (simp add: cli32_same(2) [OF t(1)])
    then show ?thesis
      using Cons.IH [OF Cons.prems(1) nest_inv_pop] Cons.prems(1,2) k m(1) Pop
      by (simp add: kmonad)
  qed
qed auto

section \<open>Many processors and one lock\<close>

text \<open>
  The atomic instructions of \<^verbatim>\<open>spinlockAcquire\<close> and \<^verbatim>\<open>spinlockRelease\<close> of any number of processors,
  interleaved.  A processor is outside, spinning on the exchange, past a successful exchange but
  not yet recorded as holder (\<open>Won\<close>), inside the section, or past clearing the holder with the lock
  word still set (\<open>Leaving\<close>).  \<^verbatim>\<open>isHolding\<close> reads the lock word and then, when it is set, the holder: \<open>Checking\<close> and
  \<open>Releasing\<close> are between the two reads in acquire and release, and a check that fails is a step to \<open>Panicked\<close>.
  Processors outside call acquire and processors inside call release.
\<close>

datatype lock_pc = Outside | Checking | Spinning | Won | Inside | Releasing | Leaving | Panicked

record lock_sys =
  pcs :: "nat \<Rightarrow> lock_pc"
  lockWord :: Spinlock

definition is_holder :: "lock_sys \<Rightarrow> nat \<Rightarrow> bool" where
  "is_holder s i \<longleftrightarrow> Locked (lockWord s) \<noteq> 0 \<and> Holder (lockWord s) = Some i"

definition lock_init :: lock_sys where
  "lock_init = \<lparr>pcs = (\<lambda>_. Outside), lockWord = \<lparr>Locked = 0, LockName = [], Holder = None\<rparr>\<rparr>"

inductive lock_step :: "lock_sys \<Rightarrow> lock_sys \<Rightarrow> bool" where
  enter_free: "pcs s i = Outside \<Longrightarrow> Locked (lockWord s) = 0 \<Longrightarrow>
    lock_step s (s\<lparr>pcs := (pcs s)(i := Spinning)\<rparr>)"
| enter_taken: "pcs s i = Outside \<Longrightarrow> Locked (lockWord s) \<noteq> 0 \<Longrightarrow>
    lock_step s (s\<lparr>pcs := (pcs s)(i := Checking)\<rparr>)"
| enter: "pcs s i = Checking \<Longrightarrow> Holder (lockWord s) \<noteq> Some i \<Longrightarrow>
    lock_step s (s\<lparr>pcs := (pcs s)(i := Spinning)\<rparr>)"
| enter_panic: "pcs s i = Checking \<Longrightarrow> Holder (lockWord s) = Some i \<Longrightarrow>
    lock_step s (s\<lparr>pcs := (pcs s)(i := Panicked)\<rparr>)"
| spin: "pcs s i = Spinning \<Longrightarrow> Locked (lockWord s) \<noteq> 0 \<Longrightarrow>
    lock_step s (s\<lparr>lockWord := (lockWord s)\<lparr>Locked := 1\<rparr>\<rparr>)"
| win: "pcs s i = Spinning \<Longrightarrow> Locked (lockWord s) = 0 \<Longrightarrow>
    lock_step s (s\<lparr>pcs := (pcs s)(i := Won), lockWord := (lockWord s)\<lparr>Locked := 1\<rparr>\<rparr>)"
| record_holder: "pcs s i = Won \<Longrightarrow>
    lock_step s (s\<lparr>pcs := (pcs s)(i := Inside), lockWord := (lockWord s)\<lparr>Holder := Some i\<rparr>\<rparr>)"
| leave_free_panic: "pcs s i = Inside \<Longrightarrow> Locked (lockWord s) = 0 \<Longrightarrow>
    lock_step s (s\<lparr>pcs := (pcs s)(i := Panicked)\<rparr>)"
| leave_taken: "pcs s i = Inside \<Longrightarrow> Locked (lockWord s) \<noteq> 0 \<Longrightarrow>
    lock_step s (s\<lparr>pcs := (pcs s)(i := Releasing)\<rparr>)"
| leave_panic: "pcs s i = Releasing \<Longrightarrow> Holder (lockWord s) \<noteq> Some i \<Longrightarrow>
    lock_step s (s\<lparr>pcs := (pcs s)(i := Panicked)\<rparr>)"
| clear_holder: "pcs s i = Releasing \<Longrightarrow> Holder (lockWord s) = Some i \<Longrightarrow>
    lock_step s (s\<lparr>pcs := (pcs s)(i := Leaving), lockWord := (lockWord s)\<lparr>Holder := None\<rparr>\<rparr>)"
| leave: "pcs s i = Leaving \<Longrightarrow>
    lock_step s (s\<lparr>pcs := (pcs s)(i := Outside), lockWord := (lockWord s)\<lparr>Locked := 0\<rparr>\<rparr>)"

inductive lock_reachable :: "lock_sys \<Rightarrow> bool" where
  start: "lock_reachable lock_init"
| step: "lock_reachable s \<Longrightarrow> lock_step s t \<Longrightarrow> lock_reachable t"

definition in_lock :: "lock_pc \<Rightarrow> bool" where
  "in_lock p \<longleftrightarrow> p = Won \<or> p = Inside \<or> p = Releasing \<or> p = Leaving"

definition waiting :: "lock_pc \<Rightarrow> bool" where
  "waiting p \<longleftrightarrow> p = Outside \<or> p = Checking \<or> p = Spinning"

text \<open>The processor has recorded itself and not yet taken its name off the lock.\<close>

definition recorded :: "lock_pc \<Rightarrow> bool" where
  "recorded p \<longleftrightarrow> p = Inside \<or> p = Releasing"

definition unowned :: "lock_sys \<Rightarrow> bool" where
  "unowned s \<longleftrightarrow> Locked (lockWord s) = 0 \<and> Holder (lockWord s) = None \<and> (\<forall>i. waiting (pcs s i))"

definition owned_by :: "nat \<Rightarrow> lock_sys \<Rightarrow> bool" where
  "owned_by j s \<longleftrightarrow> Locked (lockWord s) = 1 \<and> in_lock (pcs s j) \<and>
     Holder (lockWord s) = (if recorded (pcs s j) then Some j else None) \<and>
     (\<forall>i. i \<noteq> j \<longrightarrow> waiting (pcs s i))"

definition lock_inv :: "lock_sys \<Rightarrow> bool" where
  "lock_inv s \<longleftrightarrow> unowned s \<or> (\<exists>j. owned_by j s)"

lemma lock_inv_init: "lock_inv lock_init"
  by (simp add: lock_inv_def lock_init_def unowned_def waiting_def)

lemma unowned_pc: "unowned s \<Longrightarrow> pcs s i \<noteq> Won \<and> pcs s i \<noteq> Inside \<and> pcs s i \<noteq> Releasing \<and> pcs s i \<noteq> Leaving"
  by (auto simp: unowned_def waiting_def dest!: spec [of _ i])

lemma unowned_step:
  assumes "lock_step s t" and "unowned s"
  shows "lock_inv t"
  using assms
proof cases
  case (win i)
  then have "owned_by i t"
    using assms(2) by (simp add: unowned_def owned_by_def in_lock_def recorded_def)
  then show ?thesis by (auto simp: lock_inv_def)
next
  case (enter_free i)
  then have "unowned t"
    using assms(2) by (simp add: unowned_def waiting_def)
  then show ?thesis by (simp add: lock_inv_def)
next
  case (enter i)
  then have "unowned t"
    using assms(2) by (simp add: unowned_def waiting_def)
  then show ?thesis by (simp add: lock_inv_def)
qed (use assms(2) unowned_pc [OF assms(2)] in \<open>simp_all add: unowned_def\<close>)

lemma owned_at:
  "owned_by j s \<Longrightarrow> pcs s i = Won \<or> pcs s i = Inside \<or> pcs s i = Releasing \<or> pcs s i = Leaving \<Longrightarrow> i = j"
  by (auto simp: owned_by_def waiting_def)

lemma owned_waiting: "owned_by j s \<Longrightarrow> waiting (pcs s i) \<Longrightarrow> i \<noteq> j"
  by (auto simp: owned_by_def waiting_def in_lock_def)

lemma owned_step:
  assumes "lock_step s t" and own: "owned_by j s"
  shows "lock_inv t"
  using assms(1)
proof cases
  case (enter_taken i)
  then have "owned_by j t"
    using own owned_waiting [OF own, of i] by (simp add: owned_by_def waiting_def)
  then show ?thesis by (auto simp: lock_inv_def)
next
  case (enter i)
  then have "owned_by j t"
    using own owned_waiting [OF own, of i] by (simp add: owned_by_def waiting_def)
  then show ?thesis by (auto simp: lock_inv_def)
next
  case (enter_panic i)
  then show ?thesis
    using own owned_waiting [OF own, of i]
    by (simp add: owned_by_def waiting_def split: if_splits)
next
  case (spin i)
  then have "owned_by j t" using own by (simp add: owned_by_def)
  then show ?thesis by (auto simp: lock_inv_def)
next
  case (record_holder i)
  then have "owned_by j t"
    using own owned_at [OF own, of i] by (simp add: owned_by_def in_lock_def recorded_def)
  then show ?thesis by (auto simp: lock_inv_def)
next
  case (leave_taken i)
  then have "owned_by j t"
    using own owned_at [OF own, of i] by (simp add: owned_by_def in_lock_def recorded_def)
  then show ?thesis by (auto simp: lock_inv_def)
next
  case (clear_holder i)
  then have "owned_by j t"
    using own owned_at [OF own, of i] by (simp add: owned_by_def in_lock_def recorded_def)
  then show ?thesis by (auto simp: lock_inv_def)
next
  case (leave_panic i)
  then show ?thesis
    using own owned_at [OF own, of i] by (simp add: owned_by_def recorded_def)
next
  case (leave i)
  then have "unowned t"
    using own owned_at [OF own, of i] by (simp add: unowned_def owned_by_def waiting_def recorded_def)
  then show ?thesis by (simp add: lock_inv_def)
qed (use own in \<open>simp_all add: owned_by_def\<close>)

lemma lock_step_inv: "lock_step s t \<Longrightarrow> lock_inv s \<Longrightarrow> lock_inv t"
  by (auto simp: lock_inv_def [of s] intro: unowned_step owned_step)

lemma lock_reachable_inv: "lock_reachable s \<Longrightarrow> lock_inv s"
  by (induction rule: lock_reachable.induct) (auto intro: lock_inv_init lock_step_inv)

lemma owned_in_lock: "owned_by k s \<Longrightarrow> in_lock (pcs s x) \<longleftrightarrow> x = k"
  by (cases "x = k") (auto simp: owned_by_def in_lock_def waiting_def)

lemma owned_holder: "owned_by k s \<Longrightarrow> is_holder s x \<longleftrightarrow> recorded (pcs s x)"
  by (cases "x = k") (auto simp: owned_by_def is_holder_def waiting_def recorded_def)

lemma owned_no_panic: "owned_by k s \<Longrightarrow> pcs s x \<noteq> Panicked"
  by (cases "x = k") (auto simp: owned_by_def in_lock_def waiting_def)

text \<open>
  The sequential model of the two operations refines the interleaved one: a call that returns is a
  run of the processor's own steps.
\<close>

lemma acquire_steps:
  assumes "pcs c i = Outside" and "Locked (lockWord c) = 0"
  shows "lock_step\<^sup>*\<^sup>* c (c\<lparr>pcs := (pcs c)(i := Inside),
    lockWord := (lockWord c)\<lparr>Locked := 1, Holder := Some i\<rparr>\<rparr>)"
proof -
  let ?c1 = "c\<lparr>pcs := (pcs c)(i := Spinning)\<rparr>"
  let ?c2 = "c\<lparr>pcs := (pcs c)(i := Won), lockWord := (lockWord c)\<lparr>Locked := 1\<rparr>\<rparr>"
  let ?c3 = "c\<lparr>pcs := (pcs c)(i := Inside), lockWord := (lockWord c)\<lparr>Locked := 1, Holder := Some i\<rparr>\<rparr>"
  have "lock_step c ?c1"
    using assms by (intro lock_step.enter_free)
  moreover have "lock_step ?c1 ?c2"
    using assms lock_step.win [of ?c1 i] by simp
  moreover have "lock_step ?c2 ?c3"
    using lock_step.record_holder [of ?c2 i] by simp
  ultimately show ?thesis by (meson rtranclp.rtrancl_refl rtranclp.rtrancl_into_rtrancl)
qed

lemma release_steps:
  assumes "pcs c i = Inside" and "is_holder c i"
  shows "lock_step\<^sup>*\<^sup>* c (c\<lparr>pcs := (pcs c)(i := Outside),
    lockWord := (lockWord c)\<lparr>Holder := None, Locked := 0\<rparr>\<rparr>)"
proof -
  let ?c0 = "c\<lparr>pcs := (pcs c)(i := Releasing)\<rparr>"
  let ?c1 = "c\<lparr>pcs := (pcs c)(i := Leaving), lockWord := (lockWord c)\<lparr>Holder := None\<rparr>\<rparr>"
  let ?c2 = "c\<lparr>pcs := (pcs c)(i := Outside), lockWord := (lockWord c)\<lparr>Holder := None, Locked := 0\<rparr>\<rparr>"
  have "lock_step c ?c0"
    using assms by (intro lock_step.leave_taken) (simp_all add: is_holder_def)
  moreover have "lock_step ?c0 ?c1"
    using assms lock_step.clear_holder [of ?c0 i] by (simp add: is_holder_def)
  moreover have "lock_step ?c1 ?c2"
    using lock_step.leave [of ?c1 i] by simp
  ultimately show ?thesis by (meson rtranclp.rtrancl_refl rtranclp.rtrancl_into_rtrancl)
qed

lemma lock_reachable_steps: "lock_step\<^sup>*\<^sup>* s t \<Longrightarrow> lock_reachable s \<Longrightarrow> lock_reachable t"
  by (induction rule: rtranclp_induct) (auto intro: lock_reachable.step)

section \<open>Properties\<close>

text \<open>A processor as \<^verbatim>\<open>mpinit\<close> leaves the boot processor, an unlocked lock, and a machine made of them.\<close>

definition boot_cpu :: Cpu where
  "boot_cpu = \<lparr>Apicid = 0, Started = 1, CliDepth = 0, InterruptsEnabled = 0, CpuProcess = None\<rparr>"

definition unlocked :: Spinlock where
  "unlocked = \<lparr>Locked = 0, LockName = [], Holder = None\<rparr>"

definition boot_hw :: hw where
  "boot_hw = \<lparr>eflags = FL_IF, localApicId = 0, cpus = [boot_cpu], ncpu = 1, locks = (\<lambda>_. unlocked)\<rparr>"

lemma boot_cpu_ok:
  "cpus s = [boot_cpu] \<Longrightarrow> ncpu s = 1 \<Longrightarrow> localApicId s = 0 \<Longrightarrow> cpu_ok 0 s"
  by (simp add: cpu_ok_def cpu_index_def boot_cpu_def)

lemma boot_lock_free: "locks s = (\<lambda>_. unlocked) \<Longrightarrow> lock_free l s"
  by (simp add: lock_free_def unlocked_def)

text \<open>
  C1: mutual exclusion.  However the atomic steps of acquire and release of any number of processors
  interleave, at most one processor is between a successful exchange and the store that frees the
  lock, the recorded holder is exactly the processor inside the section, up to the store of release that
  clears it, and neither the re-acquire check nor the release check ever panics.
\<close>

theorem spinlock_mutual_exclusion:
  assumes "lock_reachable s"
  shows "(in_lock (pcs s i) \<longrightarrow> in_lock (pcs s j) \<longrightarrow> i = j) \<and>
    (recorded (pcs s i) \<longleftrightarrow> is_holder s i) \<and> pcs s i \<noteq> Panicked"
proof -
  consider "unowned s" | k where "owned_by k s"
    using lock_reachable_inv [OF assms] by (auto simp: lock_inv_def)
  then show ?thesis
  proof cases
    case 1
    then have "waiting (pcs s i)" "\<not> is_holder s i"
      by (simp_all add: unowned_def is_holder_def)
    then show ?thesis by (auto simp: waiting_def in_lock_def recorded_def)
  qed (simp add: owned_in_lock owned_holder owned_no_panic)
qed

theorem spinlock_mutual_exclusion_witness:
  "\<exists>s. lock_reachable s \<and> pcs s 0 = Inside \<and> is_holder s 0 \<and> \<not> in_lock (pcs s 1)"
proof -
  let ?s = "lock_init\<lparr>pcs := (pcs lock_init)(0 := Inside),
    lockWord := (lockWord lock_init)\<lparr>Locked := 1, Holder := Some 0\<rparr>\<rparr>"
  have "lock_step\<^sup>*\<^sup>* lock_init ?s"
    by (rule acquire_steps) (simp_all add: lock_init_def)
  then have "lock_reachable ?s"
    by (rule lock_reachable_steps) (rule lock_reachable.start)
  then show ?thesis
    using spinlock_mutual_exclusion [of ?s 0 1] by (intro exI [of _ ?s]) (auto simp: in_lock_def recorded_def)
qed

text \<open>
  C22: nested \<^verbatim>\<open>pushCli\<close>/\<^verbatim>\<open>popCli\<close> with a 32-bit counter.  Every well-nested sequence of the two operations whose deepest
  level, on top of the depth at the start, fits a C \<^verbatim>\<open>int\<close> runs without panic and leaves the interrupt flag and the nesting depth as
  they were.
\<close>

theorem nested_cli_restores:
  assumes "cpu_ok i s" and "nested 0 ops" and "CliDepth (cpus s ! i) + int (highest 0 ops) < 2 ^ 31"
  shows "\<exists>t. run_cli ops s = Ret () t \<and> eflags t = eflags s \<and>
    CliDepth (cpus t ! i) = CliDepth (cpus s ! i)"
proof -
  have "nest_inv i s 0 s" using assms(1) by (simp add: nest_inv_def cpu_ok_def)
  from run_cli_nested [OF assms(1) this assms(2,3)] show ?thesis by (auto simp: nest_inv_def)
qed

theorem nested_cli_restores_witness:
  "\<exists>t. run_cli [Push, Push, Pop, Push, Pop, Pop] boot_hw = Ret () t \<and> eflags t = FL_IF \<and>
     CliDepth (cpus t ! 0) = 0"
  using nested_cli_restores [of 0 boot_hw "[Push, Push, Pop, Push, Pop, Pop]"]
  by (simp add: boot_cpu_ok boot_hw_def) (simp add: boot_cpu_def)

text \<open>
  C23: the calls refine the interleaved steps.  On processor \<open>i\<close>, \<^verbatim>\<open>spinlockAcquire\<close> of a free lock and
  \<^verbatim>\<open>spinlockRelease\<close> of the lock it then holds return, and each call's effect on the lock is a run of
  the steps of processor \<open>i\<close> in the many-processor system.
\<close>

theorem spinlock_calls_refine_steps:
  assumes "cpu_ok i s" and "lock_free l s" and "lockWord c = locks s l" and "pcs c i = Outside"
  shows "\<exists>t c' u c''. spinlockAcquire l s = Ret () t \<and> holds i l t \<and> eflags t AND FL_IF = 0 \<and>
    lock_step\<^sup>*\<^sup>* c c' \<and> lockWord c' = locks t l \<and> pcs c' = (pcs c)(i := Inside) \<and>
    spinlockRelease l t = Ret () u \<and> eflags u = eflags s \<and>
    lock_step\<^sup>*\<^sup>* c' c'' \<and> lockWord c'' = locks u l \<and> pcs c'' = pcs c"
proof -
  let ?c' = "c\<lparr>pcs := (pcs c)(i := Inside), lockWord := (lockWord c)\<lparr>Locked := 1, Holder := Some i\<rparr>\<rparr>"
  let ?c'' = "?c'\<lparr>pcs := (pcs ?c')(i := Outside), lockWord := (lockWord ?c')\<lparr>Holder := None, Locked := 0\<rparr>\<rparr>"
  have "lock_step\<^sup>*\<^sup>* c ?c'"
    using assms by (intro acquire_steps) (simp_all add: lock_free_def)
  moreover have "lock_step\<^sup>*\<^sup>* ?c' ?c''"
    by (intro release_steps) (simp_all add: is_holder_def)
  moreover have "lockWord ?c' = locks (acquired i l s) l" "lockWord ?c'' = locks (resync i s) l"
    using assms by (simp_all add: acquired_def resync_def lock_free_def)
  moreover have "pcs ?c'' = pcs c" using assms(4) by auto
  moreover have "eflags (acquired i l s) AND FL_IF = 0" "eflags (resync i s) = eflags s"
    by (simp_all add: acquired_def resync_def)
  moreover have "spinlockRelease l (acquired i l s) = Ret () (resync i s)"
    using assms(1,2) by (simp add: spinlockRelease_ok [of i])
  ultimately show ?thesis
    using assms(1,2)
    by (intro exI [of _ "acquired i l s"] exI [of _ ?c'] exI [of _ "resync i s"] exI [of _ ?c''])
      (simp add: spinlockAcquire_ok)
qed

theorem spinlock_calls_refine_steps_witness:
  "\<exists>t c' u c''. spinlockAcquire ConsLock boot_hw = Ret () t \<and> holds 0 ConsLock t \<and> eflags t AND FL_IF = 0 \<and>
    lock_step\<^sup>*\<^sup>* lock_init c' \<and> lockWord c' = locks t ConsLock \<and> pcs c' = (pcs lock_init)(0 := Inside) \<and>
    spinlockRelease ConsLock t = Ret () u \<and> eflags u = eflags boot_hw \<and>
    lock_step\<^sup>*\<^sup>* c' c'' \<and> lockWord c'' = locks u ConsLock \<and> pcs c'' = pcs lock_init"
  by (rule spinlock_calls_refine_steps)
    (simp_all add: boot_cpu_ok boot_lock_free boot_hw_def lock_init_def unlocked_def)

end
