(* ===== verification/Kalloc.thy ===== *)
theory Kalloc
  imports CString Spinlock
begin

text \<open>
  The physical page allocator (\<^verbatim>\<open>kalloc.c\<close>).  The state extends \<open>hw\<close> with the kernel's view of memory,
  the globals of \<^verbatim>\<open>kernelMemory\<close> and the linker symbol \<^verbatim>\<open>kernelEnd\<close>.  The free list is the linked list
  that the code threads through the free pages themselves: the first word of a free page is the
  address of the next one.
\<close>

unbundle bit_operations_syntax

section \<open>Definitions\<close>

record kalloc = hw +
  mem :: memory
  FreeList :: u32
  UseLock :: int
  kernelEnd :: u32

definition freePhysicalMemoryPage :: "u32 \<Rightarrow> ('a kalloc_scheme, unit) op" where
  "freePhysicalMemoryPage v =
     bindK (getK kernelEnd) (\<lambda>kend.
     if v mod PGSIZE \<noteq> 0 \<or> v < kend \<or> V2P v \<ge> PHYSTOP then panicK ''freePhysicalMemoryPage''
     else bindK (modifyK (\<lambda>s. s\<lparr>mem := memset (mem s) v 1 PGSIZE\<rparr>)) (\<lambda>_.
     bindK (getK UseLock) (\<lambda>ul.
     bindK (whenK (ul \<noteq> 0) (spinlockAcquire KernelMemoryLock)) (\<lambda>_.
     bindK (modifyK (\<lambda>s. s\<lparr>mem := store32 (mem s) v (FreeList s)\<rparr>)) (\<lambda>_.
     bindK (modifyK (\<lambda>s. s\<lparr>FreeList := v\<rparr>)) (\<lambda>_.
     whenK (ul \<noteq> 0) (spinlockRelease KernelMemoryLock)))))))"

definition allocatePhysicalMemoryPage :: "('a kalloc_scheme, u32) op" where
  "allocatePhysicalMemoryPage =
     bindK (getK UseLock) (\<lambda>ul.
     bindK (whenK (ul \<noteq> 0) (spinlockAcquire KernelMemoryLock)) (\<lambda>_.
     bindK (getK FreeList) (\<lambda>r.
     bindK (whenK (r \<noteq> 0) (modifyK (\<lambda>s. s\<lparr>FreeList := load32 (mem s) r\<rparr>))) (\<lambda>_.
     bindK (whenK (ul \<noteq> 0) (spinlockRelease KernelMemoryLock)) (\<lambda>_.
     returnK r)))))"

lemma freePhysicalMemoryPage_checked:
  assumes "freePhysicalMemoryPage v s = Ret a t"
  shows "v mod PGSIZE = 0 \<and> kernelEnd s \<le> v \<and> V2P v < PHYSTOP"
  using assms by (auto simp: freePhysicalMemoryPage_def kmonad split: if_splits)

lemma V2P_range: "V2P v < PHYSTOP \<longleftrightarrow> 0x80000000 \<le> unat v \<and> unat v < 0x8E000000"
  unfolding V2P_def word_less_unat const_defs by (auto simp: unat_sub_if_size word_size)

text \<open>
  \<^verbatim>\<open>freeMemoryRange\<close> advances by whole pages with 32-bit wrap-around.  It terminates for every range: a
  page below \<^verbatim>\<open>KERNBASE\<close> or beyond \<^verbatim>\<open>PHYSTOP\<close> makes \<^verbatim>\<open>freePhysicalMemoryPage\<close> panic, so the pointer never
  reaches the top of the address space.
\<close>

function freeMemoryRange_loop :: "u32 \<Rightarrow> u32 \<Rightarrow> ('a kalloc_scheme, unit) op" where
  "freeMemoryRange_loop p vend s =
     (if p + PGSIZE \<le> vend
      then bindK (freePhysicalMemoryPage p) (\<lambda>_. freeMemoryRange_loop (p + PGSIZE) vend) s
      else Ret () s)"
  by pat_completeness auto
termination
proof (relation "measure (\<lambda>(p, vend, s). 2 ^ 32 - unat p)")
  fix p vend :: u32 and s t :: "'a kalloc_scheme" and a
  assume "freePhysicalMemoryPage p s = Ret a t"
  then have "unat p < 0x8E000000"
    using freePhysicalMemoryPage_checked V2P_range by blast
  moreover from this have "unat (p + PGSIZE) = unat p + 4096"
    unfolding PGSIZE_def by (subst unat_add_u32) simp_all
  ultimately show "((p + PGSIZE, vend, t), p, vend, s) \<in> measure (\<lambda>(p, vend, s). 2 ^ 32 - unat p)"
    by simp
qed simp

declare freeMemoryRange_loop.simps [simp del]

definition freeMemoryRange :: "u32 \<Rightarrow> u32 \<Rightarrow> ('a kalloc_scheme, unit) op" where
  "freeMemoryRange vstart vend = freeMemoryRange_loop (PGROUNDUP vstart) vend"

definition initialiseLowerkernelMemory :: "u32 \<Rightarrow> u32 \<Rightarrow> ('a kalloc_scheme, unit) op" where
  "initialiseLowerkernelMemory vstart vend =
     bindK (spinlockInitialise KernelMemoryLock ''kernelMemory'') (\<lambda>_.
     bindK (modifyK (\<lambda>s. s\<lparr>UseLock := 0\<rparr>)) (\<lambda>_.
     freeMemoryRange vstart vend))"

definition initialiseRestOfkernelMemory :: "u32 \<Rightarrow> u32 \<Rightarrow> ('a kalloc_scheme, unit) op" where
  "initialiseRestOfkernelMemory vstart vend =
     bindK (freeMemoryRange vstart vend) (\<lambda>_.
     modifyK (\<lambda>s. s\<lparr>UseLock := 1\<rparr>))"

interpretation mem_field: hw_field mem mem_update by unfold_locales simp_all
interpretation FreeList_field: hw_field FreeList FreeList_update by unfold_locales simp_all
interpretation UseLock_field: hw_field UseLock UseLock_update by unfold_locales simp_all
interpretation kernelEnd_field: hw_field kernelEnd kernelEnd_update by unfold_locales simp_all

section \<open>One call\<close>

definition page_ok :: "u32 \<Rightarrow> u32 \<Rightarrow> bool" where
  "page_ok kend v \<longleftrightarrow> page_aligned v \<and> kend \<le> v \<and> V2P v < PHYSTOP"

text \<open>
  \<open>kmem_ready i s\<close>: the allocator can be called on processor \<open>i\<close>, either before locking is switched on or
  with its lock free.  \<open>kmem_sync\<close> is the trace a locked call leaves in the processor's state.
\<close>

definition kmem_ready :: "nat \<Rightarrow> 'a kalloc_scheme \<Rightarrow> bool" where
  "kmem_ready i s \<longleftrightarrow> UseLock s = 0 \<or> cpu_ok i s \<and> lock_free KernelMemoryLock s"

definition kmem_sync :: "nat \<Rightarrow> 'a kalloc_scheme \<Rightarrow> 'a kalloc_scheme" where
  "kmem_sync i s = (if UseLock s = 0 then s else resync i s)"

lemma kmem_sync_simps [simp]:
  "mem (kmem_sync i s) = mem s" "FreeList (kmem_sync i s) = FreeList s"
  "UseLock (kmem_sync i s) = UseLock s" "kernelEnd (kmem_sync i s) = kernelEnd s"
  by (simp_all add: kmem_sync_def)

lemma kmem_ready_sync [simp]: "kmem_ready i s \<Longrightarrow> kmem_ready i (kmem_sync i s)"
  by (auto simp: kmem_ready_def kmem_sync_def)

lemma kmem_ready_upd [simp]:
  "kmem_ready i (s\<lparr>mem := m\<rparr>) = kmem_ready i s" "kmem_ready i (s\<lparr>FreeList := f\<rparr>) = kmem_ready i s"
  by (simp_all add: kmem_ready_def)

lemma freePhysicalMemoryPage_run:
  assumes "kmem_ready i s" and "page_ok (kernelEnd s) v"
  shows "freePhysicalMemoryPage v s =
    Ret () ((kmem_sync i s)\<lparr>mem := store32 (memset (mem s) v 1 PGSIZE) v (FreeList s), FreeList := v\<rparr>)"
  using assms
  by (cases "UseLock s = 0")
    (auto simp: freePhysicalMemoryPage_def kmonad page_ok_def page_aligned_def kmem_ready_def kmem_sync_def
      spinlockAcquire_ok [of i] spinlockRelease_ok [of i])

lemma freePhysicalMemoryPage_bad:
  assumes "\<not> page_ok (kernelEnd s) v"
  shows "freePhysicalMemoryPage v s = Panic ''freePhysicalMemoryPage''"
proof -
  have "v mod PGSIZE \<noteq> 0 \<or> v < kernelEnd s \<or> V2P v \<ge> PHYSTOP"
    using assms unfolding page_ok_def page_aligned_def by (meson not_le)
  then show ?thesis
    unfolding freePhysicalMemoryPage_def bindK_run getK_run outcome.case by (simp only: if_True panicK_run)
qed

lemma allocatePhysicalMemoryPage_run:
  assumes "kmem_ready i s"
  shows "allocatePhysicalMemoryPage s =
    Ret (FreeList s) (if FreeList s = 0 then kmem_sync i s
                      else (kmem_sync i s)\<lparr>FreeList := load32 (mem s) (FreeList s)\<rparr>)"
  using assms
  by (cases "UseLock s = 0"; cases "FreeList s = 0")
    (auto simp: allocatePhysicalMemoryPage_def kmonad kmem_ready_def kmem_sync_def
      spinlockAcquire_ok [of i] spinlockRelease_ok [of i])

section \<open>The free list\<close>

text \<open>
  \<open>free_chain m p xs\<close>: following the links from \<open>p\<close> visits exactly the pages \<open>xs\<close>.  \<open>free_list s xs\<close> adds
  that the pages are distinct and inside the memory the allocator manages.
\<close>

fun free_chain :: "memory \<Rightarrow> u32 \<Rightarrow> u32 list \<Rightarrow> bool" where
  "free_chain m p [] \<longleftrightarrow> p = 0"
| "free_chain m p (x # xs) \<longleftrightarrow> p = x \<and> x \<noteq> 0 \<and> free_chain m (load32 m x) xs"

definition free_list :: "'a kalloc_scheme \<Rightarrow> u32 list \<Rightarrow> bool" where
  "free_list s xs \<longleftrightarrow> free_chain (mem s) (FreeList s) xs \<and> distinct xs \<and>
     (\<forall>x \<in> set xs. page_ok (kernelEnd s) x)"

definition in_page :: "u32 \<Rightarrow> u32 \<Rightarrow> bool" where
  "in_page v a \<longleftrightarrow> unat (a - v) < 4096"

lemma page_multiple:
  assumes "page_aligned v"
  obtains k where "unat v = 4096 * k"
proof -
  from assms have "unat v mod 4096 = 0" by (simp only: page_aligned_unat)
  then show thesis using that by (auto elim: dvdE)
qed

lemma in_page_div:
  assumes "page_aligned v" and "in_page v a"
  shows "unat v = unat a div 4096 * 4096"
proof -
  obtain k where k: "unat v = 4096 * k" using assms(1) by (rule page_multiple)
  have "unat a = unat (v + (a - v))" by simp
  also have "\<dots> = unat v + unat (a - v)"
    using assms(2) k unat_u32_bound [of v]
    by (intro unat_add_u32) (simp add: in_page_def)
  finally show ?thesis
    using assms(2) k by (simp add: in_page_def)
qed

lemma in_page_unique:
  assumes "page_aligned v" "page_aligned w" "in_page v a" "in_page w a"
  shows "v = w"
  using in_page_div [OF assms(1,3)] in_page_div [OF assms(2,4)] by (simp add: word_unat_eq_iff)

lemma in_page_word: "i \<in> {0, 1, 2, 3} \<Longrightarrow> in_page v (v + i)"
  by (auto simp: in_page_def)

lemma free_chain_cong:
  "(\<And>x a. x \<in> set xs \<Longrightarrow> in_page x a \<Longrightarrow> m' a = m a) \<Longrightarrow> free_chain m' p xs = free_chain m p xs"
proof (induction xs arbitrary: p)
  case (Cons x xs)
  have "load32 m' x = load32 m x"
    by (rule load32_cong) (rule Cons.prems [OF _ in_page_word], simp_all)
  moreover have "free_chain m' q xs = free_chain m q xs" for q
    using Cons.prems by (intro Cons.IH) (meson list.set_intros(2))
  ultimately show ?case by simp
qed simp

lemma free_list_cong:
  assumes "free_list s xs" and "FreeList t = FreeList s" "kernelEnd t = kernelEnd s"
    and "\<And>x a. x \<in> set xs \<Longrightarrow> in_page x a \<Longrightarrow> mem t a = mem s a"
  shows "free_list t xs"
  using assms free_chain_cong [of xs "mem t" "mem s"] by (simp add: free_list_def)

lemma page_ok_nonzero: "page_ok kend v \<Longrightarrow> v \<noteq> 0"
  by (auto simp: page_ok_def V2P_range)

lemma freed_outside:
  "\<not> in_page v a \<Longrightarrow> store32 (memset m v 1 PGSIZE) v w a = m a"
  using in_page_word [of 0 v] in_page_word [of 1 v] in_page_word [of 2 v] in_page_word [of 3 v]
  by (auto simp: store32_apply memset_apply in_page_def PGSIZE_def)

lemma freed_filled:
  "in_page v a \<Longrightarrow> a \<notin> {v, v + 1, v + 2, v + 3} \<Longrightarrow> store32 (memset m v 1 PGSIZE) v w a = 1"
  by (auto simp: store32_apply memset_apply in_page_def PGSIZE_def)

lemma free_list_free:
  assumes "kmem_ready i s" and "free_list s xs" and "page_ok (kernelEnd s) v" and "v \<notin> set xs"
  shows "\<exists>t. freePhysicalMemoryPage v s = Ret () t \<and> free_list t (v # xs) \<and> kmem_ready i t \<and>
    kernelEnd t = kernelEnd s \<and> UseLock t = UseLock s \<and> (UseLock s = 0 \<longrightarrow> locks t = locks s) \<and>
    (\<forall>a. \<not> in_page v a \<longrightarrow> mem t a = mem s a)"
proof -
  let ?m = "store32 (memset (mem s) v 1 PGSIZE) v (FreeList s)"
  let ?t = "(kmem_sync i s)\<lparr>mem := ?m, FreeList := v\<rparr>"
  have "?m a = mem s a" if "x \<in> set xs" "in_page x a" for x a
    using that assms in_page_unique [of x v a]
    by (intro freed_outside) (auto simp: free_list_def page_ok_def)
  then have "free_chain ?m (FreeList s) xs"
    using assms(2) free_chain_cong [of xs ?m "mem s"] by (simp add: free_list_def)
  then have "free_list ?t (v # xs)"
    using assms page_ok_nonzero by (auto simp: free_list_def)
  then show ?thesis
    using assms freed_outside by (simp add: freePhysicalMemoryPage_run) (simp add: kmem_sync_def)
qed

lemma free_list_alloc:
  assumes "kmem_ready i s" and "free_list s (x # xs)"
  shows "\<exists>t. allocatePhysicalMemoryPage s = Ret x t \<and> free_list t xs \<and> kmem_ready i t \<and>
    kernelEnd t = kernelEnd s \<and> UseLock t = UseLock s \<and> mem t = mem s"
  using assms by (auto simp: allocatePhysicalMemoryPage_run [of i] free_list_def)

lemma free_list_alloc_empty:
  assumes "kmem_ready i s" and "free_list s []"
  shows "allocatePhysicalMemoryPage s = Ret 0 (kmem_sync i s)"
  using assms by (simp add: allocatePhysicalMemoryPage_run free_list_def)

section \<open>Boot\<close>

definition pages :: "u32 \<Rightarrow> nat \<Rightarrow> u32 list" where
  "pages p n = map (\<lambda>k. p + of_nat k * PGSIZE) [0..<n]"

lemma pages_Suc: "pages p (Suc n) = p # pages (p + PGSIZE) n"
  by (rule nth_equalityI) (auto simp: pages_def nth_Cons' algebra_simps simp del: upt_Suc)

lemma unat_pages:
  assumes "unat p + n * 4096 < 4294967296" and "k < n"
  shows "unat (pages p n ! k) = unat p + k * 4096"
proof -
  have k: "k * 4096 < 4294967296" using assms by linarith
  have "of_nat k * PGSIZE = of_nat (k * 4096)" by (simp add: PGSIZE_def)
  moreover have "unat (p + of_nat (k * 4096)) = unat p + k * 4096"
    using assms by (intro unat_add_of_nat) linarith
  ultimately show ?thesis using assms(2) by (simp add: pages_def)
qed

lemma page_aligned_next: "page_aligned p \<Longrightarrow> unat p + 4096 < 4294967296 \<Longrightarrow> page_aligned (p + PGSIZE)"
  unfolding page_aligned_unat by (simp add: PGSIZE_def unat_add_u32 mod_eq_0_iff_dvd)

text \<open>
  Freeing a range pushes its whole pages on the free list one by one, so they end up in descending
  order in front of what was there.
\<close>

lemma freeMemoryRange_loop_run:
  assumes "kmem_ready i s" and "free_list s xs" and "page_aligned p" and "kernelEnd s \<le> p"
    and "0x80000000 \<le> unat p" and "unat vend \<le> 0x8E000000"
    and "unat vend div 4096 = unat p div 4096 + n"
    and "set (pages p n) \<inter> set xs = {}"
  shows "\<exists>t. freeMemoryRange_loop p vend s = Ret () t \<and> free_list t (rev (pages p n) @ xs) \<and>
    kmem_ready i t \<and> kernelEnd t = kernelEnd s \<and> UseLock t = UseLock s \<and>
    (UseLock s = 0 \<longrightarrow> locks t = locks s)"
  using assms
proof (induction n arbitrary: p s xs)
  case 0
  obtain k where k: "unat p = 4096 * k"
    using 0(3) by (rule page_multiple)
  have "unat vend < unat p + 4096"
    using 0(7) k by linarith
  moreover have "unat p < 0x8E001000"
    using 0(6,7) k by linarith
  moreover have "unat (p + PGSIZE) = unat p + 4096"
    using \<open>unat p < 0x8E001000\<close> unfolding PGSIZE_def by (subst unat_add_u32) simp_all
  ultimately have "\<not> p + PGSIZE \<le> vend"
    by (simp add: word_le_unat)
  with 0 show ?case
    by (subst freeMemoryRange_loop.simps) (simp add: pages_def)
next
  case (Suc n)
  obtain k where k: "unat p = 4096 * k"
    using Suc.prems(3) by (rule page_multiple)
  have "unat vend div 4096 = k + Suc n"
    using Suc.prems(7) k by simp
  then have vend: "unat p + 4096 + n * 4096 \<le> unat vend"
    using div_times_less_eq_dividend [of "unat vend" 4096] k by simp
  then have lt: "unat p + 4096 \<le> unat vend"
    by linarith
  have up: "unat (p + PGSIZE) = unat p + 4096"
    using lt Suc.prems(6) unfolding PGSIZE_def by (subst unat_add_u32) simp_all
  have "page_ok (kernelEnd s) p"
    using Suc.prems lt by (simp add: page_ok_def V2P_range)
  moreover have "p \<notin> set xs"
    using Suc.prems(8) by (simp add: pages_Suc)
  ultimately obtain t where t: "freePhysicalMemoryPage p s = Ret () t" "free_list t (p # xs)"
      "kmem_ready i t" "kernelEnd t = kernelEnd s" "UseLock t = UseLock s"
      "UseLock s = 0 \<longrightarrow> locks t = locks s"
    using free_list_free [OF Suc.prems(1,2)] by blast
  have "p \<notin> set (pages (p + PGSIZE) n)"
  proof
    assume "p \<in> set (pages (p + PGSIZE) n)"
    then obtain j where j: "j < n" "p = pages (p + PGSIZE) n ! j"
      by (auto simp: in_set_conv_nth) (auto simp: pages_def)
    have "unat (pages (p + PGSIZE) n ! j) = unat (p + PGSIZE) + j * 4096"
      using Suc.prems(6) vend up j by (intro unat_pages) linarith+
    with j up show False by simp
  qed
  then have "\<exists>u. freeMemoryRange_loop (p + PGSIZE) vend t = Ret () u \<and>
      free_list u (rev (pages (p + PGSIZE) n) @ p # xs) \<and> kmem_ready i u \<and>
      kernelEnd u = kernelEnd t \<and> UseLock u = UseLock t \<and> (UseLock t = 0 \<longrightarrow> locks u = locks t)"
    using Suc.prems t up lt
    by (intro Suc.IH) (auto simp: pages_Suc page_aligned_next word_le_unat)
  then show ?case
    using t lt up
    by (subst freeMemoryRange_loop.simps) (auto simp: kmonad pages_Suc word_le_unat)
qed

section \<open>The allocator as a pool of pages\<close>

text \<open>
  What the rest of the kernel relies on: a call on a non-empty pool returns a page of the pool and
  removes it, a call on an empty pool returns the null pointer, and freeing a valid page that is not
  in the pool adds it.
\<close>

locale page_pool =
  fixes alloc :: "('s, 'p) op" and free :: "'p \<Rightarrow> ('s, unit) op" and null :: 'p
    and ready :: "'s \<Rightarrow> bool" and pool :: "'s \<Rightarrow> 'p list \<Rightarrow> bool" and valid :: "'s \<Rightarrow> 'p \<Rightarrow> bool"
  assumes alloc_some: "ready s \<Longrightarrow> pool s (x # xs) \<Longrightarrow>
      \<exists>t. alloc s = Ret x t \<and> pool t xs \<and> ready t \<and> valid t = valid s"
    and alloc_none: "ready s \<Longrightarrow> pool s [] \<Longrightarrow> \<exists>t. alloc s = Ret null t \<and> pool t [] \<and> ready t"
    and free_valid: "ready s \<Longrightarrow> pool s xs \<Longrightarrow> valid s v \<Longrightarrow> v \<notin> set xs \<Longrightarrow>
      \<exists>t. free v s = Ret () t \<and> pool t (v # xs) \<and> ready t \<and> valid t = valid s"
    and pool_distinct: "pool s xs \<Longrightarrow> distinct xs"
    and pool_valid: "pool s xs \<Longrightarrow> x \<in> set xs \<Longrightarrow> valid s x"
begin

fun alloc_many :: "nat \<Rightarrow> ('s, 'p list) op" where
  "alloc_many 0 = returnK []"
| "alloc_many (Suc n) = bindK alloc (\<lambda>p. bindK (alloc_many n) (\<lambda>ps. returnK (p # ps)))"

fun free_many :: "'p list \<Rightarrow> ('s, unit) op" where
  "free_many [] = returnK ()"
| "free_many (p # ps) = bindK (free p) (\<lambda>_. free_many ps)"

lemma alloc_many_run:
  "ready s \<Longrightarrow> pool s (ps @ xs) \<Longrightarrow>
   \<exists>t. alloc_many (length ps) s = Ret ps t \<and> pool t xs \<and> ready t \<and> valid t = valid s"
proof (induction ps arbitrary: s)
  case (Cons p ps)
  then obtain t where "alloc s = Ret p t" "pool t (ps @ xs)" "ready t" "valid t = valid s"
    using alloc_some by (metis append_Cons)
  with Cons.IH [of t] show ?case by (auto simp: kmonad)
qed simp

lemma free_many_run:
  "ready s \<Longrightarrow> pool s xs \<Longrightarrow> distinct ps \<Longrightarrow> set ps \<inter> set xs = {} \<Longrightarrow> (\<forall>p \<in> set ps. valid s p) \<Longrightarrow>
   \<exists>t. free_many ps s = Ret () t \<and> pool t (rev ps @ xs) \<and> ready t"
proof (induction ps arbitrary: s xs)
  case (Cons p ps)
  then obtain t where "free p s = Ret () t" "pool t (p # xs)" "ready t" "valid t = valid s"
    using free_valid [of s xs p] by auto
  with Cons.IH [of t "p # xs"] Cons.prems show ?case by (auto simp: kmonad)
qed simp

lemma alloc_free_restores:
  assumes "ready s" and "pool s (ps @ xs)"
  shows "\<exists>t u. alloc_many (length ps) s = Ret ps t \<and> pool t xs \<and>
    free_many (rev ps) t = Ret () u \<and> pool u (ps @ xs)"
proof -
  obtain t where t: "alloc_many (length ps) s = Ret ps t" "pool t xs" "ready t" "valid t = valid s"
    using alloc_many_run [OF assms] by blast
  have "\<exists>u. free_many (rev ps) t = Ret () u \<and> pool u (rev (rev ps) @ xs) \<and> ready u"
    using pool_distinct [OF assms(2)] pool_valid [OF assms(2)] t by (intro free_many_run) auto
  with t show ?thesis by auto
qed

end

interpretation kmem: page_pool allocatePhysicalMemoryPage freePhysicalMemoryPage 0
  "kmem_ready i" free_list "\<lambda>s. page_ok (kernelEnd s)" for i
proof
  fix s :: "'a kalloc_scheme" and xs x v
  show "kmem_ready i s \<Longrightarrow> free_list s (x # xs) \<Longrightarrow>
    \<exists>t. allocatePhysicalMemoryPage s = Ret x t \<and> free_list t xs \<and> kmem_ready i t \<and>
      page_ok (kernelEnd t) = page_ok (kernelEnd s)"
    using free_list_alloc [of i s x xs] by auto
  show "kmem_ready i s \<Longrightarrow> free_list s [] \<Longrightarrow>
    \<exists>t. allocatePhysicalMemoryPage s = Ret 0 t \<and> free_list t [] \<and> kmem_ready i t"
    by (simp add: free_list_alloc_empty) (simp add: free_list_def)
  show "kmem_ready i s \<Longrightarrow> free_list s xs \<Longrightarrow> page_ok (kernelEnd s) v \<Longrightarrow> v \<notin> set xs \<Longrightarrow>
    \<exists>t. freePhysicalMemoryPage v s = Ret () t \<and> free_list t (v # xs) \<and> kmem_ready i t \<and>
      page_ok (kernelEnd t) = page_ok (kernelEnd s)"
    using free_list_free [of i s xs v] by auto
  show "free_list s xs \<Longrightarrow> distinct xs" "free_list s xs \<Longrightarrow> x \<in> set xs \<Longrightarrow> page_ok (kernelEnd s) x"
    by (auto simp: free_list_def)
qed

section \<open>Properties\<close>

definition boot_kalloc :: kalloc where
  "boot_kalloc = \<lparr>eflags = FL_IF, localApicId = 0, cpus = [boot_cpu], ncpu = 1, locks = (\<lambda>_. unlocked),
     mem = (\<lambda>_. 0), FreeList = 0, UseLock = 0, kernelEnd = 0x80110000\<rparr>"

lemma free_list_empty: "FreeList s = 0 \<Longrightarrow> free_list s []"
  by (simp add: free_list_def)

lemma free_list_upd [simp]:
  "free_list (s\<lparr>UseLock := u\<rparr>) xs = free_list s xs" "free_list (s\<lparr>locks := l\<rparr>) xs = free_list s xs"
  by (simp_all add: free_list_def)

lemma freeMemoryRange_run:
  assumes "kmem_ready i s" and "free_list s xs" and "kernelEnd s \<le> vstart"
    and "0x80000000 \<le> unat vstart" and "PGROUNDUP vstart \<le> vend" and "unat vend \<le> 0x8E000000"
    and "n = unat vend div 4096 - unat (PGROUNDUP vstart) div 4096"
    and "set (pages (PGROUNDUP vstart) n) \<inter> set xs = {}"
    and "unat vstart \<le> 0x8E000000"
  shows "\<exists>t. freeMemoryRange vstart vend s = Ret () t \<and>
    free_list t (rev (pages (PGROUNDUP vstart) n) @ xs) \<and> kmem_ready i t \<and>
    kernelEnd t = kernelEnd s \<and> UseLock t = UseLock s \<and> (UseLock s = 0 \<longrightarrow> locks t = locks s)"
proof -
  have up: "unat (PGROUNDUP vstart) = (unat vstart + 4095) div 4096 * 4096"
    using assms(9) by (intro unat_PGROUNDUP) linarith
  then have ge: "unat vstart \<le> unat (PGROUNDUP vstart)" by linarith
  have "unat (PGROUNDUP vstart) div 4096 \<le> unat vend div 4096"
    using assms(5) by (simp add: word_le_unat div_le_mono)
  then show ?thesis
    unfolding freeMemoryRange_def using assms ge
    by (intro freeMemoryRange_loop_run) (auto simp: PGROUNDUP_aligned word_le_unat)
qed

text \<open>The pages of the two boot ranges, below and above 4 megabytes of physical memory.\<close>

definition lower_pages :: "u32 \<Rightarrow> u32 list" where
  "lower_pages kend = pages (PGROUNDUP kend) (0x80400 - unat (PGROUNDUP kend) div 4096)"

definition upper_pages :: "u32 list" where
  "upper_pages = pages (P2V 0x400000) (0x8E000 - 0x80400)"

lemma PGROUNDUP_id:
  assumes "unat a mod 4096 = 0" and "unat a + 4095 < 4294967296"
  shows "PGROUNDUP a = a"
proof -
  obtain k where "unat a = 4096 * k" using assms(1) by (auto elim: dvdE)
  then show ?thesis using assms(2) by (simp add: word_unat_eq_iff unat_PGROUNDUP)
qed

lemma pages_ge:
  assumes "unat p + n * 4096 < 4294967296" and "x \<in> set (pages p n)"
  shows "unat p \<le> unat x \<and> unat x < unat p + n * 4096"
proof -
  obtain k where k: "k < n" "x = pages p n ! k"
    using assms(2) by (auto simp: in_set_conv_nth) (auto simp: pages_def)
  then show ?thesis using unat_pages [OF assms(1) k(1)] by simp
qed

lemma pages_disjoint:
  assumes "unat p + n * 4096 \<le> unat q" and "unat q + k * 4096 < 4294967296"
  shows "set (pages p n) \<inter> set (pages q k) = {}"
proof -
  have "unat x < unat y" if "x \<in> set (pages p n)" "y \<in> set (pages q k)" for x y
    using pages_ge [OF _ that(1)] pages_ge [OF assms(2) that(2)] assms by linarith
  then show ?thesis by blast
qed

text \<open>
  C4: boot.  With the calls of \<^verbatim>\<open>main\<close>, one directly after the other and without the page-table pages taken in between, both initialisers return, and afterwards the free list holds every
  whole page from the end of the kernel image to \<^verbatim>\<open>PHYSTOP\<close>, each once, with locking switched on and the
  lock free.
\<close>

theorem kernel_memory_boot:
  assumes "FreeList s = 0" and "KERNBASE \<le> kernelEnd s" and "unat (kernelEnd s) \<le> 0x803FF000"
  shows "\<exists>t u. initialiseLowerkernelMemory (kernelEnd s) (P2V 0x400000) s = Ret () t \<and>
    initialiseRestOfkernelMemory (P2V 0x400000) (P2V PHYSTOP) t = Ret () u \<and>
    free_list u (rev upper_pages @ rev (lower_pages (kernelEnd s))) \<and>
    UseLock u = 1 \<and> lock_free KernelMemoryLock u"
proof -
  let ?k = "kernelEnd s" and ?m = "P2V 0x400000"
  let ?s = "s\<lparr>locks := (locks s)(KernelMemoryLock := \<lparr>Locked = 0, LockName = ''kernelMemory'', Holder = None\<rparr>),
              UseLock := 0\<rparr>"
  have m: "unat ?m = 0x80400000" "unat (P2V PHYSTOP) = 0x8E000000"
    by (simp_all add: P2V_def const_defs)
  have k: "0x80000000 \<le> unat ?k" using assms(2) by (simp add: word_le_unat KERNBASE_def)
  have up: "unat (PGROUNDUP ?k) = (unat ?k + 4095) div 4096 * 4096"
    using assms(3) by (intro unat_PGROUNDUP) linarith
  also have "\<dots> \<le> (0x803FF000 + 4095) div 4096 * 4096"
    using assms(3) by (intro mult_le_mono1 div_le_mono) simp
  finally have le: "unat (PGROUNDUP ?k) \<le> 0x803FF000"
    by simp
  have "\<exists>t. freeMemoryRange ?k ?m ?s = Ret () t \<and> free_list t (rev (lower_pages ?k) @ []) \<and>
      kmem_ready 0 t \<and> kernelEnd t = kernelEnd ?s \<and> UseLock t = UseLock ?s \<and>
      (UseLock ?s = 0 \<longrightarrow> locks t = locks ?s)"
    unfolding lower_pages_def using assms k le m
    by (intro freeMemoryRange_run) (simp_all add: kmem_ready_def free_list_empty word_le_unat)
  then obtain t where t: "freeMemoryRange ?k ?m ?s = Ret () t" "free_list t (rev (lower_pages ?k))"
      "kmem_ready 0 t" "kernelEnd t = ?k" "UseLock t = 0" "locks t = locks ?s"
    by auto
  have mm: "PGROUNDUP ?m = ?m" using m by (intro PGROUNDUP_id) simp_all
  have "set (lower_pages ?k) \<inter> set upper_pages = {}"
    unfolding lower_pages_def upper_pages_def using m up le by (intro pages_disjoint) simp_all
  then have "\<exists>u. freeMemoryRange ?m (P2V PHYSTOP) t = Ret () u \<and>
      free_list u (rev upper_pages @ rev (lower_pages ?k)) \<and> kmem_ready 0 u \<and>
      kernelEnd u = kernelEnd t \<and> UseLock u = UseLock t \<and> (UseLock t = 0 \<longrightarrow> locks u = locks t)"
    unfolding upper_pages_def using t(2-4) m k assms(3)
    by (subst mm [symmetric], intro freeMemoryRange_run) (simp_all add: mm word_le_unat Int_commute)
  with t show ?thesis
    by (auto simp: initialiseLowerkernelMemory_def initialiseRestOfkernelMemory_def spinlockInitialise_def
        kmonad lock_free_def)
qed

theorem kernel_memory_boot_witness:
  "\<exists>t u. initialiseLowerkernelMemory (kernelEnd boot_kalloc) (P2V 0x400000) boot_kalloc = Ret () t \<and>
    initialiseRestOfkernelMemory (P2V 0x400000) (P2V PHYSTOP) t = Ret () u \<and>
    free_list u (rev upper_pages @ rev (lower_pages (kernelEnd boot_kalloc))) \<and>
    UseLock u = 1 \<and> lock_free KernelMemoryLock u"
  by (rule kernel_memory_boot) (simp_all add: boot_kalloc_def KERNBASE_def)

text \<open>
  Allocation and freeing.  Taking any number of pages returns the first pages of the free list, all
  distinct, and giving them back in reverse order restores the list.
\<close>

theorem page_allocations_restored:
  assumes "kmem_ready i s" and "free_list s (ps @ xs)"
  shows "\<exists>t u. kmem.alloc_many (length ps) s = Ret ps t \<and> free_list t xs \<and> distinct (ps @ xs) \<and>
    kmem.free_many (rev ps) t = Ret () u \<and> free_list u (ps @ xs)"
  using kmem.alloc_free_restores [OF assms] kmem.pool_distinct [OF assms(2)] by blast

text \<open>
  C21: one free.  Freeing a page the allocator manages pushes it on the list, fills it with the junk value
  1 beyond the link, and changes no byte of any other page; freeing any other address panics.
\<close>

theorem freePhysicalMemoryPage_frame:
  assumes "kmem_ready i s" and "free_list s xs" and "v \<notin> set xs"
  shows "if page_ok (kernelEnd s) v
    then \<exists>t. freePhysicalMemoryPage v s = Ret () t \<and> free_list t (v # xs) \<and>
      (\<forall>a. \<not> in_page v a \<longrightarrow> mem t a = mem s a) \<and>
      (\<forall>a. in_page v a \<longrightarrow> a \<notin> {v, v + 1, v + 2, v + 3} \<longrightarrow> mem t a = 1)
    else freePhysicalMemoryPage v s = Panic ''freePhysicalMemoryPage''"
proof (cases "page_ok (kernelEnd s) v")
  case True
  then obtain t where "freePhysicalMemoryPage v s = Ret () t" "free_list t (v # xs)"
      "\<forall>a. \<not> in_page v a \<longrightarrow> mem t a = mem s a"
    using free_list_free [OF assms(1,2) True assms(3)] by blast
  moreover from this have "mem t = store32 (memset (mem s) v 1 PGSIZE) v (FreeList s)"
    using freePhysicalMemoryPage_run [OF assms(1) True] by auto
  ultimately show ?thesis
    using True freed_filled by auto
qed (simp add: freePhysicalMemoryPage_bad)

theorem freePhysicalMemoryPage_frame_witness:
  "\<exists>t. freePhysicalMemoryPage 0x80300000 (boot_kalloc\<lparr>FreeList := 0x80200000\<rparr>) = Ret () t \<and>
    free_list t [0x80300000, 0x80200000]"
  using freePhysicalMemoryPage_frame [of 0 "boot_kalloc\<lparr>FreeList := 0x80200000\<rparr>" "[0x80200000]" "0x80300000"]
  by (simp add: kmem_ready_def boot_kalloc_def free_list_def load32_def page_ok_def page_aligned_def V2P_def const_defs) blast

end
