(* ===== verification/Digits.thy ===== *)
theory Digits
  imports Prelude
begin

text \<open>
  Conversion between numbers and digit strings: the digit loop shared by the \<^verbatim>\<open>printInt\<close> functions of
  \<^verbatim>\<open>console.c\<close> and \<^verbatim>\<open>printf.c\<close>, and \<^verbatim>\<open>atoi\<close> of \<^verbatim>\<open>ulib.c\<close>.  Strings are lists of characters without the
  terminating NUL; the 16-byte buffer of \<^verbatim>\<open>printInt\<close> is explicit, and running past it, like a base below 2
  (for which the loop divides by zero or never ends), is \<open>None\<close>.
\<close>

section \<open>Definitions\<close>

function digit_loop :: "string \<Rightarrow> nat \<Rightarrow> nat \<Rightarrow> string option" where
  "digit_loop digits base x =
     (if base < 2 then None
      else let c = digits ! (x mod base) in
        if x div base = 0 then Some [c] else map_option ((#) c) (digit_loop digits base (x div base)))"
  by pat_completeness auto
termination
  by (relation "measure (\<lambda>(digits, base, x). x)") (auto simp: Let_def intro!: div_less_dividend Nat.gr0I)

declare digit_loop.simps [simp del]

definition int_chars :: "string \<Rightarrow> u32 \<Rightarrow> nat \<Rightarrow> bool \<Rightarrow> string option" where
  "int_chars digits xx base sign =
     (let neg = sign \<and> sint xx < 0;
          x = (if neg then - xx else xx)
      in case digit_loop digits base (unat x) of
           None \<Rightarrow> None
         | Some ds \<Rightarrow>
             (let buf = (if neg then ds @ ''-'' else ds)
              in if length buf \<le> 16 then Some (rev buf) else None))"

fun atoi_loop :: "u32 \<Rightarrow> string \<Rightarrow> u32" where
  "atoi_loop n [] = n"
| "atoi_loop n (c # s) =
     (if 0x30 \<le> (of_char c :: nat) \<and> (of_char c :: nat) \<le> 0x39
      then atoi_loop (n * 10 + of_nat (of_char c) - 0x30) s else n)"

definition atoi :: "string \<Rightarrow> u32" where
  "atoi s = atoi_loop 0 s"

section \<open>The digit loop\<close>

text \<open>
  \<open>numeral_value\<close> reads a list of digit values, least significant first, in a base.
\<close>

fun numeral_value :: "nat \<Rightarrow> nat list \<Rightarrow> nat" where
  "numeral_value base [] = 0"
| "numeral_value base (d # ds) = d + base * numeral_value base ds"

lemma digit_loop_correct:
  assumes "2 \<le> base"
  shows "\<exists>ds. digit_loop digits base x = Some (map ((!) digits) ds) \<and> ds \<noteq> [] \<and>
    numeral_value base ds = x \<and> (\<forall>d \<in> set ds. d < base) \<and> (last ds \<noteq> 0 \<or> ds = [0])"
proof (induction x rule: less_induct)
  case (less x)
  show ?case
  proof (cases "x div base = 0")
    case True
    then have "x < base" using assms by (simp add: div_eq_0_iff)
    with True assms show ?thesis
      by (subst digit_loop.simps) (auto simp: Let_def intro!: exI [of _ "[x]"])
  next
    case False
    then have "x div base < x"
      using assms by (intro div_less_dividend) (auto intro: Nat.gr0I)
    from less.IH [OF this] obtain ds where ds:
      "digit_loop digits base (x div base) = Some (map ((!) digits) ds)" "ds \<noteq> []"
      "numeral_value base ds = x div base" "\<forall>d \<in> set ds. d < base" "last ds \<noteq> 0 \<or> ds = [0]"
      by blast
    from ds(3,5) False have "last ds \<noteq> 0" by auto
    have "digit_loop digits base x = Some (map ((!) digits) (x mod base # ds))"
      using False assms ds(1) by (subst digit_loop.simps) (simp add: Let_def)
    moreover have "numeral_value base (x mod base # ds) = x"
      using ds(3) by (simp add: mult.commute mod_mult_div_eq add.commute)
    ultimately show ?thesis
      using ds assms \<open>last ds \<noteq> 0\<close> by (intro exI [of _ "x mod base # ds"]) simp
  qed
qed

lemma numeral_value_lower:
  "ds \<noteq> [] \<Longrightarrow> last ds \<noteq> 0 \<Longrightarrow> 0 < base \<Longrightarrow> base ^ (length ds - 1) \<le> numeral_value base ds"
proof (induction ds)
  case (Cons d ds)
  show ?case
  proof (cases "ds = []")
    case False
    with Cons have "base ^ (length ds - 1) \<le> numeral_value base ds" by simp
    then have "base * base ^ (length ds - 1) \<le> base * numeral_value base ds" by (rule mult_le_mono2)
    moreover have "base * base ^ (length ds - 1) = base ^ length ds"
      using False by (cases ds) simp_all
    ultimately have "base ^ length ds \<le> base * numeral_value base ds" by (simp only:)
    then show ?thesis by simp
  qed (use Cons in simp)
qed simp

lemma numeral_length_bound:
  assumes "ds \<noteq> []" "last ds \<noteq> 0 \<or> ds = [0]" "2 \<le> base" "numeral_value base ds < base ^ k" "0 < k"
  shows "length ds \<le> k"
proof (cases "ds = [0]")
  case False
  then have "base ^ (length ds - 1) < base ^ k"
    using numeral_value_lower [of ds base] assms by linarith
  then have "length ds - 1 < k"
    using assms(3) by (simp add: power_less_imp_less_exp)
  then show ?thesis by simp
qed (use assms in simp)

text \<open>Both bases that the callers use fit a 32-bit number and its sign into the buffer.\<close>

lemma int_chars_some:
  assumes "base = 10 \<or> base = 16"
  shows "\<exists>ds. int_chars digits xx base sign =
      Some ((if sign \<and> sint xx < 0 then ''-'' else []) @ map ((!) digits) (rev ds)) \<and>
    numeral_value base ds = unat (if sign \<and> sint xx < 0 then - xx else xx) \<and>
    ds \<noteq> [] \<and> length ds \<le> 10 \<and> (\<forall>d \<in> set ds. d < base)"
proof -
  define x where "x = unat (if sign \<and> sint xx < 0 then - xx else xx)"
  obtain ds where ds: "digit_loop digits base x = Some (map ((!) digits) ds)" "ds \<noteq> []"
    "numeral_value base ds = x" "\<forall>d \<in> set ds. d < base" "last ds \<noteq> 0 \<or> ds = [0]"
    using digit_loop_correct [of base digits x] assms by fastforce
  have "x < base ^ 10"
  proof -
    have "x < 4294967296" by (simp add: x_def)
    also have "\<dots> < base ^ 10" using assms by auto
    finally show ?thesis .
  qed
  then have "length ds \<le> 10"
    using ds assms by (intro numeral_length_bound [of ds base 10]) auto
  then show ?thesis
    using ds unfolding int_chars_def Let_def x_def [symmetric] by (auto simp: rev_map)
qed

section \<open>Decimal and hexadecimal notation\<close>

text \<open>\<open>show_nat\<close> is ordinary positional notation, \<open>show_int\<close> adds the sign.\<close>

fun show_nat :: "string \<Rightarrow> nat \<Rightarrow> nat \<Rightarrow> string" where
  "show_nat digits base n =
     (if base < 2 \<or> n < base then [digits ! n] else show_nat digits base (n div base) @ [digits ! (n mod base)])"

declare show_nat.simps [simp del]

definition show_int :: "string \<Rightarrow> int \<Rightarrow> string" where
  "show_int digits i = (if i < 0 then ''-'' else []) @ show_nat digits 10 (nat \<bar>i\<bar>)"

lemma digit_loop_show: "2 \<le> base \<Longrightarrow> digit_loop digits base x = Some (rev (show_nat digits base x))"
proof (induction x rule: less_induct)
  case (less x)
  show ?case
  proof (cases "x < base")
    case True
    then show ?thesis
      using less.prems by (subst digit_loop.simps, subst show_nat.simps) (simp add: Let_def)
  next
    case False
    then have "x div base < x" "x div base \<noteq> 0"
      using less.prems by (auto simp: div_eq_0_iff intro!: div_less_dividend)
    then show ?thesis
      using less.IH [of "x div base"] less.prems False
      by (subst digit_loop.simps, subst show_nat.simps) (simp add: Let_def)
  qed
qed

lemma unat_neg_sint:
  assumes "sint (x :: u32) < 0"
  shows "unat (- x) = nat \<bar>sint x\<bar>"
proof -
  have "uint (- x) = (- uint x) mod 4294967296"
    by (simp add: uint_word_ariths)
  also have "\<dots> = (- sint x) mod 4294967296"
    by (simp add: uint_sint_mod mod_minus_eq)
  also have "\<dots> = - sint x"
    using assms sint_u32_bounds [of x] by (intro mod_pos_pos_trivial) simp_all
  finally show ?thesis using assms by (simp flip: nat_uint_eq)
qed

lemma unat_pos_sint:
  assumes "0 \<le> sint (x :: u32)"
  shows "unat x = nat \<bar>sint x\<bar>"
proof -
  have "uint x = sint x"
    using assms sint_u32_bounds [of x] by (simp add: uint_sint_mod)
  then show ?thesis using assms by (simp flip: nat_uint_eq)
qed

lemma int_chars_bounded:
  assumes "base = 10 \<or> base = 16"
  shows "int_chars digits xx base sign \<noteq> None"
  using int_chars_some [OF assms] by (metis option.discI)

lemma int_chars_show:
  assumes "base = 10 \<or> base = 16"
  shows "int_chars digits xx base sign =
    Some (if sign \<and> sint xx < 0 then ''-'' @ show_nat digits base (unat (- xx)) else show_nat digits base (unat xx))"
  using int_chars_bounded [OF assms, of digits xx sign] digit_loop_show [of base digits] assms
  by (auto simp: int_chars_def Let_def split: if_splits)

lemma int_chars_decimal: "int_chars digits xx 10 True = Some (show_int digits (sint xx))"
  by (cases "sint xx < 0") (simp_all add: int_chars_show show_int_def unat_neg_sint unat_pos_sint)

lemma int_chars_hexadecimal: "int_chars digits xx 16 False = Some (show_nat digits 16 (unat xx))"
  by (simp add: int_chars_show)

section \<open>Reading numbers back\<close>

lemma show_nat_value:
  assumes "\<And>d. d < 10 \<Longrightarrow> digits ! d = char_of (0x30 + d)"
  shows "atoi_loop 0 (show_nat digits 10 n @ rest) = atoi_loop (of_nat n) rest"
proof (induction n arbitrary: rest rule: less_induct)
  case (less n)
  have digit: "atoi_loop m (digits ! d # rest) = atoi_loop (m * 10 + of_nat d) rest" if "d < 10" for m d rest
    using that assms [OF that] by (simp add: of_char_of)
  show ?case
  proof (cases "n < 10")
    case True
    then show ?thesis using digit [of n 0 rest] by (simp add: show_nat.simps)
  next
    case False
    have "atoi_loop 0 (show_nat digits 10 n @ rest) =
        atoi_loop 0 (show_nat digits 10 (n div 10) @ digits ! (n mod 10) # rest)"
      using False by (subst show_nat.simps) simp
    also have "\<dots> = atoi_loop (of_nat (n div 10)) (digits ! (n mod 10) # rest)"
      using False by (intro less.IH) simp
    also have "\<dots> = atoi_loop (of_nat (n div 10) * 10 + of_nat (n mod 10)) rest"
      by (intro digit) simp
    also have "of_nat (n div 10) * 10 + of_nat (n mod 10) = (of_nat n :: u32)"
      by (metis div_mult_mod_eq of_nat_add of_nat_mult of_nat_numeral)
    finally show ?thesis .
  qed
qed

end
