(* ===== verification/Printf.thy ===== *)
theory Printf
  imports Digits
begin

text \<open>
  Formatted output of user programs (\<^verbatim>\<open>printf.c\<close>).  The arguments are a list of machine words and string
  pointers as the caller pushed them; the result is the sequence of bytes that \<^verbatim>\<open>putc\<close> writes to file
  descriptor 1, one system call each.  A directive whose argument is missing or is a word used as a
  string pointer reads memory the caller did not provide, which is \<open>None\<close>.
\<close>

section \<open>Definitions\<close>

datatype fmt_arg = IntArg u32 | StrArg "string option"

definition user_digits :: string where
  "user_digits = ''0123456789ABCDEF''"

definition printInt :: "u32 \<Rightarrow> nat \<Rightarrow> bool \<Rightarrow> string option" where
  "printInt xx base sign = int_chars user_digits xx base sign"

text \<open>
  The loop over the format string: \<open>percent\<close> is the variable \<^verbatim>\<open>state\<close> being \<^verbatim>\<open>'%'\<close>.
\<close>

fun printf_loop :: "string \<Rightarrow> bool \<Rightarrow> fmt_arg list \<Rightarrow> string option" where
  "printf_loop [] percent ap = Some []"
| "printf_loop (c # fmt) percent ap =
     (if c = CHR 0x00 then Some []
      else if \<not> percent then
        if c = CHR ''%'' then printf_loop fmt True ap
        else map_option ((#) c) (printf_loop fmt False ap)
      else if c = CHR ''d'' then
        case ap of
          IntArg n # ap' \<Rightarrow>
            (case printInt n 10 True of None \<Rightarrow> None
             | Some out \<Rightarrow> map_option ((@) out) (printf_loop fmt False ap'))
        | _ \<Rightarrow> None
      else if c = CHR ''x'' \<or> c = CHR ''p'' then
        case ap of
          IntArg n # ap' \<Rightarrow>
            (case printInt n 16 False of None \<Rightarrow> None
             | Some out \<Rightarrow> map_option ((@) out) (printf_loop fmt False ap'))
        | _ \<Rightarrow> None
      else if c = CHR ''s'' then
        case ap of
          StrArg s # ap' \<Rightarrow>
            map_option ((@) (case s of None \<Rightarrow> ''(null)'' | Some str \<Rightarrow> takeWhile (\<lambda>c. c \<noteq> CHR 0x00) str))
              (printf_loop fmt False ap')
        | _ \<Rightarrow> None
      else if c = CHR ''c'' then
        case ap of
          IntArg n # ap' \<Rightarrow> map_option ((#) (char_of (unat n))) (printf_loop fmt False ap')
        | _ \<Rightarrow> None
      else if c = CHR ''%'' then map_option ((#) c) (printf_loop fmt False ap)
      else map_option ((@) [CHR ''%'', c]) (printf_loop fmt False ap))"

definition printf :: "string \<Rightarrow> fmt_arg list \<Rightarrow> string option" where
  "printf fmt args = printf_loop fmt False args"

section \<open>What a format string means\<close>

text \<open>
  A format is a sequence of items.  \<open>item_source\<close> is the text of an item in the format string,
  \<open>item_args\<close> what it consumes and \<open>item_output\<close> what it prints.
\<close>

datatype item =
    Literal char | Decimal u32 | Hex u32 | Pointer u32 | Str string | NullStr | Chr u32 | Percent
  | Unknown char

fun item_ok :: "item \<Rightarrow> bool" where
  "item_ok (Literal c) \<longleftrightarrow> c \<noteq> CHR ''%'' \<and> c \<noteq> CHR 0x00"
| "item_ok (Str s) \<longleftrightarrow> CHR 0x00 \<notin> set s"
| "item_ok (Unknown c) \<longleftrightarrow> c \<notin> set ''dxpsc%'' \<and> c \<noteq> CHR 0x00"
| "item_ok _ \<longleftrightarrow> True"

fun item_source :: "item \<Rightarrow> string" where
  "item_source (Literal c) = [c]"
| "item_source (Decimal n) = ''%d''"
| "item_source (Hex n) = ''%x''"
| "item_source (Pointer n) = ''%p''"
| "item_source (Str s) = ''%s''"
| "item_source NullStr = ''%s''"
| "item_source (Chr n) = ''%c''"
| "item_source Percent = ''%%''"
| "item_source (Unknown c) = [CHR ''%'', c]"

fun item_args :: "item \<Rightarrow> fmt_arg list" where
  "item_args (Decimal n) = [IntArg n]"
| "item_args (Hex n) = [IntArg n]"
| "item_args (Pointer n) = [IntArg n]"
| "item_args (Str s) = [StrArg (Some s)]"
| "item_args NullStr = [StrArg None]"
| "item_args (Chr n) = [IntArg n]"
| "item_args _ = []"

fun item_output :: "string \<Rightarrow> item \<Rightarrow> string" where
  "item_output digits (Literal c) = [c]"
| "item_output digits (Decimal n) = show_int digits (sint n)"
| "item_output digits (Hex n) = show_nat digits 16 (unat n)"
| "item_output digits (Pointer n) = show_nat digits 16 (unat n)"
| "item_output digits (Str s) = s"
| "item_output digits NullStr = ''(null)''"
| "item_output digits (Chr n) = [char_of (unat n)]"
| "item_output digits Percent = ''%''"
| "item_output digits (Unknown c) = [CHR ''%'', c]"

lemma printInt_decimal: "printInt n 10 True = Some (show_int user_digits (sint n))"
  by (simp add: printInt_def int_chars_decimal)

lemma printInt_hexadecimal: "printInt n 16 False = Some (show_nat user_digits 16 (unat n))"
  by (simp add: printInt_def int_chars_hexadecimal)

lemma takeWhile_no_nul: "CHR 0x00 \<notin> set s \<Longrightarrow> takeWhile (\<lambda>c. c \<noteq> CHR 0x00) s = s"
  by (auto simp: takeWhile_eq_all_conv)

lemma map_option_singleton [simp]: "map_option ((@) [c]) out = map_option ((#) c) out"
  by (cases out) simp_all

lemma printf_item:
  assumes "item_ok it"
  shows "printf_loop (item_source it @ fmt) False (item_args it @ ap) =
    map_option ((@) (item_output user_digits it)) (printf_loop fmt False ap)"
  using assms
  by (cases it) (auto simp: printInt_decimal printInt_hexadecimal takeWhile_no_nul)

section \<open>Properties\<close>

text \<open>
  C35: \<^verbatim>\<open>printf\<close>.  For every sequence of format items, the format string made of their sources with their
  arguments prints exactly their outputs in order: signed decimal and unsigned hexadecimal notation,
  strings with \<^verbatim>\<open>(null)\<close> for the null pointer, single characters, and unknown directives verbatim.  The
  comment above the function lists only \<^verbatim>\<open>%d\<close>, \<^verbatim>\<open>%x\<close>, \<^verbatim>\<open>%p\<close> and \<^verbatim>\<open>%s\<close>; the code also has \<^verbatim>\<open>%c\<close>.
\<close>

theorem printf_items:
  assumes "\<forall>it \<in> set its. item_ok it"
  shows "printf (concat (map item_source its)) (concat (map item_args its)) =
    Some (concat (map (item_output user_digits) its))"
proof -
  have "printf_loop (concat (map item_source its)) False (concat (map item_args its)) =
      Some (concat (map (item_output user_digits) its))"
    using assms by (induction its) (simp_all add: printf_item)
  then show ?thesis by (simp add: printf_def)
qed

theorem printf_items_witness:
  "printf ''n=%d%%%q'' [IntArg 7] = Some ''n=7%%q''"
  using printf_items [of "[Literal CHR ''n'', Literal CHR ''='', Decimal 7, Percent, Unknown CHR ''q'']"]
  by (simp add: show_int_def show_nat.simps user_digits_def)

text \<open>
  C36: numbers survive printing and reading.  The decimal text that \<^verbatim>\<open>printInt\<close> produces for a non-negative
  number is read back by \<^verbatim>\<open>atoi\<close> as the same number.
\<close>

theorem printInt_atoi_roundtrip:
  assumes "0 \<le> sint n"
  shows "\<exists>out. printInt n 10 True = Some out \<and> atoi out = n"
proof -
  have d: "user_digits ! d = char_of (0x30 + d)" if "d < 10" for d :: nat
  proof -
    have "d \<in> {0, 1, 2, 3, 4, 5, 6, 7, 8, 9}" using that by auto
    then show ?thesis by (elim insertE emptyE) (simp_all add: user_digits_def char_of_def bit_0)
  qed
  have "show_int user_digits (sint n) = show_nat user_digits 10 (unat n)"
    using assms by (simp add: show_int_def unat_pos_sint)
  moreover have "atoi_loop 0 (show_nat user_digits 10 (unat n) @ []) = atoi_loop (of_nat (unat n)) []"
    by (rule show_nat_value [OF d])
  ultimately show ?thesis by (simp add: printInt_decimal atoi_def)
qed

theorem printInt_atoi_roundtrip_witness:
  "\<exists>out. printInt 90125 10 True = Some out \<and> atoi out = 90125"
  by (rule printInt_atoi_roundtrip) simp

text \<open>
  The buffer of \<^verbatim>\<open>printInt\<close>.  In both bases that \<^verbatim>\<open>printf\<close> uses, the digits and the sign of every 32-bit
  value fit into the 16-byte buffer.
\<close>

theorem printInt_buffer:
  "base = 10 \<or> base = 16 \<Longrightarrow> \<exists>out. printInt n base sign = Some out \<and> length out \<le> 11"
  using int_chars_some [of base user_digits n sign] by (auto simp: printInt_def)

end
