(* ===== verification/Console.thy ===== *)
theory Console
  imports Kalloc Printf
begin

text \<open>
  Console output (\<^verbatim>\<open>console.c\<close>): the cursor and scrolling of the text screen, \<^verbatim>\<open>consputc\<close>, \<^verbatim>\<open>printInt\<close>,
  \<^verbatim>\<open>cprintf\<close> and \<^verbatim>\<open>consoleWrite\<close>.  The screen memory is a function from cell numbers to 16-bit cells and
  the display controller is its index register with its bank of data registers, of which 14 and 15
  hold the cursor position.  The serial port (\<^verbatim>\<open>uart.c\<close>) records the bytes sent to it; its busy-wait on
  the line status has no effect besides the delay.  Text arguments follow \<open>Printf\<close>.
\<close>

unbundle bit_operations_syntax

section \<open>Definitions\<close>

record ConsoleState =
  Locking :: int
  Panicked :: int
  uart :: int
  serial :: "byte list"
  crtIndex :: byte
  crtReg :: "byte \<Rightarrow> byte"
  crt :: "int \<Rightarrow> u16"

record console = kalloc +
  cons :: ConsoleState

interpretation cons_field: hw_field cons cons_update by unfold_locales simp_all

definition BACKSPACE :: int where "BACKSPACE = 0x100"
definition CRTPORT :: u16 where "CRTPORT = 0x3d4"

definition outputByteToCrt :: "u16 \<Rightarrow> byte \<Rightarrow> ConsoleState \<Rightarrow> ConsoleState" where
  "outputByteToCrt port v d =
     (if port = CRTPORT then d\<lparr>crtIndex := v\<rparr>
      else if port = CRTPORT + 1 then d\<lparr>crtReg := (crtReg d)(crtIndex d := v)\<rparr>
      else d)"

definition inputByteFromCrt :: "ConsoleState \<Rightarrow> byte" where
  "inputByteFromCrt d = crtReg d (crtIndex d)"

definition updCons :: "(ConsoleState \<Rightarrow> ConsoleState) \<Rightarrow> ('a console_scheme, unit) op" where
  "updCons f = modifyK (\<lambda>s. s\<lparr>cons := f (cons s)\<rparr>)"

definition uartputc :: "int \<Rightarrow> ('a console_scheme, unit) op" where
  "uartputc c =
     bindK (getK cons) (\<lambda>d.
     whenK (uart d \<noteq> 0) (updCons (\<lambda>d. d\<lparr>serial := serial d @ [word_of_int c]\<rparr>)))"

text \<open>The cursor position as \<^verbatim>\<open>cgaputc\<close> reads it, and the cell it stores for a character.\<close>

definition cell :: "int \<Rightarrow> u16" where
  "cell c = (word_of_int c AND 0xff) OR 0x0700"

definition scrollUp :: "int \<Rightarrow> (int \<Rightarrow> u16) \<Rightarrow> (int \<Rightarrow> u16)" where
  "scrollUp pos m =
     (let moved = (\<lambda>k. if 0 \<le> k \<and> k < 23 * 80 then m (k + 80) else m k)
      in (\<lambda>k. if pos \<le> k \<and> k < 24 * 80 then 0 else moved k))"

definition cgaputc :: "int \<Rightarrow> ('a console_scheme, unit) op" where
  "cgaputc c =
     bindK (updCons (outputByteToCrt CRTPORT 14)) (\<lambda>_.
     bindK (getK (\<lambda>s. push_bit 8 (uint (inputByteFromCrt (cons s))))) (\<lambda>hi.
     bindK (updCons (outputByteToCrt CRTPORT 15)) (\<lambda>_.
     bindK (getK (\<lambda>s. hi OR uint (inputByteFromCrt (cons s)))) (\<lambda>pos0.
     bindK (if c = 10 then returnK (pos0 + (80 - pos0 mod 80))
            else if c = BACKSPACE then returnK (if pos0 > 0 then pos0 - 1 else pos0)
            else bindK (updCons (\<lambda>d. d\<lparr>crt := (crt d)(pos0 := cell c)\<rparr>)) (\<lambda>_. returnK (pos0 + 1))) (\<lambda>pos1.
     if pos1 < 0 \<or> pos1 > 25 * 80 then panicK ''pos under/overflow''
     else bindK (if pos1 div 80 \<ge> 24
                 then bindK (updCons (\<lambda>d. d\<lparr>crt := scrollUp (pos1 - 80) (crt d)\<rparr>)) (\<lambda>_. returnK (pos1 - 80))
                 else returnK pos1) (\<lambda>pos.
     bindK (updCons (outputByteToCrt CRTPORT 14)) (\<lambda>_.
     bindK (updCons (outputByteToCrt (CRTPORT + 1) (word_of_int (drop_bit 8 pos)))) (\<lambda>_.
     bindK (updCons (outputByteToCrt CRTPORT 15)) (\<lambda>_.
     bindK (updCons (outputByteToCrt (CRTPORT + 1) (word_of_int pos))) (\<lambda>_.
     updCons (\<lambda>d. d\<lparr>crt := (crt d)(pos := cell 32)\<rparr>)))))))))))"

definition consputc :: "int \<Rightarrow> ('a console_scheme, unit) op" where
  "consputc c =
     bindK (getK cons) (\<lambda>d.
     if Panicked d \<noteq> 0 then bindK disableInterrupts (\<lambda>_. hangK)
     else bindK (if c = BACKSPACE
                 then bindK (uartputc 8) (\<lambda>_. bindK (uartputc 32) (\<lambda>_. uartputc 8))
                 else uartputc c) (\<lambda>_.
     cgaputc c))"

fun consputs :: "int list \<Rightarrow> ('a console_scheme, unit) op" where
  "consputs [] = returnK ()"
| "consputs (c # cs) = bindK (consputc c) (\<lambda>_. consputs cs)"

text \<open>A \<^verbatim>\<open>char\<close> as an \<^verbatim>\<open>int\<close>: masked with 0xff in the format string, sign-extended in string arguments.\<close>

definition uchar_int :: "char \<Rightarrow> int" where
  "uchar_int c = of_char c"

definition schar_int :: "char \<Rightarrow> int" where
  "schar_int c = (if (of_char c :: int) < 128 then of_char c else of_char c - 256)"

definition kernel_digits :: string where
  "kernel_digits = ''0123456789abcdef''"

definition console_printInt :: "u32 \<Rightarrow> nat \<Rightarrow> bool \<Rightarrow> ('a console_scheme, unit) op" where
  "console_printInt xx base sign =
     (case int_chars kernel_digits xx base sign of
        None \<Rightarrow> faultK
      | Some out \<Rightarrow> consputs (map schar_int out))"

fun cprintf_loop :: "string \<Rightarrow> fmt_arg list \<Rightarrow> ('a console_scheme, unit) op" where
  "cprintf_loop [] argp = returnK ()"
| "cprintf_loop (c # fmt) argp =
     (if c = CHR 0x00 then returnK ()
      else if c \<noteq> CHR ''%'' then bindK (consputc (uchar_int c)) (\<lambda>_. cprintf_loop fmt argp)
      else case fmt of
        [] \<Rightarrow> returnK ()
      | d # fmt' \<Rightarrow>
        if d = CHR 0x00 then returnK ()
        else if d = CHR ''d'' then
          case argp of
            IntArg n # argp' \<Rightarrow> bindK (console_printInt n 10 True) (\<lambda>_. cprintf_loop fmt' argp')
          | _ \<Rightarrow> faultK
        else if d = CHR ''x'' \<or> d = CHR ''p'' then
          case argp of
            IntArg n # argp' \<Rightarrow> bindK (console_printInt n 16 False) (\<lambda>_. cprintf_loop fmt' argp')
          | _ \<Rightarrow> faultK
        else if d = CHR ''s'' then
          case argp of
            StrArg s # argp' \<Rightarrow>
              bindK (consputs (map schar_int
                (case s of None \<Rightarrow> ''(null)'' | Some str \<Rightarrow> takeWhile (\<lambda>c. c \<noteq> CHR 0x00) str))) (\<lambda>_.
              cprintf_loop fmt' argp')
          | _ \<Rightarrow> faultK
        else if d = CHR ''%'' then bindK (consputc (uchar_int (CHR ''%''))) (\<lambda>_. cprintf_loop fmt' argp)
        else bindK (consputc (uchar_int (CHR ''%''))) (\<lambda>_.
             bindK (consputc (uchar_int d)) (\<lambda>_. cprintf_loop fmt' argp)))"

definition cprintf :: "string option \<Rightarrow> fmt_arg list \<Rightarrow> ('a console_scheme, unit) op" where
  "cprintf fmt args =
     bindK (getK (\<lambda>s. Locking (cons s))) (\<lambda>locking.
     bindK (whenK (locking \<noteq> 0) (spinlockAcquire ConsLock)) (\<lambda>_.
     case fmt of
       None \<Rightarrow> panicK ''null fmt''
     | Some f \<Rightarrow>
         bindK (cprintf_loop f args) (\<lambda>_.
         whenK (locking \<noteq> 0) (spinlockRelease ConsLock))))"

definition consoleWrite :: "byte list \<Rightarrow> ('a console_scheme, int) op" where
  "consoleWrite buf =
     bindK (spinlockAcquire ConsLock) (\<lambda>_.
     bindK (consputs (map uint buf)) (\<lambda>_.
     bindK (spinlockRelease ConsLock) (\<lambda>_.
     returnK (int (length buf)))))"

section \<open>The screen as a terminal\<close>

text \<open>
  The code implements a terminal of 24 rows of 80 cells (the 25th row of the display is never used):
  a list of cells and a cursor.  Printing past the last row drops the first row and appends a blank
  one, and the cursor is shown on a space.
\<close>

type_synonym terminal = "u16 list \<times> nat"

definition term_put :: "int \<Rightarrow> terminal \<Rightarrow> terminal" where
  "term_put c = (\<lambda>(cells, p).
     let (cells1, p1) =
           (if c = 10 then (cells, (p div 80 + 1) * 80)
            else if c = BACKSPACE then (cells, p - 1)
            else (cells[p := cell c], p + 1));
         (cells2, p2) =
           (if p1 < 1920 then (cells1, p1) else (drop 80 cells1 @ replicate 80 0, p1 - 80))
     in (cells2[p2 := cell 32], p2))"

definition cursor :: "ConsoleState \<Rightarrow> int" where
  "cursor d = uint (crtReg d 14) * 256 + uint (crtReg d 15)"

definition screen :: "(int \<Rightarrow> u16) \<Rightarrow> u16 list" where
  "screen m = map (\<lambda>k. m (int k)) [0..<1920]"

definition terminal_of :: "ConsoleState \<Rightarrow> terminal" where
  "terminal_of d = (screen (crt d), nat (cursor d))"

definition console_ok :: "ConsoleState \<Rightarrow> bool" where
  "console_ok d \<longleftrightarrow> cursor d < 1920 \<and> Panicked d = 0"

lemma length_screen [simp]: "length (screen m) = 1920"
  by (simp add: screen_def)

lemma nth_screen [simp]: "k < 1920 \<Longrightarrow> screen m ! k = m (int k)"
  by (simp add: screen_def)

lemma screen_upd: "0 \<le> p \<Longrightarrow> screen (m(p := v)) = (screen m)[nat p := v]"
  by (rule nth_equalityI) (auto simp: nth_list_update)

lemma screen_scroll: "screen (scrollUp 1840 m) = drop 80 (screen m) @ replicate 80 0"
  by (rule nth_equalityI) (auto simp: scrollUp_def nth_append add.commute)

lemma push_or_bytes: "push_bit 8 (uint (a :: byte)) OR uint (b :: byte) = uint a * 256 + uint b"
proof -
  have "push_bit 8 (uint a) AND uint b = 0"
  proof (rule bit_eqI)
    fix n
    show "bit (push_bit 8 (uint a) AND uint b) n \<longleftrightarrow> bit (0 :: int) n"
      by (auto simp: bit_simps dest: bit_imp_le_length)
  qed
  then have "push_bit 8 (uint a) OR uint b = push_bit 8 (uint a) + uint b"
    by (simp add: disjunctive_add_eq_or)
  then show ?thesis by (simp add: push_bit_eq_mult)
qed

lemma cursor_split:
  assumes "0 \<le> pos" and "pos < 65536"
  shows "uint (word_of_int (drop_bit 8 pos) :: byte) * 256 + uint (word_of_int pos :: byte) = pos"
  using assms by (simp add: drop_bit_eq_div uint_word_of_int take_bit_eq_mod)

lemma cursor_nonneg: "0 \<le> cursor d"
  by (simp add: cursor_def)

text \<open>What one call leaves in the controller and on the screen.\<close>

definition placed :: "int \<Rightarrow> (int \<Rightarrow> u16) \<Rightarrow> ConsoleState \<Rightarrow> ConsoleState" where
  "placed pos m d = d\<lparr>crtIndex := 15,
     crtReg := (crtReg d)(14 := word_of_int (drop_bit 8 pos), 15 := word_of_int pos),
     crt := m(pos := cell 32)\<rparr>"

lemma terminal_placed:
  "0 \<le> pos \<Longrightarrow> pos < 1920 \<Longrightarrow> terminal_of (placed pos m d) = ((screen m)[nat pos := cell 32], nat pos)"
  by (simp add: terminal_of_def placed_def cursor_def cursor_split screen_upd)

lemma placed_simps [simp]:
  "Locking (placed pos m d) = Locking d" "Panicked (placed pos m d) = Panicked d"
  "uart (placed pos m d) = uart d" "serial (placed pos m d) = serial d"
  by (simp_all add: placed_def)

lemma cursor_placed [simp]: "0 \<le> pos \<Longrightarrow> pos < 1920 \<Longrightarrow> cursor (placed pos m d) = pos"
  by (simp add: placed_def cursor_def cursor_split)

definition cga_effect :: "int \<Rightarrow> ConsoleState \<Rightarrow> ConsoleState" where
  "cga_effect c d =
     (let p0 = cursor d;
          p1 = (if c = 10 then p0 + (80 - p0 mod 80)
                else if c = BACKSPACE then (if p0 > 0 then p0 - 1 else p0) else p0 + 1);
          m1 = (if c = 10 \<or> c = BACKSPACE then crt d else (crt d)(p0 := cell c))
      in if p1 div 80 \<ge> 24 then placed (p1 - 80) (scrollUp (p1 - 80) m1) d else placed p1 m1 d)"

lemma cgaputc_run:
  assumes "console_ok (cons s)"
  shows "cgaputc c s = Ret () (s\<lparr>cons := cga_effect c (cons s)\<rparr>)"
proof -
  let ?p = "cursor (cons s)"
  have p: "0 \<le> ?p" "?p < 1920" using assms cursor_nonneg by (simp_all add: console_ok_def)
  have pos: "push_bit 8 (uint (crtReg (cons s) 14)) OR uint (crtReg (cons s) 15) = ?p"
    by (simp add: push_or_bytes cursor_def)
  have "0 \<le> ?p mod 80" "?p mod 80 < 80" by simp_all
  with p have b: "\<not> ?p + (80 - ?p mod 80) < 0" "\<not> 2000 < ?p + (80 - ?p mod 80)"
    "\<not> ?p + 1 < 0" "\<not> 2000 \<le> ?p" "\<not> 1920 < ?p - ?p mod 80"
    by linarith+
  have b': "\<not> (if 0 < ?p then ?p - 1 else ?p) < 0" "\<not> 2000 < (if 0 < ?p then ?p - 1 else ?p)"
    using p by (simp_all split: if_split)
  consider "c = 10" | "c = BACKSPACE" "c \<noteq> 10" | "c \<noteq> 10" "c \<noteq> BACKSPACE" by blast
  then show ?thesis
    by cases
      (simp_all add: cgaputc_def cga_effect_def kmonad updCons_def outputByteToCrt_def inputByteFromCrt_def
        CRTPORT_def pos placed_def Let_def fun_upd_twist b b' del: if_split)
qed

lemma cga_effect_terminal:
  assumes "console_ok d"
  shows "terminal_of (cga_effect c d) = term_put c (terminal_of d)"
    and "console_ok (cga_effect c d)"
    and "Locking (cga_effect c d) = Locking d \<and> uart (cga_effect c d) = uart d \<and> serial (cga_effect c d) = serial d"
proof -
  define p where "p = nat (cursor d)"
  have c: "cursor d = int p" "p < 1920"
    using assms cursor_nonneg [of d] by (simp_all add: console_ok_def p_def nat_less_iff)
  have line: "int p + (80 - int p mod 80) = int ((p div 80 + 1) * 80)"
    by (simp add: zdiv_int zmod_int minus_mod_eq_mult_div [symmetric] algebra_simps)
  have line_nat: "nat (80 + int (p div 80) * 80) = 80 + p div 80 * 80" by linarith
  have row: "p div 80 \<le> 23" using c(2) by simp
  have line_le: "(p div 80 + 1) * 80 \<le> 1920" using row by simp
  have *: "terminal_of (cga_effect c d) = term_put c (terminal_of d) \<and> console_ok (cga_effect c d)"
  proof -
    consider "c = 10" "(p div 80 + 1) * 80 = 1920" | "c = 10" "(p div 80 + 1) * 80 < 1920"
      | "c = BACKSPACE" "c \<noteq> 10" | "c \<noteq> 10" "c \<noteq> BACKSPACE" "p = 1919" | "c \<noteq> 10" "c \<noteq> BACKSPACE" "p < 1919"
      using line_le c(2) by linarith
    then show ?thesis
    proof cases
      case 1
      then have "cga_effect c d = placed 1840 (scrollUp 1840 (crt d)) d"
        using line by (simp add: cga_effect_def Let_def c)
      then show ?thesis
        using 1 assms by (simp add: terminal_placed screen_scroll console_ok_def)
          (simp add: term_put_def terminal_of_def c)
    next
      case 2
      then have "cga_effect c d = placed (int ((p div 80 + 1) * 80)) (crt d) d"
        unfolding cga_effect_def Let_def c line by simp
      then show ?thesis
        using 2 assms by (simp add: terminal_placed console_ok_def)
          (simp add: term_put_def terminal_of_def c line_nat)
    next
      case 3
      have "\<not> 24 \<le> (int p - 1) div 80" using c(2) by linarith
      with 3 have "cga_effect c d = placed (int (p - 1)) (crt d) d"
        using c by (simp add: cga_effect_def Let_def c of_nat_diff)
      then show ?thesis
        using 3 assms less_imp_diff_less [OF c(2), of "Suc 0"]
        by (simp add: terminal_placed console_ok_def) (simp add: term_put_def terminal_of_def c)
    next
      case 4
      then have "cga_effect c d = placed 1840 (scrollUp 1840 ((crt d)(1919 := cell c))) d"
        by (simp add: cga_effect_def Let_def c)
      then show ?thesis
        using 4 assms by (simp add: terminal_placed screen_scroll screen_upd console_ok_def)
          (simp add: term_put_def terminal_of_def c)
    next
      case 5
      then have "cga_effect c d = placed (int (p + 1)) ((crt d)(int p := cell c)) d"
        by (simp add: cga_effect_def Let_def c add.commute)
      then show ?thesis
        using 5 assms by (simp add: terminal_placed screen_upd console_ok_def)
          (simp add: term_put_def terminal_of_def c nat_add_distrib)
    qed
  qed
  from * show "terminal_of (cga_effect c d) = term_put c (terminal_of d)" "console_ok (cga_effect c d)"
    by simp_all
  show "Locking (cga_effect c d) = Locking d \<and> uart (cga_effect c d) = uart d \<and> serial (cga_effect c d) = serial d"
    by (simp add: cga_effect_def Let_def)
qed

section \<open>Sequences of characters\<close>

definition serial_bytes :: "int \<Rightarrow> byte list" where
  "serial_bytes c = (if c = BACKSPACE then [8, 32, 8] else [word_of_int c])"

text \<open>\<open>printed cs d d'\<close>: the console went from \<open>d\<close> to \<open>d'\<close> by printing the codes \<open>cs\<close>.\<close>

definition printed :: "int list \<Rightarrow> ConsoleState \<Rightarrow> ConsoleState \<Rightarrow> bool" where
  "printed cs d d' \<longleftrightarrow> terminal_of d' = fold term_put cs (terminal_of d) \<and> console_ok d' \<and>
     Locking d' = Locking d \<and> uart d' = uart d \<and>
     serial d' = serial d @ (if uart d = 0 then [] else concat (map serial_bytes cs))"

lemma printed_Nil [simp]: "console_ok d \<Longrightarrow> printed [] d d"
  by (simp add: printed_def)

lemma printed_append: "printed cs d d' \<Longrightarrow> printed cs' d' d'' \<Longrightarrow> printed (cs @ cs') d d''"
  by (auto simp: printed_def)

lemma console_ok_serial [simp]: "console_ok (d\<lparr>serial := b\<rparr>) = console_ok d"
  by (simp add: console_ok_def cursor_def)

lemma consputc_run:
  assumes "console_ok (cons s)"
  shows "\<exists>d. consputc c s = Ret () (s\<lparr>cons := d\<rparr>) \<and> printed [c] (cons s) d"
proof -
  define e where "e = (cons s)\<lparr>serial := serial (cons s) @ (if uart (cons s) = 0 then [] else serial_bytes c)\<rparr>"
  have e: "console_ok e" "terminal_of e = terminal_of (cons s)" "Locking e = Locking (cons s)"
      "uart e = uart (cons s)" "serial e = serial (cons s) @ (if uart (cons s) = 0 then [] else serial_bytes c)"
    using assms by (simp_all add: e_def terminal_of_def cursor_def)
  have "consputc c s = cgaputc c (s\<lparr>cons := e\<rparr>)"
    using assms
    by (simp add: consputc_def kmonad console_ok_def uartputc_def updCons_def e_def serial_bytes_def)
  also have "\<dots> = Ret () (s\<lparr>cons := cga_effect c e\<rparr>)"
    using e(1) by (simp add: cgaputc_run)
  finally show ?thesis
    using cga_effect_terminal [OF e(1), of c] e by (auto simp: printed_def)
qed

lemma consputs_run:
  "console_ok (cons s) \<Longrightarrow> \<exists>d. consputs cs s = Ret () (s\<lparr>cons := d\<rparr>) \<and> printed cs (cons s) d"
proof (induction cs arbitrary: s)
  case Nil
  then show ?case by (intro exI [of _ "cons s"]) simp
next
  case (Cons c cs)
  obtain d where d: "consputc c s = Ret () (s\<lparr>cons := d\<rparr>)" "printed [c] (cons s) d"
    using consputc_run [OF Cons.prems] by blast
  then have "console_ok (cons (s\<lparr>cons := d\<rparr>))" by (simp add: printed_def)
  from Cons.IH [OF this] obtain e where "consputs cs (s\<lparr>cons := d\<rparr>) = Ret () (s\<lparr>cons := e\<rparr>)" "printed cs d e"
    by auto
  then show ?case using d printed_append [OF d(2)] by (auto simp: kmonad)
qed

text \<open>
  The items of \<open>Printf\<close> as \<^verbatim>\<open>cprintf\<close> understands them: there is no \<^verbatim>\<open>%c\<close>, so it is an unknown directive.
\<close>

fun kernel_item_ok :: "item \<Rightarrow> bool" where
  "kernel_item_ok (Literal c) \<longleftrightarrow> c \<noteq> CHR ''%'' \<and> c \<noteq> CHR 0x00"
| "kernel_item_ok (Str s) \<longleftrightarrow> CHR 0x00 \<notin> set s"
| "kernel_item_ok (Chr n) \<longleftrightarrow> False"
| "kernel_item_ok (Unknown c) \<longleftrightarrow> c \<notin> set ''dxps%'' \<and> c \<noteq> CHR 0x00"
| "kernel_item_ok _ \<longleftrightarrow> True"

fun item_codes :: "item \<Rightarrow> int list" where
  "item_codes (Literal c) = [uchar_int c]"
| "item_codes Percent = [uchar_int (CHR ''%'')]"
| "item_codes (Unknown c) = [uchar_int (CHR ''%''), uchar_int c]"
| "item_codes it = map schar_int (item_output kernel_digits it)"

lemma cprintf_item:
  assumes "kernel_item_ok it"
  shows "cprintf_loop (item_source it @ fmt) (item_args it @ argp) =
    bindK (consputs (item_codes it)) (\<lambda>_. cprintf_loop fmt argp)"
  using assms
  by (cases it)
    (auto simp: console_printInt_def int_chars_decimal int_chars_hexadecimal takeWhile_no_nul bindK_assoc)

lemma cprintf_loop_items:
  "\<forall>it \<in> set its. kernel_item_ok it \<Longrightarrow>
   cprintf_loop (concat (map item_source its)) (concat (map item_args its)) s =
   consputs (concat (map item_codes its)) s"
proof (induction its arbitrary: s)
  case (Cons it its)
  have app: "consputs (cs @ cs') s = bindK (consputs cs) (\<lambda>_. consputs cs') s" for cs cs' and s :: "'a console_scheme"
    by (induction cs arbitrary: s) (simp_all add: kmonad split: outcome.split)
  show ?case
    using Cons by (simp add: cprintf_item app) (simp add: kmonad split: outcome.split)
qed simp

section \<open>Properties\<close>

definition cons_ready :: "nat \<Rightarrow> 'a console_scheme \<Rightarrow> bool" where
  "cons_ready i s \<longleftrightarrow> console_ok (cons s) \<and> (Locking (cons s) = 0 \<or> cpu_ok i s \<and> lock_free ConsLock s)"

definition cons_sync :: "nat \<Rightarrow> 'a console_scheme \<Rightarrow> 'a console_scheme" where
  "cons_sync i s = (if Locking (cons s) = 0 then s else resync i s)"

lemma cprintf_run:
  assumes "cons_ready i s" and "\<forall>it \<in> set its. kernel_item_ok it"
  shows "\<exists>d. cprintf (Some (concat (map item_source its))) (concat (map item_args its)) s =
      Ret () ((cons_sync i s)\<lparr>cons := d\<rparr>) \<and> printed (concat (map item_codes its)) (cons s) d"
proof (cases "Locking (cons s) = 0")
  case True
  then show ?thesis
    using assms consputs_run [of s "concat (map item_codes its)"]
    by (auto simp: cprintf_def kmonad cprintf_loop_items cons_ready_def cons_sync_def)
next
  case False
  then have s: "cpu_ok i s" "lock_free ConsLock s" "console_ok (cons s)"
    using assms(1) by (auto simp: cons_ready_def)
  then obtain d where "consputs (concat (map item_codes its)) (acquired i ConsLock s) =
      Ret () ((acquired i ConsLock s)\<lparr>cons := d\<rparr>)" "printed (concat (map item_codes its)) (cons s) d"
    using consputs_run [of "acquired i ConsLock s" "concat (map item_codes its)"] by auto
  then show ?thesis
    using s False assms(2)
    by (auto simp: cprintf_def kmonad cprintf_loop_items cons_sync_def
        spinlockAcquire_ok [of i] spinlockRelease_ok [of i])
qed

definition blank_console :: ConsoleState where
  "blank_console = \<lparr>Locking = 1, Panicked = 0, uart = 0, serial = [], crtIndex = 0, crtReg = (\<lambda>_. 0),
     crt = (\<lambda>_. 0)\<rparr>"

definition boot_console :: console where
  "boot_console = kalloc.extend boot_kalloc \<lparr>cons = blank_console\<rparr>"

lemma boot_console_ready: "cons_ready 0 boot_console"
  by (simp add: cons_ready_def boot_console_def boot_kalloc_def blank_console_def kalloc.defs console_ok_def
      cursor_def boot_cpu_ok boot_lock_free)

text \<open>
  C11: \<^verbatim>\<open>cprintf\<close> on the screen.  Called with the console lock free, \<^verbatim>\<open>cprintf\<close> returns, the text of the
  format's items appears on a 24 by 80 terminal that wraps and scrolls, the cursor never leaves it,
  and the interrupt flag is as before.
\<close>

theorem cprintf_terminal:
  assumes "cons_ready i s" and "\<forall>it \<in> set its. kernel_item_ok it"
  shows "\<exists>t. cprintf (Some (concat (map item_source its))) (concat (map item_args its)) s = Ret () t \<and>
    terminal_of (cons t) = fold term_put (concat (map item_codes its)) (terminal_of (cons s)) \<and>
    cursor (cons t) < 24 * 80 \<and> eflags t = eflags s"
  using cprintf_run [OF assms] by (auto simp: printed_def console_ok_def cons_sync_def resync_def)

theorem cprintf_terminal_witness:
  "\<exists>t. cprintf (Some ''a%d'') [IntArg 5] boot_console = Ret () t \<and>
    terminal_of (cons t) = fold term_put [0x61, 0x35] (terminal_of (cons boot_console))"
  using cprintf_terminal [OF boot_console_ready, of "[Literal CHR ''a'', Decimal 5]"]
  by (auto simp: show_int_def show_nat.simps kernel_digits_def uchar_int_def schar_int_def)

end
