(* ===== verification/Vm.thy ===== *)
theory Vm
  imports Console
begin

text \<open>
  Page tables (\<^verbatim>\<open>vm.c\<close>, \<^verbatim>\<open>mmu.h\<close>).  Page directories and page tables live in the byte memory of the kernel
  and are read and written as 32-bit words, exactly as the code and the processor do.  \<open>walk\<close> is the
  processor's own two-level lookup; the lemmas relate each operation to it.  The state adds the
  page-table base register, the kernel's own page directory, the linker symbol \<^verbatim>\<open>data\<close> and the
  per-processor segment descriptors and task state that context switches set.
\<close>

unbundle bit_operations_syntax

section \<open>Definitions\<close>

definition PTE_P :: u32 where [const_defs]: "PTE_P = 0x001"
definition PTE_W :: u32 where [const_defs]: "PTE_W = 0x002"
definition PTE_U :: u32 where [const_defs]: "PTE_U = 0x004"
definition NPDENTRIES :: nat where [const_defs]: "NPDENTRIES = 1024"
definition KERNLINK :: u32 where [const_defs]: "KERNLINK = 0x80000000 + 0x100000"
definition KSTACKSIZE :: u32 where [const_defs]: "KSTACKSIZE = 4096"

definition PDX :: "u32 \<Rightarrow> u32" where
  "PDX va = drop_bit 22 va AND 0x3FF"

definition PTX :: "u32 \<Rightarrow> u32" where
  "PTX va = drop_bit 12 va AND 0x3FF"

definition PGADDR :: "u32 \<Rightarrow> u32 \<Rightarrow> u32 \<Rightarrow> u32" where
  "PGADDR d t ofs = push_bit 22 d OR push_bit 12 t OR ofs"

definition PTE_ADDR :: "u32 \<Rightarrow> u32" where
  "PTE_ADDR pte = pte AND NOT 0xFFF"

definition PTE_FLAGS :: "u32 \<Rightarrow> u32" where
  "PTE_FLAGS pte = pte AND 0xFFF"

record Segdesc =
  lim_15_0 :: u32
  base_15_0 :: u32
  base_23_16 :: u32
  seg_type :: u32
  seg_s :: u32
  dpl :: u32
  seg_p :: u32
  lim_19_16 :: u32
  avl :: u32
  rsv1 :: u32
  db :: u32
  gran :: u32
  base_31_24 :: u32

definition SEG :: "u32 \<Rightarrow> u32 \<Rightarrow> u32 \<Rightarrow> u32 \<Rightarrow> Segdesc" where
  "SEG ty base lim pl =
     \<lparr>lim_15_0 = drop_bit 12 lim AND 0xffff, base_15_0 = base AND 0xffff,
      base_23_16 = drop_bit 16 base AND 0xff, seg_type = ty, seg_s = 1, dpl = pl, seg_p = 1,
      lim_19_16 = drop_bit 28 lim, avl = 0, rsv1 = 0, db = 1, gran = 1, base_31_24 = drop_bit 24 base\<rparr>"

definition SEG16 :: "u32 \<Rightarrow> u32 \<Rightarrow> u32 \<Rightarrow> u32 \<Rightarrow> Segdesc" where
  "SEG16 ty base lim pl =
     \<lparr>lim_15_0 = lim AND 0xffff, base_15_0 = base AND 0xffff,
      base_23_16 = drop_bit 16 base AND 0xff, seg_type = ty, seg_s = 1, dpl = pl, seg_p = 1,
      lim_19_16 = drop_bit 16 lim, avl = 0, rsv1 = 0, db = 1, gran = 0, base_31_24 = drop_bit 24 base\<rparr>"

record Taskstate =
  ts_link :: u32
  esp0 :: u32
  ss0 :: u16
  ts_padding1 :: u16
  ts_esp1 :: u32
  ts_ss1 :: u16
  ts_padding2 :: u16
  ts_esp2 :: u32
  ts_ss2 :: u16
  ts_padding3 :: u16
  ts_cr3 :: u32
  ts_eip :: u32
  ts_eflags :: u32
  ts_eax :: u32
  ts_ecx :: u32
  ts_edx :: u32
  ts_ebx :: u32
  ts_esp :: u32
  ts_ebp :: u32
  ts_esi :: u32
  ts_edi :: u32
  ts_es :: u16
  ts_padding4 :: u16
  ts_cs :: u16
  ts_padding5 :: u16
  ts_ss :: u16
  ts_padding6 :: u16
  ts_ds :: u16
  ts_padding7 :: u16
  ts_fs :: u16
  ts_padding8 :: u16
  ts_gs :: u16
  ts_padding9 :: u16
  ts_ldt :: u16
  ts_padding10 :: u16
  ts_t :: u16
  iomb :: u16

record MmuState =
  cr3 :: u32
  kernelPageDirectory :: u32
  kernelData :: u32
  Gdt :: "nat \<Rightarrow> nat \<Rightarrow> Segdesc"
  TaskstateAddr :: "nat \<Rightarrow> u32"
  Task :: "nat \<Rightarrow> Taskstate"

record vm = console +
  mmu :: MmuState

interpretation mmu_field: hw_field mmu mmu_update by unfold_locales simp_all

definition updMmu :: "(MmuState \<Rightarrow> MmuState) \<Rightarrow> ('a vm_scheme, unit) op" where
  "updMmu f = modifyK (\<lambda>s. s\<lparr>mmu := f (mmu s)\<rparr>)"

definition readWord :: "u32 \<Rightarrow> ('a vm_scheme, u32) op" where
  "readWord a = getK (\<lambda>s. load32 (mem s) a)"

definition writeWord :: "u32 \<Rightarrow> u32 \<Rightarrow> ('a vm_scheme, unit) op" where
  "writeWord a v = modifyK (\<lambda>s. s\<lparr>mem := store32 (mem s) a v\<rparr>)"

definition zeroPage :: "u32 \<Rightarrow> ('a vm_scheme, unit) op" where
  "zeroPage p = modifyK (\<lambda>s. s\<lparr>mem := memset (mem s) p 0 PGSIZE\<rparr>)"

definition setGdt :: "nat \<Rightarrow> nat \<Rightarrow> Segdesc \<Rightarrow> MmuState \<Rightarrow> MmuState" where
  "setGdt c k desc m = m\<lparr>Gdt := (Gdt m)(c := (Gdt m c)(k := desc))\<rparr>"

definition initialiseGDT :: "('a vm_scheme, unit) op" where
  "initialiseGDT =
     bindK cpuId (\<lambda>c.
     bindK (updMmu (setGdt c 1 (SEG 0xA 0 0xffffffff 0))) (\<lambda>_.
     bindK (updMmu (setGdt c 2 (SEG 0x2 0 0xffffffff 0))) (\<lambda>_.
     bindK (updMmu (setGdt c 3 (SEG 0xA 0 0xffffffff 3))) (\<lambda>_.
     updMmu (setGdt c 4 (SEG 0x2 0 0xffffffff 3))))))"

text \<open>\<^verbatim>\<open>getPageTableEntry\<close> returns the address of the entry, or the null pointer.\<close>

definition getPageTableEntry :: "u32 \<Rightarrow> u32 \<Rightarrow> bool \<Rightarrow> ('a vm_scheme, u32) op" where
  "getPageTableEntry pgdir va alloc =
     (let pde = pgdir + 4 * PDX va in
      bindK (readWord pde) (\<lambda>e.
      if e AND PTE_P \<noteq> 0 then returnK (P2V (PTE_ADDR e) + 4 * PTX va)
      else if \<not> alloc then returnK 0
      else bindK allocatePhysicalMemoryPage (\<lambda>pgtab.
        if pgtab = 0 then returnK 0
        else bindK (zeroPage pgtab) (\<lambda>_.
        bindK (writeWord pde (V2P pgtab OR PTE_P OR PTE_W OR PTE_U)) (\<lambda>_.
        returnK (pgtab + 4 * PTX va))))))"

text \<open>
  The loop of \<^verbatim>\<open>createPageTableEntries\<close> ends when the page reached is the last one.  Both are
  page-aligned, so it makes at most as many rounds as there are pages, which is the bound passed in.
\<close>

fun createPageTableEntries_loop :: "nat \<Rightarrow> u32 \<Rightarrow> u32 \<Rightarrow> u32 \<Rightarrow> u32 \<Rightarrow> u32 \<Rightarrow> ('a vm_scheme, int) op" where
  "createPageTableEntries_loop 0 pgdir a lastp pa perm = hangK"
| "createPageTableEntries_loop (Suc n) pgdir a lastp pa perm =
     bindK (getPageTableEntry pgdir a True) (\<lambda>pte.
     if pte = 0 then returnK (-1)
     else bindK (readWord pte) (\<lambda>e.
     if e AND PTE_P \<noteq> 0 then panicK ''remap''
     else bindK (writeWord pte (pa OR perm OR PTE_P)) (\<lambda>_.
     if a = lastp then returnK 0
     else createPageTableEntries_loop n pgdir (a + PGSIZE) lastp (pa + PGSIZE) perm)))"

definition createPageTableEntries :: "u32 \<Rightarrow> u32 \<Rightarrow> u32 \<Rightarrow> u32 \<Rightarrow> u32 \<Rightarrow> ('a vm_scheme, int) op" where
  "createPageTableEntries pgdir va sz pa perm =
     createPageTableEntries_loop 0x100000 pgdir (PGROUNDDOWN va) (PGROUNDDOWN (va + sz - 1)) pa perm"

text \<open>
  \<^verbatim>\<open>releaseUserPages\<close> skips to the next directory entry when a table is missing.  Each round advances by at
  least a page, so \<open>0x100000\<close> rounds cover the address space; a loop that has not ended by then has
  wrapped around and never ends.
\<close>

fun releaseUserPages_loop :: "nat \<Rightarrow> u32 \<Rightarrow> u32 \<Rightarrow> u32 \<Rightarrow> ('a vm_scheme, unit) op" where
  "releaseUserPages_loop 0 pgdir a oldsz = (if a < oldsz then hangK else returnK ())"
| "releaseUserPages_loop (Suc n) pgdir a oldsz =
     (if \<not> a < oldsz then returnK ()
      else bindK (getPageTableEntry pgdir a False) (\<lambda>pte.
        if pte = 0 then releaseUserPages_loop n pgdir (PGADDR (PDX a + 1) 0 0 - PGSIZE + PGSIZE) oldsz
        else bindK (readWord pte) (\<lambda>e.
          if e AND PTE_P \<noteq> 0 then
            if PTE_ADDR e = 0 then panicK ''freePhysicalMemoryPage''
            else bindK (freePhysicalMemoryPage (P2V (PTE_ADDR e))) (\<lambda>_.
                 bindK (writeWord pte 0) (\<lambda>_.
                 releaseUserPages_loop n pgdir (a + PGSIZE) oldsz))
          else releaseUserPages_loop n pgdir (a + PGSIZE) oldsz)))"

definition releaseUserPages :: "u32 \<Rightarrow> u32 \<Rightarrow> u32 \<Rightarrow> ('a vm_scheme, u32) op" where
  "releaseUserPages pgdir oldsz newsz =
     (if newsz \<ge> oldsz then returnK oldsz
      else bindK (releaseUserPages_loop 0x100000 pgdir (PGROUNDUP newsz) oldsz) (\<lambda>_. returnK newsz))"

definition freeMemoryAndPageTable :: "u32 \<Rightarrow> ('a vm_scheme, unit) op" where
  "freeMemoryAndPageTable pgdir =
     (if pgdir = 0 then panicK ''freeMemoryAndPageTable: no pgdir''
      else bindK (releaseUserPages pgdir KERNBASE 0) (\<lambda>_.
      bindK (foreachK [0..<NPDENTRIES] (\<lambda>i.
        bindK (readWord (pgdir + 4 * of_nat i)) (\<lambda>e.
        whenK (e AND PTE_P \<noteq> 0) (freePhysicalMemoryPage (P2V (PTE_ADDR e)))))) (\<lambda>_.
      freePhysicalMemoryPage pgdir)))"

definition kernelMemoryMap :: "u32 \<Rightarrow> (u32 \<times> u32 \<times> u32 \<times> u32) list" where
  "kernelMemoryMap data =
     [(KERNBASE, 0, EXTMEM, PTE_W),
      (KERNLINK, V2P KERNLINK, V2P data, 0),
      (data, V2P data, PHYSTOP, PTE_W),
      (DEVSPACE, DEVSPACE, 0, PTE_W)]"

fun mapKernel :: "u32 \<Rightarrow> (u32 \<times> u32 \<times> u32 \<times> u32) list \<Rightarrow> ('a vm_scheme, u32) op" where
  "mapKernel pgdir [] = returnK pgdir"
| "mapKernel pgdir ((virt, phys_start, phys_end, perm) # ks) =
     bindK (createPageTableEntries pgdir virt (phys_end - phys_start) phys_start perm) (\<lambda>r.
     if r < 0 then bindK (freeMemoryAndPageTable pgdir) (\<lambda>_. returnK 0)
     else mapKernel pgdir ks)"

definition setupKernelVirtualMemory :: "('a vm_scheme, u32) op" where
  "setupKernelVirtualMemory =
     bindK allocatePhysicalMemoryPage (\<lambda>pgdir.
     if pgdir = 0 then returnK 0
     else bindK (zeroPage pgdir) (\<lambda>_.
     if P2V PHYSTOP > DEVSPACE then panicK ''PHYSTOP too high''
     else bindK (getK (\<lambda>s. kernelData (mmu s))) (\<lambda>data.
     mapKernel pgdir (kernelMemoryMap data))))"

definition switchToKernelVirtualMemory :: "('a vm_scheme, unit) op" where
  "switchToKernelVirtualMemory = updMmu (\<lambda>m. m\<lparr>cr3 := V2P (kernelPageDirectory m)\<rparr>)"

definition allocateKernelVirtualMemory :: "('a vm_scheme, unit) op" where
  "allocateKernelVirtualMemory =
     bindK setupKernelVirtualMemory (\<lambda>d.
     bindK (updMmu (\<lambda>m. m\<lparr>kernelPageDirectory := d\<rparr>)) (\<lambda>_.
     switchToKernelVirtualMemory))"

text \<open>The argument is the kernel stack and the page directory of the process, \<open>None\<close> for a null process.\<close>

definition switchToUserVirtualMemory :: "(u32 \<times> u32) option \<Rightarrow> ('a vm_scheme, unit) op" where
  "switchToUserVirtualMemory p =
     (case p of
        None \<Rightarrow> panicK ''switchToUserVirtualMemory: no process''
      | Some (kstack, pgdir) \<Rightarrow>
          if kstack = 0 then panicK ''switchToUserVirtualMemory: no kstack''
          else if pgdir = 0 then panicK ''switchToUserVirtualMemory: no pgdir''
          else bindK pushCli (\<lambda>_.
            bindK myCpu (\<lambda>c.
            bindK (updMmu (\<lambda>m. setGdt c 5 (SEG16 0x9 (TaskstateAddr m c) (104 - 1) 0) m)) (\<lambda>_.
            bindK (updMmu (\<lambda>m. setGdt c 5 ((Gdt m c 5)\<lparr>seg_s := 0\<rparr>) m)) (\<lambda>_.
            bindK (updMmu (\<lambda>m. m\<lparr>Task := (Task m)(c := (Task m c)\<lparr>ss0 := push_bit 3 2\<rparr>)\<rparr>)) (\<lambda>_.
            bindK (updMmu (\<lambda>m. m\<lparr>Task := (Task m)(c := (Task m c)\<lparr>esp0 := kstack + KSTACKSIZE\<rparr>)\<rparr>)) (\<lambda>_.
            bindK (updMmu (\<lambda>m. m\<lparr>Task := (Task m)(c := (Task m c)\<lparr>iomb := 0xFFFF\<rparr>)\<rparr>)) (\<lambda>_.
            bindK (updMmu (\<lambda>m. m\<lparr>cr3 := V2P pgdir\<rparr>)) (\<lambda>_.
            popCli)))))))))"

definition initialiseUserVirtualMemory :: "u32 \<Rightarrow> byte list \<Rightarrow> ('a vm_scheme, unit) op" where
  "initialiseUserVirtualMemory pgdir init =
     (if length init \<ge> 4096 then panicK ''initialiseUserVirtualMemory: more than a page''
      else bindK allocatePhysicalMemoryPage (\<lambda>p.
      if p = 0 then faultK
      else bindK (zeroPage p) (\<lambda>_.
      bindK (createPageTableEntries pgdir 0 PGSIZE (V2P p) (PTE_W OR PTE_U)) (\<lambda>_.
      modifyK (\<lambda>s. s\<lparr>mem := write_bytes (mem s) p init\<rparr>)))))"

fun allocateMemoryAndPageTables_loop :: "nat \<Rightarrow> u32 \<Rightarrow> u32 \<Rightarrow> u32 \<Rightarrow> u32 \<Rightarrow> ('a vm_scheme, u32) op" where
  "allocateMemoryAndPageTables_loop 0 pgdir a oldsz newsz = (if a < newsz then hangK else returnK newsz)"
| "allocateMemoryAndPageTables_loop (Suc n) pgdir a oldsz newsz =
     (if \<not> a < newsz then returnK newsz
      else bindK allocatePhysicalMemoryPage (\<lambda>p.
        if p = 0 then
          bindK (cprintf (Some (''allocateMemoryAndPageTables out of memory'' @ [CHR 0x0A])) []) (\<lambda>_.
          bindK (releaseUserPages pgdir newsz oldsz) (\<lambda>_. returnK 0))
        else bindK (zeroPage p) (\<lambda>_.
          bindK (createPageTableEntries pgdir a PGSIZE (V2P p) (PTE_W OR PTE_U)) (\<lambda>r.
          if r < 0 then
            bindK (cprintf (Some (''allocateMemoryAndPageTables out of memory (2)'' @ [CHR 0x0A])) []) (\<lambda>_.
            bindK (releaseUserPages pgdir newsz oldsz) (\<lambda>_.
            bindK (freePhysicalMemoryPage p) (\<lambda>_. returnK 0)))
          else allocateMemoryAndPageTables_loop n pgdir (a + PGSIZE) oldsz newsz))))"

definition allocateMemoryAndPageTables :: "u32 \<Rightarrow> u32 \<Rightarrow> u32 \<Rightarrow> ('a vm_scheme, u32) op" where
  "allocateMemoryAndPageTables pgdir oldsz newsz =
     (if newsz \<ge> KERNBASE then returnK 0
      else if newsz < oldsz then returnK oldsz
      else allocateMemoryAndPageTables_loop 0x100000 pgdir (PGROUNDUP oldsz) oldsz newsz)"

definition clearPTEU :: "u32 \<Rightarrow> u32 \<Rightarrow> ('a vm_scheme, unit) op" where
  "clearPTEU pgdir uva =
     bindK (getPageTableEntry pgdir uva False) (\<lambda>pte.
     if pte = 0 then panicK ''clearPTEU''
     else bindK (readWord pte) (\<lambda>e. writeWord pte (e AND NOT PTE_U)))"

fun copyProcessPageTable_loop :: "nat \<Rightarrow> u32 \<Rightarrow> u32 \<Rightarrow> u32 \<Rightarrow> u32 \<Rightarrow> ('a vm_scheme, u32) op" where
  "copyProcessPageTable_loop 0 pgdir d i memorySize = (if i < memorySize then hangK else returnK d)"
| "copyProcessPageTable_loop (Suc n) pgdir d i memorySize =
     (if \<not> i < memorySize then returnK d
      else bindK (getPageTableEntry pgdir i False) (\<lambda>pte.
        if pte = 0 then panicK ''copyProcessPageTable: pte should exist''
        else bindK (readWord pte) (\<lambda>e.
          if e AND PTE_P = 0 then panicK ''copyProcessPageTable: page not present''
          else bindK allocatePhysicalMemoryPage (\<lambda>p.
            if p = 0 then bindK (freeMemoryAndPageTable d) (\<lambda>_. returnK 0)
            else bindK (modifyK (\<lambda>s. s\<lparr>mem := memmove (mem s) p (P2V (PTE_ADDR e)) PGSIZE\<rparr>)) (\<lambda>_.
              bindK (createPageTableEntries d i PGSIZE (V2P p) (PTE_FLAGS e)) (\<lambda>r.
              if r < 0 then bindK (freeMemoryAndPageTable d) (\<lambda>_. returnK 0)
              else copyProcessPageTable_loop n pgdir d (i + PGSIZE) memorySize))))))"

definition copyProcessPageTable :: "u32 \<Rightarrow> u32 \<Rightarrow> ('a vm_scheme, u32) op" where
  "copyProcessPageTable pgdir memorySize =
     bindK setupKernelVirtualMemory (\<lambda>d.
     if d = 0 then returnK 0
     else copyProcessPageTable_loop 0x100001 pgdir d 0 memorySize)"

text \<open>
  \<^verbatim>\<open>mapVirtualAddressToKernelAddress\<close> dereferences the entry without checking that there is one.
\<close>

definition mapVirtualAddressToKernelAddress :: "u32 \<Rightarrow> u32 \<Rightarrow> ('a vm_scheme, u32) op" where
  "mapVirtualAddressToKernelAddress pgdir uva =
     bindK (getPageTableEntry pgdir uva False) (\<lambda>pte.
     if pte = 0 then faultK
     else bindK (readWord pte) (\<lambda>e.
     if e AND PTE_P = 0 then returnK 0
     else if e AND PTE_U = 0 then returnK 0
     else returnK (P2V (PTE_ADDR e))))"

function copyToUserVirtualMemory :: "u32 \<Rightarrow> u32 \<Rightarrow> byte list \<Rightarrow> ('a vm_scheme, int) op" where
  "copyToUserVirtualMemory pgdir va buf s =
     (if buf = [] then Ret 0 s
      else let va0 = PGROUNDDOWN va;
               n = min (unat (PGSIZE - (va - va0))) (length buf) in
        bindK (mapVirtualAddressToKernelAddress pgdir va0) (\<lambda>pa0.
        if pa0 = 0 then returnK (-1)
        else bindK (modifyK (\<lambda>s. s\<lparr>mem := write_bytes (mem s) (pa0 + (va - va0)) (take n buf)\<rparr>)) (\<lambda>_ t.
        if n = 0 then Hang else copyToUserVirtualMemory pgdir (va0 + PGSIZE) (drop n buf) t)) s)"
  by pat_completeness auto
termination
  by (relation "measure (\<lambda>(pgdir, va, buf, s). length buf)") auto

declare copyToUserVirtualMemory.simps [simp del]

section \<open>Words in pages\<close>

lemma unat_word_index:
  fixes a :: u32
  assumes "unat a mod 4 = 0" and "k < 4"
  shows "unat (a + of_nat k) = unat a + k"
proof -
  obtain q where q: "unat a = 4 * q" using assms(1) by (auto elim: dvdE)
  then have "q < 1073741824" using unat_u32_bound [of a] by linarith
  then have "unat a + k < 4294967296" using assms(2) q by linarith
  then show ?thesis by (rule unat_add_of_nat)
qed

lemma word_offsets: "(i :: u32) \<in> {0, 1, 2, 3} \<Longrightarrow> \<exists>k < 4. i = of_nat k"
  by (intro exI [of _ "unat i"]) auto

lemma load32_store32_other:
  assumes "unat a mod 4 = 0" "unat b mod 4 = 0" "a \<noteq> b"
  shows "load32 (store32 m a v) b = load32 m b"
proof (rule load32_cong)
  fix i :: u32 assume "i \<in> {0, 1, 2, 3}"
  then obtain k where k: "k < 4" "i = of_nat k" using word_offsets by blast
  have "b + i \<noteq> a + of_nat j" if "j < 4" for j
  proof
    assume "b + i = a + of_nat j"
    then have "unat b + k = unat a + j"
      using unat_word_index [OF assms(2) k(1)] unat_word_index [OF assms(1) that] k(2) by simp
    moreover obtain q q' where q: "unat a = 4 * q" "unat b = 4 * q'"
      using assms(1,2) by (auto elim!: dvdE)
    ultimately have "(4 * q' + k) div 4 = (4 * q + j) div 4" by simp
    then have "unat a = unat b" using that k(1) q by simp
    then show False using assms(3) by (simp add: word_unat_eq_iff)
  qed
  from this [of 0] this [of 1] this [of 2] this [of 3]
  show "store32 m a v (b + i) = m (b + i)" by (simp add: store32_apply)
qed

lemma entry_unat:
  assumes "page_aligned d" and "unat i < 1024"
  shows "unat (d + 4 * i) = unat d + 4 * unat i"
proof -
  obtain k where k: "unat d = 4096 * k" using assms(1) by (rule page_multiple)
  have i: "unat (4 * i) = 4 * unat i"
    using assms(2) by (simp add: unat_word_ariths)
  moreover have "k < 1048576" using k unat_u32_bound [of d] by linarith
  then have "unat d + 4 * unat i < 4294967296" using assms(2) k by linarith
  ultimately show ?thesis by (simp add: unat_add_u32)
qed

lemma entry_aligned:
  assumes "page_aligned d" and "unat i < 1024"
  shows "unat (d + 4 * i) mod 4 = 0"
proof -
  obtain k where "unat d = 4096 * k" using assms(1) by (rule page_multiple)
  then have "unat (d + 4 * i) = 4 * (1024 * k + unat i)" using assms by (simp add: entry_unat)
  then show ?thesis by simp
qed

lemma entry_eq:
  assumes "page_aligned d" "page_aligned d'" "unat i < 1024" "unat j < 1024"
  shows "d + 4 * i = d' + 4 * j \<longleftrightarrow> d = d' \<and> i = j"
proof
  assume eq: "d + 4 * i = d' + 4 * j"
  obtain k where k: "unat d = 4096 * k" using assms(1) by (rule page_multiple)
  obtain k' where k': "unat d' = 4096 * k'" using assms(2) by (rule page_multiple)
  have "4096 * k + 4 * unat i = 4096 * k' + 4 * unat j"
    using arg_cong [OF eq, of unat] assms by (simp add: entry_unat k k')
  moreover from this have "(4096 * k + 4 * unat i) div 4096 = (4096 * k' + 4 * unat j) div 4096" by simp
  then have "k = k'" using assms(3,4) by simp
  ultimately have "k = k'" "unat i = unat j" by simp_all
  then show "d = d' \<and> i = j" using k k' by (simp add: word_unat_eq_iff)
qed simp

lemma entry_in_page:
  assumes "page_aligned d" "unat i < 1024" "k < 4"
  shows "in_page d (d + 4 * i + of_nat k)"
proof -
  have "unat (4 * i + of_nat k) < 4096"
    using assms(2,3) by (simp add: unat_word_ariths unat_of_nat)
  then show ?thesis by (simp add: in_page_def add.assoc)
qed

lemma load32_page_cong:
  assumes "page_aligned d" "unat i < 1024" and "\<And>a. in_page d a \<Longrightarrow> m' a = m a"
  shows "load32 m' (d + 4 * i) = load32 m (d + 4 * i)"
proof (rule load32_cong)
  fix j :: u32 assume "j \<in> {0, 1, 2, 3}"
  then obtain k where "k < 4" "j = of_nat k" using word_offsets by blast
  then show "m' (d + 4 * i + j) = m (d + 4 * i + j)"
    using assms entry_in_page [OF assms(1,2)] by blast
qed

lemma store32_outside_page:
  assumes "page_aligned d" "unat i < 1024" "\<not> in_page d a"
  shows "store32 m (d + 4 * i) v a = m a"
  using assms entry_in_page [OF assms(1,2), of 0] entry_in_page [OF assms(1,2), of 1]
    entry_in_page [OF assms(1,2), of 2] entry_in_page [OF assms(1,2), of 3]
  by (auto simp: store32_apply)

lemma memset_page: "memset m p c PGSIZE a = (if in_page p a then ucast c else m a)"
  by (simp add: memset_apply in_page_def PGSIZE_def)

lemma load32_zero_page:
  assumes "page_aligned p" "unat i < 1024"
  shows "load32 (memset m p 0 PGSIZE) (p + 4 * i) = 0"
  using entry_in_page [OF assms, of 0] entry_in_page [OF assms, of 1]
    entry_in_page [OF assms, of 2] entry_in_page [OF assms, of 3]
  by (simp add: load32_def memset_page)

lemma load32_other_page:
  assumes "page_aligned d" "page_aligned p" "d \<noteq> p" "unat i < 1024"
  shows "load32 (memset m p c PGSIZE) (d + 4 * i) = load32 m (d + 4 * i)"
  using assms in_page_unique [of d p]
  by (intro load32_page_cong) (auto simp: memset_page)

section \<open>Entries\<close>

lemma PDX_take: "PDX va = take_bit 10 (drop_bit 22 va)"
  by (simp add: PDX_def take_bit_eq_mask mask_eq_exp_minus_1)

lemma PTX_take: "PTX va = take_bit 10 (drop_bit 12 va)"
  by (simp add: PTX_def take_bit_eq_mask mask_eq_exp_minus_1)

lemma PDX_bound [simp]: "unat (PDX va) < 1024"
  using take_bit_nat_less_exp [of 10] by (simp add: PDX_take unsigned_take_bit_eq)

lemma PTX_bound [simp]: "unat (PTX va) < 1024"
  using take_bit_nat_less_exp [of 10] by (simp add: PTX_take unsigned_take_bit_eq)

lemma bit_0xFFF: "n < 32 \<Longrightarrow> bit (0xFFF :: u32) n \<longleftrightarrow> n < 12"
proof -
  assume "n < 32"
  have "(0xFFF :: u32) = mask 12" by (simp add: mask_eq_exp_minus_1)
  then have "bit (0xFFF :: u32) n \<longleftrightarrow> bit (mask 12 :: u32) n" by (simp only:)
  also have "\<dots> \<longleftrightarrow> n < 12" using \<open>n < 32\<close> unfolding bit_mask_iff by simp
  finally show ?thesis .
qed

lemma aligned_low_bits:
  fixes x :: u32
  assumes "page_aligned x" and "n < 12"
  shows "\<not> bit x n"
proof -
  have "take_bit 12 x = x mod PGSIZE" by (simp add: take_bit_eq_mod PGSIZE_def)
  then have "\<not> bit (take_bit 12 x) n" using assms(1) by (simp add: page_aligned_def)
  with assms(2) show ?thesis by (simp add: bit_simps)
qed

lemma same_page:
  assumes "PDX a = PDX b" "PTX a = PTX b" "page_aligned a" "page_aligned b"
  shows "a = b"
proof (rule bit_word_eqI)
  fix n :: nat assume n: "n < LENGTH(32)"
  have mid: "bit x n \<longleftrightarrow> bit (PTX x) (n - 12)" if "12 \<le> n" "n < 22" for x :: u32
    using that n by (auto simp: PTX_take bit_simps)
  have high: "bit x n \<longleftrightarrow> bit (PDX x) (n - 22)" if "22 \<le> n" for x :: u32
    using that n by (auto simp: PDX_take bit_simps)
  consider "n < 12" | "12 \<le> n" "n < 22" | "22 \<le> n" by linarith
  then show "bit a n \<longleftrightarrow> bit b n"
    by cases (simp_all add: assms(1,2) aligned_low_bits [OF assms(3)] aligned_low_bits [OF assms(4)] mid [of a] mid [of b] high [of a] high [of b])
qed

lemma PTE_ADDR_aligned [simp]: "page_aligned (PTE_ADDR e)"
proof -
  have "PTE_ADDR e = PGROUNDDOWN e" by (simp add: PTE_ADDR_def PGROUNDDOWN_def PGSIZE_def)
  then show ?thesis by simp
qed

lemma PTE_ADDR_or:
  assumes "page_aligned x" and "f AND NOT 0xFFF = 0"
  shows "PTE_ADDR (x OR f) = x"
proof (rule bit_word_eqI)
  fix n assume "n < LENGTH(32)"
  then have n: "n < 32" by simp
  have "\<not> (bit f n \<and> 12 \<le> n)"
    using arg_cong [OF assms(2), of "\<lambda>w. bit w n"] n bit_0xFFF [OF n] by (auto simp: bit_simps)
  then show "bit (PTE_ADDR (x OR f)) n \<longleftrightarrow> bit x n"
    using aligned_low_bits [OF assms(1), of n] n bit_0xFFF [OF n] by (auto simp: PTE_ADDR_def bit_simps)
qed

lemma present_or: "(x OR f OR PTE_P) AND PTE_P \<noteq> 0"
proof
  assume "(x OR f OR PTE_P) AND PTE_P = 0"
  from arg_cong [OF this, of "\<lambda>w. bit w 0"] show False by (simp add: bit_simps PTE_P_def)
qed

lemma V2P_P2V [simp]: "V2P (P2V a) = a" "P2V (V2P a) = a"
  by (simp_all add: V2P_def P2V_def)

lemma mod_add_KERNBASE: "page_aligned (a + KERNBASE) \<longleftrightarrow> page_aligned a"
proof -
  have "unat (a + KERNBASE) mod 4096 = (unat a + 2147483648) mod 4294967296 mod 4096"
    by (simp add: unat_word_ariths KERNBASE_def)
  also have "\<dots> = (unat a + 524288 * 4096) mod 4096"
    by (subst mod_mod_cancel) simp_all
  also have "\<dots> = unat a mod 4096" by (rule mod_mult_self1)
  finally show ?thesis by (simp only: page_aligned_unat)
qed

lemma P2V_aligned [simp]: "page_aligned (P2V (PTE_ADDR e))"
  by (simp add: P2V_def mod_add_KERNBASE)

lemma V2P_aligned: "page_aligned p \<Longrightarrow> page_aligned (V2P p)"
  using mod_add_KERNBASE [of "V2P p"] by (simp add: V2P_def)

section \<open>The processor's view of a page table\<close>

text \<open>
  \<open>walk m d va\<close> is the entry the processor finds for address \<open>va\<close> under page directory \<open>d\<close>, if both levels
  are present.  \<open>pt_pages\<close> are the pages that hold the directory and its tables; \<open>pt_ok\<close> says that they are
  pages of the allocator and that no two directory entries share a table.
\<close>

definition pde_at :: "memory \<Rightarrow> u32 \<Rightarrow> u32 \<Rightarrow> u32" where
  "pde_at m d i = load32 m (d + 4 * i)"

definition has_table :: "memory \<Rightarrow> u32 \<Rightarrow> u32 \<Rightarrow> bool" where
  "has_table m d i \<longleftrightarrow> pde_at m d i AND PTE_P \<noteq> 0"

definition table_at :: "memory \<Rightarrow> u32 \<Rightarrow> u32 \<Rightarrow> u32" where
  "table_at m d i = P2V (PTE_ADDR (pde_at m d i))"

definition walk :: "memory \<Rightarrow> u32 \<Rightarrow> u32 \<Rightarrow> u32 option" where
  "walk m d va =
     (if has_table m d (PDX va)
      then let e = load32 m (table_at m d (PDX va) + 4 * PTX va)
           in if e AND PTE_P = 0 then None else Some e
      else None)"

definition pt_pages :: "memory \<Rightarrow> u32 \<Rightarrow> u32 set" where
  "pt_pages m d = insert d {table_at m d i |i. unat i < 1024 \<and> has_table m d i}"

definition pt_ok :: "u32 \<Rightarrow> memory \<Rightarrow> u32 \<Rightarrow> bool" where
  "pt_ok kend m d \<longleftrightarrow> (\<forall>p \<in> pt_pages m d. page_ok kend p) \<and>
     (\<forall>i. unat i < 1024 \<longrightarrow> has_table m d i \<longrightarrow> table_at m d i \<noteq> d) \<and>
     (\<forall>i j. unat i < 1024 \<longrightarrow> unat j < 1024 \<longrightarrow> has_table m d i \<longrightarrow> has_table m d j \<longrightarrow>
        table_at m d i = table_at m d j \<longrightarrow> i = j)"

lemma table_aligned [simp]: "page_aligned (table_at m d i)"
  by (simp add: table_at_def)

lemma pt_pages_dir [simp]: "d \<in> pt_pages m d"
  by (simp add: pt_pages_def)

lemma pt_pages_table: "unat i < 1024 \<Longrightarrow> has_table m d i \<Longrightarrow> table_at m d i \<in> pt_pages m d"
  by (auto simp: pt_pages_def)

lemma page_ok_aligned: "page_ok kend p \<Longrightarrow> page_aligned p"
  by (simp add: page_ok_def)

lemma pt_ok_dir: "pt_ok kend m d \<Longrightarrow> page_aligned d"
  unfolding pt_ok_def by (meson page_ok_aligned pt_pages_dir)

lemma pt_pages_cong:
  assumes "\<And>i. unat i < 1024 \<Longrightarrow> has_table m' d i = has_table m d i"
    and "\<And>i. unat i < 1024 \<Longrightarrow> table_at m' d i = table_at m d i"
  shows "pt_pages m' d = pt_pages m d"
  unfolding pt_pages_def using assms by (intro arg_cong [of _ _ "insert d"] Collect_cong) metis

lemma pde_cong:
  assumes "page_aligned d" "unat i < 1024" "\<And>a. in_page d a \<Longrightarrow> m' a = m a"
  shows "pde_at m' d i = pde_at m d i"
  unfolding pde_at_def by (rule load32_page_cong [OF assms])

lemma pt_cong:
  assumes "page_aligned d" and "\<And>p a. p \<in> pt_pages m d \<Longrightarrow> in_page p a \<Longrightarrow> m' a = m a"
  shows "pt_pages m' d = pt_pages m d" and "walk m' d va = walk m d va" and "pt_ok kend m' d = pt_ok kend m d"
proof -
  have pde: "pde_at m' d i = pde_at m d i" if "unat i < 1024" for i
    using that assms(2) [OF pt_pages_dir] by (rule pde_cong [OF assms(1)])
  then have ht: "has_table m' d i = has_table m d i" "table_at m' d i = table_at m d i" if "unat i < 1024" for i
    using that by (simp_all add: has_table_def table_at_def)
  show "pt_pages m' d = pt_pages m d" by (intro pt_pages_cong ht)
  then show "pt_ok kend m' d = pt_ok kend m d" by (auto simp: pt_ok_def ht)
  have "load32 m' (table_at m d (PDX va) + 4 * PTX va) = load32 m (table_at m d (PDX va) + 4 * PTX va)"
    if "has_table m d (PDX va)"
    using assms(2) pt_pages_table [OF _ that] by (intro load32_page_cong) auto
  then show "walk m' d va = walk m d va" by (simp add: walk_def ht)
qed

lemma walk_store:
  assumes ok: "pt_ok kend m d" and ht: "has_table m d (PDX va)" and va: "page_aligned va"
    and m': "m' = store32 m (table_at m d (PDX va) + 4 * PTX va) e"
  shows "pt_pages m' d = pt_pages m d" and "pt_ok kend m' d"
    and "page_aligned wa \<Longrightarrow> walk m' d wa =
      (if wa = va then (if e AND PTE_P = 0 then None else Some e) else walk m d wa)"
proof -
  let ?t = "table_at m d (PDX va)"
  have d: "page_aligned d" "?t \<noteq> d" using pt_ok_dir [OF ok] ok ht by (auto simp: pt_ok_def)
  have pde: "pde_at m' d i = pde_at m d i" if "unat i < 1024" for i
    using d that in_page_unique [of d ?t] unfolding m'
    by (intro pde_cong store32_outside_page) auto
  then have ht': "has_table m' d i = has_table m d i" "table_at m' d i = table_at m d i" if "unat i < 1024" for i
    using that by (simp_all add: has_table_def table_at_def)
  show pp: "pt_pages m' d = pt_pages m d" by (intro pt_pages_cong ht')
  show "pt_ok kend m' d" using ok unfolding pt_ok_def pp by (auto simp: ht')
  assume wa: "page_aligned wa"
  show "walk m' d wa = (if wa = va then (if e AND PTE_P = 0 then None else Some e) else walk m d wa)"
  proof (cases "wa = va")
    case True
    have "load32 m' (?t + 4 * PTX va) = e" unfolding m' by (rule load32_store32)
    then show ?thesis using True ht by (simp add: walk_def ht')
  next
    case False
    have "load32 m' (table_at m d (PDX wa) + 4 * PTX wa) = load32 m (table_at m d (PDX wa) + 4 * PTX wa)"
      if h: "has_table m d (PDX wa)"
    proof -
      have "table_at m d (PDX wa) + 4 * PTX wa \<noteq> ?t + 4 * PTX va"
      proof
        assume "table_at m d (PDX wa) + 4 * PTX wa = ?t + 4 * PTX va"
        then have "table_at m d (PDX wa) = ?t" "PTX wa = PTX va" by (simp_all add: entry_eq)
        then have "PDX wa = PDX va" using ok h ht by (auto simp: pt_ok_def)
        with \<open>PTX wa = PTX va\<close> show False using same_page [of wa va] wa va False by simp
      qed
      then show ?thesis unfolding m' by (intro load32_store32_other) (simp_all add: entry_aligned)
    qed
    with False show ?thesis by (simp add: walk_def ht')
  qed
qed

lemma walk_new_table:
  assumes ok: "pt_ok kend m d" and nt: "\<not> has_table m d (PDX va)"
    and x: "page_ok kend x" "x \<notin> pt_pages m d"
    and m': "m' = store32 (memset m x 0 PGSIZE) (d + 4 * PDX va) (V2P x OR PTE_P OR PTE_W OR PTE_U)"
  shows "pt_pages m' d = insert x (pt_pages m d)" and "pt_ok kend m' d" and "walk m' d wa = walk m d wa"
    and "has_table m' d (PDX va)" and "table_at m' d (PDX va) = x"
proof -
  let ?z = "memset m x 0 PGSIZE" and ?e = "V2P x OR PTE_P OR PTE_W OR PTE_U"
  have al: "page_aligned d" "page_aligned x" "x \<noteq> d"
    using pt_ok_dir [OF ok] page_ok_aligned [OF x(1)] x(2) by auto
  have pde: "pde_at m' d i = (if i = PDX va then ?e else pde_at m d i)" if "unat i < 1024" for i
  proof (cases "i = PDX va")
    case False
    then have "load32 m' (d + 4 * i) = load32 ?z (d + 4 * i)"
      unfolding m' using that al entry_eq [OF al(1) al(1), of i "PDX va"]
      by (intro load32_store32_other) (auto simp: entry_aligned)
    then show ?thesis using False al that by (simp add: pde_at_def load32_other_page)
  qed (simp add: pde_at_def m')
  have e1: "PTE_ADDR ?e = V2P x"
    by (rule PTE_ADDR_or [OF V2P_aligned [OF al(2)]]) (simp add: const_defs)
  have "?e = V2P x OR (PTE_W OR PTE_U) OR PTE_P"
    by (simp add: const_defs)
  then have e: "PTE_ADDR ?e = V2P x" "?e AND PTE_P \<noteq> 0"
    using e1 present_or [of "V2P x" "PTE_W OR PTE_U"] by simp_all
  show h: "has_table m' d (PDX va)" and t: "table_at m' d (PDX va) = x"
    using e pde by (simp_all add: has_table_def table_at_def)
  have ht: "has_table m' d i = has_table m d i" "table_at m' d i = table_at m d i"
    if "unat i < 1024" "i \<noteq> PDX va" for i
    using that pde by (simp_all add: has_table_def table_at_def)
  show pp: "pt_pages m' d = insert x (pt_pages m d)"
    using h t ht nt PDX_bound [of va] unfolding pt_pages_def by (auto; metis)
  have old: "table_at m d i \<noteq> x" if "unat i < 1024" "has_table m d i" for i
    using pt_pages_table [OF that] x(2) by auto
  show "pt_ok kend m' d"
    using ok x(1) al(3) t ht old nt PDX_bound [of va] unfolding pt_ok_def pp by (auto; metis)
  show "walk m' d wa = walk m d wa"
  proof (cases "PDX wa = PDX va")
    case True
    have "load32 m' (x + 4 * PTX wa) = load32 ?z (x + 4 * PTX wa)"
      unfolding m' using al entry_eq [OF al(2) al(1), of "PTX wa" "PDX va"]
      by (intro load32_store32_other) (auto simp: entry_aligned)
    then show ?thesis using True t nt al by (simp add: walk_def load32_zero_page)
  next
    case False
    have "load32 m' (table_at m d (PDX wa) + 4 * PTX wa) = load32 m (table_at m d (PDX wa) + 4 * PTX wa)"
      if "has_table m d (PDX wa)"
    proof -
      have n: "table_at m d (PDX wa) \<noteq> x" "table_at m d (PDX wa) \<noteq> d"
        using that old ok by (auto simp: pt_ok_def)
      have "load32 m' (table_at m d (PDX wa) + 4 * PTX wa) = load32 ?z (table_at m d (PDX wa) + 4 * PTX wa)"
        unfolding m' using al n entry_eq [OF al(1) table_aligned [of m d "PDX wa"], of "PDX va" "PTX wa"]
        by (intro load32_store32_other) (auto simp: entry_aligned)
      then show ?thesis using n al by (simp add: load32_other_page)
    qed
    with False show ?thesis by (simp add: walk_def ht)
  qed
qed

section \<open>Growing a page table\<close>

text \<open>
  \<open>aspace i s d xs\<close>: directory \<open>d\<close> is a well-formed page table whose pages are not on the free list \<open>xs\<close>.
  \<open>pt_step i d s xs t ys\<close>: going from \<open>s\<close> to \<open>t\<close> took pages from the front of the free list, gave them only
  to the page table, and wrote nowhere else.
\<close>

definition aspace :: "nat \<Rightarrow> 'a vm_scheme \<Rightarrow> u32 \<Rightarrow> u32 list \<Rightarrow> bool" where
  "aspace i s d xs \<longleftrightarrow> kmem_ready i s \<and> free_list s xs \<and> pt_ok (kernelEnd s) (mem s) d \<and>
     pt_pages (mem s) d \<inter> set xs = {}"

definition vm_touch :: "nat \<Rightarrow> 'a vm_scheme \<Rightarrow> 'a vm_scheme \<Rightarrow> bool" where
  "vm_touch i s t \<longleftrightarrow> (\<exists>m f. t = s\<lparr>mem := m, FreeList := f\<rparr> \<or> t = (kmem_sync i s)\<lparr>mem := m, FreeList := f\<rparr>)"

definition pt_step :: "nat \<Rightarrow> u32 \<Rightarrow> 'a vm_scheme \<Rightarrow> u32 list \<Rightarrow> 'a vm_scheme \<Rightarrow> u32 list \<Rightarrow> bool" where
  "pt_step i d s xs t ys \<longleftrightarrow> aspace i t d ys \<and> vm_touch i s t \<and> (\<exists>zs. xs = zs @ ys) \<and>
     pt_pages (mem t) d \<subseteq> pt_pages (mem s) d \<union> set xs \<and> pt_pages (mem s) d \<subseteq> pt_pages (mem t) d \<and>
     set xs \<subseteq> set ys \<union> pt_pages (mem t) d \<and> (\<forall>a. (\<forall>p \<in> pt_pages (mem t) d. \<not> in_page p a) \<longrightarrow> mem t a = mem s a)"

lemma kmem_sync_upd [simp]:
  "kmem_sync i (s\<lparr>mem := m\<rparr>) = (kmem_sync i s)\<lparr>mem := m\<rparr>"
  "kmem_sync i (s\<lparr>FreeList := f\<rparr>) = (kmem_sync i s)\<lparr>FreeList := f\<rparr>"
  by (simp_all add: kmem_sync_def)

lemma kmem_sync_idem [simp]: "kmem_ready i s \<Longrightarrow> kmem_sync i (kmem_sync i s) = kmem_sync i s"
  by (auto simp: kmem_sync_def kmem_ready_def)

lemma vm_touch_refl [simp]: "vm_touch i s s"
proof -
  have "s = s\<lparr>mem := mem s, FreeList := FreeList s\<rparr>" by simp
  then show ?thesis unfolding vm_touch_def by blast
qed

lemma vm_touch_trans: "kmem_ready i s \<Longrightarrow> vm_touch i s t \<Longrightarrow> vm_touch i t u \<Longrightarrow> vm_touch i s u"
  unfolding vm_touch_def by (elim exE disjE) (simp_all, blast+)

lemma vm_touch_upd [simp]:
  assumes "vm_touch i s t"
  shows "vm_touch i s (t\<lparr>mem := m\<rparr>)" and "vm_touch i s (t\<lparr>FreeList := f\<rparr>)"
proof -
  obtain f' m' where t: "t = s\<lparr>mem := m', FreeList := f'\<rparr> \<or> t = (kmem_sync i s)\<lparr>mem := m', FreeList := f'\<rparr>"
    using assms by (auto simp: vm_touch_def)
  then have "t\<lparr>mem := m\<rparr> = s\<lparr>mem := m, FreeList := f'\<rparr> \<or>
      t\<lparr>mem := m\<rparr> = (kmem_sync i s)\<lparr>mem := m, FreeList := f'\<rparr>"
    by auto
  then show "vm_touch i s (t\<lparr>mem := m\<rparr>)" unfolding vm_touch_def by blast
  from t have "t\<lparr>FreeList := f\<rparr> = s\<lparr>mem := m', FreeList := f\<rparr> \<or>
      t\<lparr>FreeList := f\<rparr> = (kmem_sync i s)\<lparr>mem := m', FreeList := f\<rparr>"
    by auto
  then show "vm_touch i s (t\<lparr>FreeList := f\<rparr>)" unfolding vm_touch_def by blast
qed

lemma vm_touch_sync [simp]: "vm_touch i s (kmem_sync i s)"
proof -
  have "kmem_sync i s = (kmem_sync i s)\<lparr>mem := mem s, FreeList := FreeList s\<rparr>" by simp
  then show ?thesis unfolding vm_touch_def by blast
qed

lemma vm_touch_fields:
  "vm_touch i s t \<Longrightarrow> kernelEnd t = kernelEnd s \<and> UseLock t = UseLock s \<and> cons t = cons s \<and> mmu t = mmu s"
  by (auto simp: vm_touch_def kmem_sync_def)

lemma pt_step_refl: "aspace i s d xs \<Longrightarrow> pt_step i d s xs s xs"
  by (simp add: pt_step_def)

lemma pt_step_trans:
  assumes "aspace i s d xs" "pt_step i d s xs t ys" "pt_step i d t ys u zs"
  shows "pt_step i d s xs u zs"
proof -
  have "vm_touch i s u"
    using assms vm_touch_trans [of i s t u] by (simp add: pt_step_def aspace_def)
  moreover have "mem u a = mem s a" if "\<forall>p \<in> pt_pages (mem u) d. \<not> in_page p a" for a
  proof -
    have "mem u a = mem t a" "\<forall>p \<in> pt_pages (mem t) d. \<not> in_page p a"
      using assms(3) that by (auto simp: pt_step_def)
    then show ?thesis using assms(2) by (simp add: pt_step_def)
  qed
  moreover obtain as bs where "xs = as @ ys" "ys = bs @ zs"
    using assms(2,3) by (auto simp: pt_step_def)
  ultimately show ?thesis
    using assms(2,3) unfolding pt_step_def by auto
qed

lemma getPageTableEntry_lookup:
  "getPageTableEntry d va False s =
     Ret (if has_table (mem s) d (PDX va) then table_at (mem s) d (PDX va) + 4 * PTX va else 0) s"
  by (simp add: getPageTableEntry_def readWord_def kmonad has_table_def table_at_def pde_at_def Let_def)

lemma entry_nonzero: "page_ok kend p \<Longrightarrow> unat i < 1024 \<Longrightarrow> p + 4 * i \<noteq> 0"
  using entry_unat [of p i] by (auto simp: page_ok_def V2P_range word_unat_eq_iff)

lemma aspace_table_nonzero:
  "aspace i s d xs \<Longrightarrow> has_table (mem s) d (PDX va) \<Longrightarrow> table_at (mem s) d (PDX va) + 4 * PTX va \<noteq> 0"
  using pt_pages_table [of "PDX va" "mem s" d] entry_nonzero
  by (auto simp: aspace_def pt_ok_def)

lemma getPageTableEntry_alloc:
  assumes as: "aspace i s d xs"
  shows "\<exists>r t ys. getPageTableEntry d va True s = Ret r t \<and> pt_step i d s xs t ys \<and>
    (\<forall>wa. walk (mem t) d wa = walk (mem s) d wa) \<and>
    (if r = 0 then xs = [] \<and> \<not> has_table (mem s) d (PDX va)
     else has_table (mem t) d (PDX va) \<and> r = table_at (mem t) d (PDX va) + 4 * PTX va)"
proof (cases "has_table (mem s) d (PDX va)")
  case True
  then have "getPageTableEntry d va True s = Ret (table_at (mem s) d (PDX va) + 4 * PTX va) s"
    by (simp add: getPageTableEntry_def readWord_def kmonad has_table_def table_at_def pde_at_def Let_def)
  then show ?thesis using as True pt_step_refl [OF as] aspace_table_nonzero [OF as True] by auto
next
  case False
  then have absent: "load32 (mem s) (d + 4 * PDX va) AND PTE_P = 0"
    by (simp add: has_table_def pde_at_def)
  have ready: "kmem_ready i s" and fl: "free_list s xs" and ok: "pt_ok (kernelEnd s) (mem s) d"
    and disj: "pt_pages (mem s) d \<inter> set xs = {}"
    using as by (simp_all add: aspace_def)
  show ?thesis
  proof (cases xs)
    case Nil
    then have t: "getPageTableEntry d va True s = Ret 0 (kmem_sync i s)"
      using absent free_list_alloc_empty [OF ready] fl
      by (simp add: getPageTableEntry_def readWord_def kmonad Let_def)
    have "aspace i (kmem_sync i s) d xs" using as by (simp add: aspace_def free_list_def)
    then have "pt_step i d s xs (kmem_sync i s) xs" by (simp add: pt_step_def)
    then show ?thesis using t False Nil by auto
  next
    case (Cons x ys)
    let ?u = "(kmem_sync i s)\<lparr>FreeList := load32 (mem s) x\<rparr>"
    let ?m = "store32 (memset (mem s) x 0 PGSIZE) (d + 4 * PDX va) (V2P x OR PTE_P OR PTE_W OR PTE_U)"
    let ?t = "?u\<lparr>mem := ?m\<rparr>"
    have x: "x \<noteq> 0" "FreeList s = x" "page_ok (kernelEnd s) x" "x \<notin> pt_pages (mem s) d" "x \<notin> set ys"
      using fl disj Cons by (auto simp: free_list_def)
    then have "allocatePhysicalMemoryPage s = Ret x ?u"
      using allocatePhysicalMemoryPage_run [OF ready] by simp
    then have run: "getPageTableEntry d va True s = Ret (x + 4 * PTX va) ?t"
      using absent x(1)
      by (simp add: getPageTableEntry_def readWord_def zeroPage_def writeWord_def kmonad Let_def)
    note w = walk_new_table [OF ok False x(3,4) refl]
    have d: "page_aligned d" "page_aligned x" using ok x(3) by (auto simp: pt_ok_dir page_ok_aligned)
    have m: "?m a = mem s a" if "\<not> in_page d a" "\<not> in_page x a" for a
      using that d by (simp add: store32_outside_page memset_page)
    have "d \<notin> set xs" using disj pt_pages_dir [of d "mem s"] by blast
    then have pg: "page_ok (kernelEnd s) y" "y \<noteq> d" "y \<noteq> x" if "y \<in> set ys" for y
      using that fl x(5) Cons by (auto simp: free_list_def)
    have "free_list ?t ys"
    proof (rule free_list_cong [of ?u])
      show "free_list ?u ys" using fl Cons by (simp add: free_list_def)
      show "mem ?t a = mem ?u a" if "y \<in> set ys" "in_page y a" for y a
        using m [of a] that d pg [OF that(1)] in_page_unique [of y d a] in_page_unique [of y x a]
        by (auto simp: page_ok_aligned)
    qed simp_all
    moreover have "pt_pages ?m d \<inter> set ys = {}" unfolding w(1) using disj Cons x(5) by auto
    ultimately have "aspace i ?t d ys" using ready w(2) by (simp add: aspace_def)
    moreover have "vm_touch i s ?t" by simp
    moreover have "mem ?t a = mem s a" if "\<forall>p \<in> pt_pages (mem ?t) d. \<not> in_page p a" for a
      using that m [of a] by (simp add: w(1))
    ultimately have "pt_step i d s xs ?t ys" unfolding pt_step_def using Cons by (auto simp: w(1))
    then show ?thesis using run w(3-5) entry_nonzero [OF x(3) PTX_bound] by auto
  qed
qed

lemma aspace_cong:
  assumes "aspace i s d xs" and "kmem_ready i t" "FreeList t = FreeList s" "kernelEnd t = kernelEnd s"
    and "\<And>x a. x \<in> set xs \<Longrightarrow> in_page x a \<Longrightarrow> mem t a = mem s a"
    and "pt_ok (kernelEnd s) (mem t) d" "pt_pages (mem t) d = pt_pages (mem s) d"
  shows "aspace i t d xs"
  using assms free_list_cong [of s xs t] by (simp add: aspace_def)

lemma write_entry:
  assumes as: "aspace i s d xs" and ht: "has_table (mem s) d (PDX a)" and a: "page_aligned a"
    and t: "t = s\<lparr>mem := store32 (mem s) (table_at (mem s) d (PDX a) + 4 * PTX a) e\<rparr>"
  shows "pt_step i d s xs t xs"
    and "page_aligned wa \<Longrightarrow> walk (mem t) d wa =
      (if wa = a then (if e AND PTE_P = 0 then None else Some e) else walk (mem s) d wa)"
proof -
  let ?t = "table_at (mem s) d (PDX a)"
  have ok: "pt_ok (kernelEnd s) (mem s) d" "pt_pages (mem s) d \<inter> set xs = {}"
      "\<forall>x \<in> set xs. page_ok (kernelEnd s) x"
    using as by (simp_all add: aspace_def free_list_def)
  have m: "mem t = store32 (mem s) (?t + 4 * PTX a) e" by (simp add: t)
  note w = walk_store [OF ok(1) ht a m]
  have tp: "?t \<in> pt_pages (mem s) d" using ht by (simp add: pt_pages_table)
  have same: "mem t b = mem s b" if "\<not> in_page ?t b" for b
    unfolding m using that by (intro store32_outside_page) simp_all
  have "mem t b = mem s b" if "x \<in> set xs" "in_page x b" for x b
  proof (rule same, rule notI)
    assume "in_page ?t b"
    moreover have "page_aligned x" using that(1) ok(3) page_ok_aligned by blast
    ultimately have "x = ?t" using in_page_unique [of x ?t b] that(2) by simp
    with that(1) tp ok(2) show False by blast
  qed
  then have "aspace i t d xs"
    using as w(1,2) by (intro aspace_cong [OF as]) (simp_all add: aspace_def t)
  moreover have "vm_touch i s t" by (simp add: t)
  ultimately show "pt_step i d s xs t xs"
    using same tp w(1) by (auto simp: pt_step_def)
  show "page_aligned wa \<Longrightarrow> walk (mem t) d wa =
      (if wa = a then (if e AND PTE_P = 0 then None else Some e) else walk (mem s) d wa)"
    by (rule w(3))
qed

lemma aligned_minus:
  assumes "page_aligned wa" "page_aligned a"
  obtains q where "unat (wa - a) = 4096 * q" "q < 1048576"
proof -
  obtain k k' where k: "unat wa = 4096 * k" "unat a = 4096 * k'"
    using page_multiple [OF assms(1)] page_multiple [OF assms(2)] by metis
  have "4096 dvd unat (wa - a)"
    by (auto simp: unat_sub_if_size word_size k intro!: dvd_diff_nat dvd_add)
  then obtain q where q: "unat (wa - a) = 4096 * q" by (auto elim: dvdE)
  moreover have "q < 1048576" using q unat_u32_bound [of "wa - a"] by linarith
  ultimately show thesis by (rule that)
qed

lemma minus_next_page:
  assumes "page_aligned wa" "page_aligned a" "n < 1048576"
  shows "unat (wa - (a + PGSIZE)) < n * 4096 \<longleftrightarrow> wa \<noteq> a \<and> unat (wa - a) < Suc n * 4096"
proof -
  obtain q where q: "unat (wa - a) = 4096 * q" "q < 1048576" using assms(1,2) by (rule aligned_minus)
  have e: "unat (wa - (a + PGSIZE)) = 4096 * (q - 1)" if "q \<noteq> 0"
  proof -
    have "PGSIZE \<le> wa - a" using q that by (simp add: word_le_unat PGSIZE_def)
    then have "unat (wa - a - PGSIZE) = unat (wa - a) - unat PGSIZE" by (rule unat_sub)
    then show ?thesis using q by (simp add: PGSIZE_def diff_diff_eq diff_mult_distrib2)
  qed
  show ?thesis
  proof (cases "q = 0")
    case True
    with q have "unat (wa - a) = unat (0 :: u32)" by simp
    then have "wa - a = 0" by (rule unsigned_word_eqI)
    then have "wa = a" by simp
    then show ?thesis using assms(3) by (simp add: PGSIZE_def unat_word_ariths)
  next
    case False
    then have "unat (wa - (a + PGSIZE)) = 4096 * (q - 1)" by (rule e)
    moreover have "wa \<noteq> a" using False q by auto
    ultimately show ?thesis using q False by auto
  qed
qed

lemma next_page_aligned: "page_aligned a \<Longrightarrow> page_aligned (a + PGSIZE)"
proof -
  assume "page_aligned a"
  then have "unat a mod 4096 = 0" by (simp only: page_aligned_unat)
  moreover have "unat (a + PGSIZE) mod 4096 = (unat a + 4096) mod 4294967296 mod 4096"
    by (simp add: PGSIZE_def unat_word_ariths)
  ultimately show ?thesis by (simp add: page_aligned_unat mod_mod_cancel)
qed

lemma map_one_page:
  assumes as: "aspace i s d xs" and a: "page_aligned a" and none: "walk (mem s) d a = None"
    and e: "e AND PTE_P \<noteq> 0"
  obtains (full) t where "getPageTableEntry d a True s = Ret 0 t" "pt_step i d s xs t []"
      "\<And>wa. walk (mem t) d wa = walk (mem s) d wa"
  | (mapped) pte t ys where "getPageTableEntry d a True s = Ret pte t" "pte \<noteq> 0"
      "load32 (mem t) pte AND PTE_P = 0" "pt_step i d s xs (t\<lparr>mem := store32 (mem t) pte e\<rparr>) ys"
      "\<And>wa. page_aligned wa \<Longrightarrow> walk (store32 (mem t) pte e) d wa =
        (if wa = a then Some e else walk (mem s) d wa)"
proof -
  obtain r t ys where g: "getPageTableEntry d a True s = Ret r t" "pt_step i d s xs t ys"
    "\<forall>wa. walk (mem t) d wa = walk (mem s) d wa"
    "if r = 0 then xs = [] \<and> \<not> has_table (mem s) d (PDX a)
     else has_table (mem t) d (PDX a) \<and> r = table_at (mem t) d (PDX a) + 4 * PTX a"
    using getPageTableEntry_alloc [OF as, of a] by blast
  show thesis
  proof (cases "r = 0")
    case True
    then have "ys = []" using g(2,4) by (auto simp: pt_step_def)
    then show thesis using full [of t] True g by simp
  next
    case False
    let ?u = "t\<lparr>mem := store32 (mem t) r e\<rparr>"
    have h: "has_table (mem t) d (PDX a)" "r = table_at (mem t) d (PDX a) + 4 * PTX a"
      using g(4) False by auto
    have as': "aspace i t d ys" using g(2) by (simp add: pt_step_def)
    note w = write_entry [OF as' h(1) a, of ?u e]
    have "walk (mem t) d a = None" using g(3) none by simp
    then have "load32 (mem t) r AND PTE_P = 0"
      using h by (simp add: walk_def Let_def split: if_splits)
    moreover have "pt_step i d s xs ?u ys"
      using pt_step_trans [OF as g(2)] w(1) h(2) by simp
    moreover have "walk (store32 (mem t) r e) d wa = (if wa = a then Some e else walk (mem s) d wa)"
      if "page_aligned wa" for wa
      using w(2) [OF _ that] h(2) e g(3) by simp
    ultimately show thesis using g(1) False by (intro mapped)
  qed
qed

lemma createPageTableEntries_loop_run:
  assumes "aspace i s d xs" and "page_aligned a" and "k < n" and "k < 1048576"
    and "lastp = a + of_nat k * PGSIZE"
    and "\<And>wa. page_aligned wa \<Longrightarrow> unat (wa - a) < Suc k * 4096 \<Longrightarrow> walk (mem s) d wa = None"
  shows "\<exists>r t ys. createPageTableEntries_loop n d a lastp pa perm s = Ret r t \<and> pt_step i d s xs t ys \<and>
    (r = 0 \<and> (\<forall>wa. page_aligned wa \<longrightarrow> walk (mem t) d wa =
       (if unat (wa - a) < Suc k * 4096 then Some ((pa + (wa - a)) OR perm OR PTE_P) else walk (mem s) d wa)) \<or>
     r = -1 \<and> ys = [] \<and> (\<forall>wa. page_aligned wa \<longrightarrow> \<not> unat (wa - a) < Suc k * 4096 \<longrightarrow>
       walk (mem t) d wa = walk (mem s) d wa))"
  using assms
proof (induction k arbitrary: n a pa s xs)
  case 0
  then obtain n' where n: "n = Suc n'" by (cases n) auto
  have "walk (mem s) d a = None" using 0 by simp
  have one: "unat (wa - a) < 4096 \<longleftrightarrow> wa = a" if "page_aligned wa" for wa
    using minus_next_page [OF that 0(2), of 0] by auto
  show ?case
  proof (rule map_one_page [OF 0(1,2) \<open>walk (mem s) d a = None\<close> present_or [of pa perm]])
    fix t assume t: "getPageTableEntry d a True s = Ret 0 t" "pt_step i d s xs t []"
      "\<And>wa. walk (mem t) d wa = walk (mem s) d wa"
    then show ?thesis by (auto simp: n kmonad)
  next
    fix pte t ys
    assume t: "getPageTableEntry d a True s = Ret pte t" "pte \<noteq> 0" "load32 (mem t) pte AND PTE_P = 0"
      "pt_step i d s xs (t\<lparr>mem := store32 (mem t) pte (pa OR perm OR PTE_P)\<rparr>) ys"
      "\<And>wa. page_aligned wa \<Longrightarrow> walk (store32 (mem t) pte (pa OR perm OR PTE_P)) d wa =
        (if wa = a then Some (pa OR perm OR PTE_P) else walk (mem s) d wa)"
    then show ?thesis using one 0 by (auto simp: n kmonad readWord_def writeWord_def)
  qed
next
  case (Suc k)
  then obtain n' where n: "n = Suc n'" by (cases n) auto
  have "walk (mem s) d a = None" using Suc.prems by simp
  have next_range: "unat (wa - (a + PGSIZE)) < Suc k * 4096 \<longleftrightarrow> wa \<noteq> a \<and> unat (wa - a) < Suc (Suc k) * 4096"
    if "page_aligned wa" for wa
    using that Suc.prems by (intro minus_next_page) simp_all
  have "of_nat (Suc k) * PGSIZE \<noteq> 0" 
    using Suc.prems(4) by (simp add: PGSIZE_def word_unat_eq_iff unat_word_ariths unat_of_nat)
  then have not_last: "a \<noteq> lastp" using Suc.prems(5) by simp
  show ?case
  proof (rule map_one_page [OF Suc.prems(1,2) \<open>walk (mem s) d a = None\<close> present_or [of pa perm]])
    fix t assume t: "getPageTableEntry d a True s = Ret 0 t" "pt_step i d s xs t []"
      "\<And>wa. walk (mem t) d wa = walk (mem s) d wa"
    then show ?thesis by (auto simp: n kmonad)
  next
    fix pte ys and t :: "'a vm_scheme"
    let ?u = "t\<lparr>mem := store32 (mem t) pte (pa OR perm OR PTE_P)\<rparr>"
    assume t: "getPageTableEntry d a True s = Ret pte t" "pte \<noteq> 0" "load32 (mem t) pte AND PTE_P = 0"
      "pt_step i d s xs ?u ys"
      "\<And>wa. page_aligned wa \<Longrightarrow> walk (store32 (mem t) pte (pa OR perm OR PTE_P)) d wa =
        (if wa = a then Some (pa OR perm OR PTE_P) else walk (mem s) d wa)"
    have f1: "aspace i ?u d ys" using t(4) by (simp add: pt_step_def)
    have f2: "page_aligned (a + PGSIZE)" using Suc.prems(2) by (rule next_page_aligned)
    have f3: "k < n'" "k < 1048576" using Suc.prems(3,4) n by simp_all
    have f4: "lastp = (a + PGSIZE) + of_nat k * PGSIZE"
      using Suc.prems(5) by (simp add: algebra_simps)
    have f5: "walk (mem ?u) d wa = None"
      if "page_aligned wa" "unat (wa - (a + PGSIZE)) < Suc k * 4096" for wa
      using that next_range [OF that(1)] t(5) [OF that(1)] Suc.prems(6) [OF that(1)] by simp
    obtain r v zs where v:
      "createPageTableEntries_loop n' d (a + PGSIZE) lastp (pa + PGSIZE) perm ?u = Ret r v"
      "pt_step i d ?u ys v zs"
      "r = 0 \<and> (\<forall>wa. page_aligned wa \<longrightarrow> walk (mem v) d wa =
         (if unat (wa - (a + PGSIZE)) < Suc k * 4096 then Some ((pa + PGSIZE + (wa - (a + PGSIZE))) OR perm OR PTE_P)
          else walk (mem ?u) d wa)) \<or>
       r = -1 \<and> zs = [] \<and> (\<forall>wa. page_aligned wa \<longrightarrow> \<not> unat (wa - (a + PGSIZE)) < Suc k * 4096 \<longrightarrow>
         walk (mem v) d wa = walk (mem ?u) d wa)"
      using Suc.IH [OF f1 f2 f3 f4 f5, of "pa + PGSIZE"] by blast
    have run: "createPageTableEntries_loop n d a lastp pa perm s = Ret r v"
      using t v(1) not_last by (simp add: n kmonad readWord_def writeWord_def)
    have step: "pt_step i d s xs v zs" using pt_step_trans [OF Suc.prems(1) t(4) v(2)] .
    have res: "(r = 0 \<and> (\<forall>wa. page_aligned wa \<longrightarrow> walk (mem v) d wa =
       (if unat (wa - a) < Suc (Suc k) * 4096 then Some ((pa + (wa - a)) OR perm OR PTE_P) else walk (mem s) d wa)) \<or>
     r = -1 \<and> zs = [] \<and> (\<forall>wa. page_aligned wa \<longrightarrow> \<not> unat (wa - a) < Suc (Suc k) * 4096 \<longrightarrow>
       walk (mem v) d wa = walk (mem s) d wa))"
    proof (rule disjE [OF v(3)])
      assume r: "r = 0 \<and> (\<forall>wa. page_aligned wa \<longrightarrow> walk (mem v) d wa =
         (if unat (wa - (a + PGSIZE)) < Suc k * 4096 then Some ((pa + PGSIZE + (wa - (a + PGSIZE))) OR perm OR PTE_P)
          else walk (mem ?u) d wa))"
      have "walk (mem v) d wa =
         (if unat (wa - a) < Suc (Suc k) * 4096 then Some ((pa + (wa - a)) OR perm OR PTE_P) else walk (mem s) d wa)"
        if "page_aligned wa" for wa
        using r that next_range [OF that] t(5) [OF that] by (cases "wa = a") (auto simp: algebra_simps)
      then show ?thesis using r by blast
    next
      assume r: "r = -1 \<and> zs = [] \<and> (\<forall>wa. page_aligned wa \<longrightarrow> \<not> unat (wa - (a + PGSIZE)) < Suc k * 4096 \<longrightarrow>
         walk (mem v) d wa = walk (mem ?u) d wa)"
      have "walk (mem v) d wa = walk (mem s) d wa"
        if "page_aligned wa" "\<not> unat (wa - a) < Suc (Suc k) * 4096" for wa
        using r that next_range [OF that(1)] t(5) [OF that(1)] by (cases "wa = a") auto
      then show ?thesis using r by blast
    qed
    show ?thesis using run step res by (intro exI [of _ r] exI [of _ v] exI [of _ zs]) (intro conjI)
  qed
qed

text \<open>A machine whose page table base and segments are still clear.\<close>

definition blank_task :: Taskstate where
  "blank_task = \<lparr>ts_link = 0, esp0 = 0, ss0 = 0, ts_padding1 = 0, ts_esp1 = 0, ts_ss1 = 0, ts_padding2 = 0, ts_esp2 = 0, ts_ss2
     = 0, ts_padding3 = 0, ts_cr3 = 0, ts_eip = 0, ts_eflags = 0, ts_eax = 0, ts_ecx = 0, ts_edx = 0, ts_ebx =
     0, ts_esp = 0, ts_ebp = 0, ts_esi = 0, ts_edi = 0, ts_es = 0, ts_padding4 = 0, ts_cs = 0, ts_padding5 =
     0, ts_ss = 0, ts_padding6 = 0, ts_ds = 0, ts_padding7 = 0, ts_fs = 0, ts_padding8 = 0, ts_gs = 0,
     ts_padding9 = 0, ts_ldt = 0, ts_padding10 = 0, ts_t = 0, iomb = 0\<rparr>"

definition blank_mmu :: MmuState where
  "blank_mmu = \<lparr>cr3 = 0, kernelPageDirectory = 0, kernelData = 0x80108000,
     Gdt = (\<lambda>_ _. SEG 0 0 0 0), TaskstateAddr = (\<lambda>_. 0), Task = (\<lambda>_. blank_task)\<rparr>"

end
