(* ===== verification/Sched.thy ===== *)
theory Sched
  imports Vm
begin

text \<open>
  The process table, scheduling, sleep and wakeup (\<^verbatim>\<open>proc.c\<close>, \<^verbatim>\<open>proc.h\<close>).  The table is a list of
  \<open>NPROC\<close> records and a process pointer is an index into it.  A channel is an address that nobody
  dereferences, so it is a value of the datatype \<open>chan\<close> with a constructor per object whose address
  the kernel sleeps on.

  A switch to another kernel stack (\<^verbatim>\<open>swtch\<close>) splits the function that contains it into the part before
  and the part after: \<open>sched_enter\<close> runs \<^verbatim>\<open>sched\<close> up to the switch and returns the local variable that the
  rest needs, \<open>sched_exit\<close> is the rest, and likewise for \<^verbatim>\<open>sleep\<close>, \<^verbatim>\<open>yield\<close> and the loop of \<^verbatim>\<open>scheduler\<close>.
  What other processors and processes do between the two parts is whatever a sequence of further
  operations does to the shared state.  The saved registers are not part of the model.
\<close>

section \<open>Definitions\<close>

datatype procstate = UNUSED | EMBRYO | SLEEPING | RUNNABLE | RUNNING | ZOMBIE

datatype chan =
    NullChan | ProcessChan nat | PipeReadChan u32 | PipeWriteChan u32 | TicksChan | InputChan
  | SleeplockChan nat | BufChan nat

record Process =
  MemorySize :: u32
  PageTable :: u32
  KernelStack :: u32
  State :: procstate
  ProcessId :: int
  Parent :: "nat option"
  Trapframe :: u32
  Context :: u32
  Chan :: chan
  IsKilled :: int
  OpenFile :: "nat option list"
  Cwd :: string
  Name :: string

record ProcessTable =
  Processes :: "Process list"
  initproc :: "nat option"
  nextpid :: int

record kproc = vm +
  processTable :: ProcessTable

interpretation ptab_field: hw_field processTable processTable_update by unfold_locales simp_all

definition getProc :: "nat \<Rightarrow> ('a kproc_scheme, Process) op" where
  "getProc k = getK (\<lambda>s. Processes (processTable s) ! k)"

definition updProc :: "nat \<Rightarrow> (Process \<Rightarrow> Process) \<Rightarrow> ('a kproc_scheme, unit) op" where
  "updProc k f = modifyK (\<lambda>s. s\<lparr>processTable := (processTable s)\<lparr>Processes :=
     (Processes (processTable s))[k := f (Processes (processTable s) ! k)]\<rparr>\<rparr>)"

text \<open>\<open>currentProcess\<close> is \<^verbatim>\<open>myProcess()\<close> where the code dereferences the result without a test.\<close>

definition currentProcess :: "('a kproc_scheme, nat) op" where
  "currentProcess =
     bindK myProcess (\<lambda>p. case p of None \<Rightarrow> faultK | Some k \<Rightarrow> returnK k)"

definition processTableInitialise :: "('a kproc_scheme, unit) op" where
  "processTableInitialise = spinlockInitialise ProcessTableLock ''processTable''"

definition wakeup1 :: "chan \<Rightarrow> ('a kproc_scheme, unit) op" where
  "wakeup1 chan =
     foreachK [0..<NPROC] (\<lambda>k.
       bindK (getProc k) (\<lambda>p.
       whenK (State p = SLEEPING \<and> Chan p = chan) (updProc k (\<lambda>p. p\<lparr>State := RUNNABLE\<rparr>))))"

definition wakeup :: "chan \<Rightarrow> ('a kproc_scheme, unit) op" where
  "wakeup chan =
     bindK (spinlockAcquire ProcessTableLock) (\<lambda>_.
     bindK (wakeup1 chan) (\<lambda>_.
     spinlockRelease ProcessTableLock))"

definition kill :: "int \<Rightarrow> ('a kproc_scheme, int) op" where
  "kill pid =
     bindK (spinlockAcquire ProcessTableLock) (\<lambda>_.
     bindK (getK (\<lambda>s. findIndex (\<lambda>p. ProcessId p = pid) (Processes (processTable s)))) (\<lambda>found.
     case found of
       Some k \<Rightarrow>
         bindK (updProc k (\<lambda>p. p\<lparr>IsKilled := 1\<rparr>)) (\<lambda>_.
         bindK (getProc k) (\<lambda>p.
         bindK (whenK (State p = SLEEPING) (updProc k (\<lambda>p. p\<lparr>State := RUNNABLE\<rparr>))) (\<lambda>_.
         bindK (spinlockRelease ProcessTableLock) (\<lambda>_.
         returnK 0))))
     | None \<Rightarrow> bindK (spinlockRelease ProcessTableLock) (\<lambda>_. returnK (-1))))"

definition sched_enter :: "('a kproc_scheme, u32) op" where
  "sched_enter =
     bindK myProcess (\<lambda>p.
     bindK (isHolding ProcessTableLock) (\<lambda>holding.
     if \<not> holding then panicK ''sched processTable.Lock''
     else bindK myCpu (\<lambda>c.
     bindK (getCpu c) (\<lambda>cpu.
     if CliDepth cpu \<noteq> 1 then panicK ''sched locks''
     else case p of
       None \<Rightarrow> faultK
     | Some k \<Rightarrow> bindK (getProc k) (\<lambda>pr.
         if State pr = RUNNING then panicK ''sched running''
         else bindK readExtendedFlags (\<lambda>fl.
         if fl AND FL_IF \<noteq> 0 then panicK ''sched interruptible''
         else bindK myCpu (\<lambda>c. bindK (getCpu c) (\<lambda>cpu. returnK (InterruptsEnabled cpu)))))))))"

definition sched_exit :: "u32 \<Rightarrow> ('a kproc_scheme, unit) op" where
  "sched_exit intena = bindK myCpu (\<lambda>c. updCpu c (\<lambda>cpu. cpu\<lparr>InterruptsEnabled := intena\<rparr>))"

definition yield_enter :: "('a kproc_scheme, u32) op" where
  "yield_enter =
     bindK (spinlockAcquire ProcessTableLock) (\<lambda>_.
     bindK currentProcess (\<lambda>k.
     bindK (updProc k (\<lambda>p. p\<lparr>State := RUNNABLE\<rparr>)) (\<lambda>_.
     sched_enter)))"

definition yield_exit :: "u32 \<Rightarrow> ('a kproc_scheme, unit) op" where
  "yield_exit intena = bindK (sched_exit intena) (\<lambda>_. spinlockRelease ProcessTableLock)"

text \<open>The lock argument of \<^verbatim>\<open>sleep\<close> is a pointer, \<open>None\<close> when null.\<close>

definition sleep_enter :: "chan \<Rightarrow> lockid option \<Rightarrow> ('a kproc_scheme, nat \<times> u32) op" where
  "sleep_enter chan lk =
     bindK myProcess (\<lambda>p.
     case p of None \<Rightarrow> panicK ''sleep''
     | Some k \<Rightarrow> (case lk of None \<Rightarrow> panicK ''sleep without lk''
     | Some l \<Rightarrow>
         bindK (whenK (l \<noteq> ProcessTableLock)
           (bindK (spinlockAcquire ProcessTableLock) (\<lambda>_. spinlockRelease l))) (\<lambda>_.
         bindK (updProc k (\<lambda>p. p\<lparr>Chan := chan\<rparr>)) (\<lambda>_.
         bindK (updProc k (\<lambda>p. p\<lparr>State := SLEEPING\<rparr>)) (\<lambda>_.
         bindK sched_enter (\<lambda>intena. returnK (k, intena)))))))"

definition sleep_exit :: "lockid \<Rightarrow> nat \<times> u32 \<Rightarrow> ('a kproc_scheme, unit) op" where
  "sleep_exit l local =
     (case local of (k, intena) \<Rightarrow>
        bindK (sched_exit intena) (\<lambda>_.
        bindK (updProc k (\<lambda>p. p\<lparr>Chan := NullChan\<rparr>)) (\<lambda>_.
        whenK (l \<noteq> ProcessTableLock)
          (bindK (spinlockRelease ProcessTableLock) (\<lambda>_. spinlockAcquire l)))))"

text \<open>
  The loop of \<^verbatim>\<open>scheduler\<close> over the table: \<open>scheduler_scan c ks\<close> runs it for the remaining indices
  until it switches to a process (\<open>Some\<close>) or has looked at the whole table (\<open>None\<close>).  Control comes
  back from the process in \<open>scheduler_resume\<close>; the next round begins with \<open>scheduler_round\<close>.
\<close>

fun scheduler_scan :: "nat \<Rightarrow> nat list \<Rightarrow> ('a kproc_scheme, nat option) op" where
  "scheduler_scan c [] = bindK (spinlockRelease ProcessTableLock) (\<lambda>_. returnK None)"
| "scheduler_scan c (k # ks) =
     bindK (getProc k) (\<lambda>p.
     if State p \<noteq> RUNNABLE then scheduler_scan c ks
     else bindK (updCpu c (\<lambda>cpu. cpu\<lparr>CpuProcess := Some k\<rparr>)) (\<lambda>_.
       bindK (switchToUserVirtualMemory (Some (KernelStack p, PageTable p))) (\<lambda>_.
       bindK (updProc k (\<lambda>p. p\<lparr>State := RUNNING\<rparr>)) (\<lambda>_.
       returnK (Some k)))))"

definition scheduler_start :: "('a kproc_scheme, nat) op" where
  "scheduler_start =
     bindK myCpu (\<lambda>c. bindK (updCpu c (\<lambda>cpu. cpu\<lparr>CpuProcess := None\<rparr>)) (\<lambda>_. returnK c))"

definition scheduler_round :: "nat \<Rightarrow> ('a kproc_scheme, nat option) op" where
  "scheduler_round c =
     bindK enableInterrupts (\<lambda>_.
     bindK (spinlockAcquire ProcessTableLock) (\<lambda>_.
     scheduler_scan c [0..<NPROC]))"

definition scheduler_resume :: "nat \<Rightarrow> nat \<Rightarrow> ('a kproc_scheme, nat option) op" where
  "scheduler_resume c k =
     bindK switchToKernelVirtualMemory (\<lambda>_.
     bindK (updCpu c (\<lambda>cpu. cpu\<lparr>CpuProcess := None\<rparr>)) (\<lambda>_.
     scheduler_scan c [Suc k..<NPROC]))"

section \<open>Running the table operations\<close>

text \<open>
  \<open>proc_ready i s\<close>: processor \<open>i\<close> can call into the process table, whose lock is free.  The equations
  below give the result of every operation as the table after it, with the lock sections reduced by
  the algebra of lock sections.
\<close>

abbreviation procs :: "'a kproc_scheme \<Rightarrow> Process list" where
  "procs s \<equiv> Processes (processTable s)"

definition set_procs :: "Process list \<Rightarrow> 'a kproc_scheme \<Rightarrow> 'a kproc_scheme" where
  "set_procs ps s = s\<lparr>processTable := (processTable s)\<lparr>Processes := ps\<rparr>\<rparr>"

definition proc_ready :: "nat \<Rightarrow> 'a kproc_scheme \<Rightarrow> bool" where
  "proc_ready i s \<longleftrightarrow> cpu_ok i s \<and> lock_free ProcessTableLock s \<and> length (procs s) = NPROC"

lemma set_procs_alt: "set_procs ps s = processTable_update (\<lambda>t. t\<lparr>Processes := ps\<rparr>) s"
  by (simp add: set_procs_def)

lemma procs_set [simp]: "procs (set_procs ps s) = ps"
  by (simp add: set_procs_def)

lemma set_procs_same [simp]: "set_procs (procs s) s = s"
  by (simp add: set_procs_def)

lemma set_procs_twice [simp]: "set_procs ps (set_procs qs s) = set_procs ps s"
  by (simp add: set_procs_def)

lemma set_procs_lock [simp]:
  "acquired i l (set_procs ps s) = set_procs ps (acquired i l s)"
  "released i l (set_procs ps s) = set_procs ps (released i l s)"
  "resync i (set_procs ps s) = set_procs ps (resync i s)"
  "cpu_ok i (set_procs ps s) = cpu_ok i s" "in_section i (set_procs ps s) = in_section i s"
  "lock_free l (set_procs ps s) = lock_free l s" "holds i l (set_procs ps s) = holds i l s"
  "curproc i (set_procs ps s) = curproc i s" "cpu_index (set_procs ps s) = cpu_index s"
  by (simp_all add: set_procs_alt)

lemma set_procs_sel [simp]:
  "eflags (set_procs ps s) = eflags s" "cpus (set_procs ps s) = cpus s" "locks (set_procs ps s) = locks s"
  "mmu (set_procs ps s) = mmu s" "mem (set_procs ps s) = mem s"
  "initproc (processTable (set_procs ps s)) = initproc (processTable s)"
  "nextpid (processTable (set_procs ps s)) = nextpid (processTable s)"
  by (simp_all add: set_procs_def)

lemma updProc_run [simp]: "updProc k f s = Ret () (set_procs ((procs s)[k := f (procs s ! k)]) s)"
  by (simp add: updProc_def set_procs_def)

lemma getProc_run [simp]: "getProc k s = Ret (procs s ! k) s"
  by (simp add: getProc_def)

lemma foreach_procs:
  assumes "\<And>k t. k < n \<Longrightarrow> body k t = Ret () (set_procs ((procs t)[k := g (procs t ! k)]) t)"
    and "n \<le> length (procs s)"
  shows "foreachK [0..<n] body s = Ret () (set_procs (map g (take n (procs s)) @ drop n (procs s)) s)"
  using assms
proof (induction n)
  case (Suc n)
  let ?ps = "map g (take n (procs s)) @ drop n (procs s)"
  have d: "drop n (procs s) = procs s ! n # drop (Suc n) (procs s)"
    using Suc.prems(2) by (simp add: Cons_nth_drop_Suc)
  have "foreachK [0..<n] body s = Ret () (set_procs ?ps s)"
    using Suc by simp
  then have "foreachK [0..<Suc n] body s = body n (set_procs ?ps s)"
    by (simp add: foreachK_append kmonad split: outcome.split)
  also have "\<dots> = Ret () (set_procs (?ps[n := g (?ps ! n)]) s)"
    using Suc.prems(1) [of n "set_procs ?ps s"] by simp
  also have "?ps ! n = procs s ! n"
    using Suc.prems(2) by (simp add: nth_append)
  also have "?ps[n := g (procs s ! n)] = map g (take (Suc n) (procs s)) @ drop (Suc n) (procs s)"
    using Suc.prems(2) by (subst d) (simp add: list_update_append take_Suc_conv_app_nth)
  finally show ?case .
qed simp

definition woken :: "chan \<Rightarrow> Process \<Rightarrow> Process" where
  "woken chan p = (if State p = SLEEPING \<and> Chan p = chan then p\<lparr>State := RUNNABLE\<rparr> else p)"

lemma wakeup1_run:
  assumes "length (procs s) = NPROC"
  shows "wakeup1 chan s = Ret () (set_procs (map (woken chan) (procs s)) s)"
proof -
  have "wakeup1 chan s = Ret () (set_procs (map (woken chan) (take NPROC (procs s)) @ drop NPROC (procs s)) s)"
    unfolding wakeup1_def using assms
    by (intro foreach_procs) (auto simp: kmonad woken_def whenK_def list_update_same_conv)
  then show ?thesis using assms by simp
qed

lemma proc_ready_resync [simp]: "proc_ready i s \<Longrightarrow> proc_ready i (resync i s)"
  by (simp add: proc_ready_def)

lemma proc_ready_set [simp]:
  "length ps = NPROC \<Longrightarrow> proc_ready i s \<Longrightarrow> proc_ready i (set_procs ps s)"
  by (simp add: proc_ready_def)

lemma wakeup_run:
  assumes "proc_ready i s"
  shows "wakeup chan s = Ret () (set_procs (map (woken chan) (procs s)) (resync i s))"
  using assms
  by (simp add: wakeup_def kmonad proc_ready_def spinlockAcquire_ok [of i] spinlockRelease_ok [of i] wakeup1_run)

definition killed :: "Process \<Rightarrow> Process" where
  "killed p = p\<lparr>IsKilled := 1, State := (if State p = SLEEPING then RUNNABLE else State p)\<rparr>"

lemma kill_run:
  assumes "proc_ready i s"
  shows "kill pid s =
    (case findIndex (\<lambda>p. ProcessId p = pid) (procs s) of
       None \<Rightarrow> Ret (-1) (resync i s)
     | Some k \<Rightarrow> Ret 0 (set_procs ((procs s)[k := killed (procs s ! k)]) (resync i s)))"
proof (cases "findIndex (\<lambda>p. ProcessId p = pid) (procs s)")
  case None
  then show ?thesis
    using assms
    by (simp add: kill_def kmonad proc_ready_def spinlockAcquire_ok [of i] spinlockRelease_ok [of i]
        del: findIndex_None)
next
  case (Some k)
  then have "k < length (procs s)" by (rule findIndex_bound)
  with Some show ?thesis
    using assms
    by (simp add: kill_def kmonad proc_ready_def spinlockAcquire_ok [of i] spinlockRelease_ok [of i]
        whenK_def killed_def)
qed

section \<open>Giving up the processor\<close>

lemma isHolding_ok: "in_section i s \<Longrightarrow> isHolding l s = Ret (holds i l s) s"
  by (intro isHolding_run) (auto simp: in_section_def cpu_ok_def)

lemma eflags_resync [simp]: "eflags (resync i s) = eflags s"
  by (simp add: resync_def)

definition depth :: "nat \<Rightarrow> 'a hw_scheme \<Rightarrow> int" where
  "depth i s = CliDepth (cpus s ! i)"

lemma depth_acquired [simp]: "cpu_ok i s \<Longrightarrow> depth i (acquired i l s) = depth i s + 1"
  using cpu_ok_bound [of i s] by (simp add: depth_def acquired_def)

lemma depth_set_procs [simp]: "depth i (set_procs ps s) = depth i s"
  by (simp add: depth_def)

lemma in_section_flags: "in_section i s \<Longrightarrow> eflags s AND FL_IF = 0"
  by (simp add: in_section_def cpu_ok_def)

lemma in_section_cpu_ok: "in_section i s \<Longrightarrow> cpu_ok i s"
  by (simp add: in_section_def)

lemma sched_enter_run:
  assumes "in_section i s" "curproc i s = Some k"
  shows "sched_enter s =
    (if \<not> holds i ProcessTableLock s then Panic ''sched processTable.Lock''
     else if depth i s \<noteq> 1 then Panic ''sched locks''
     else if State (procs s ! k) = RUNNING then Panic ''sched running''
     else Ret (InterruptsEnabled (cpus s ! i)) s)"
  using assms
  by (simp add: sched_enter_def kmonad myProcess_ok [of i] in_section_cpu_ok resync_section isHolding_ok [of i]
      myCpu_ok [of i] getCpu_def depth_def readExtendedFlags_def in_section_flags)

lemma released_section:
  assumes "in_section i s" "1 < depth i s"
  shows "in_section i (released i l s)" "depth i (released i l s) = depth i s - 1"
    "curproc i (released i l s) = curproc i s"
    "InterruptsEnabled (cpus (released i l s) ! i) = InterruptsEnabled (cpus s ! i)"
proof -
  have i: "i < length (cpus s)" and ok: "cpu_ok i s"
    using assms(1) by (auto simp: in_section_def intro: cpu_ok_bound)
  show "in_section i (released i l s)"
    using assms i ok cpu_ok_index [OF ok]
    by (simp add: in_section_def cpu_ok_def released_def depth_def popped_cpu popped_eflags)
  show "depth i (released i l s) = depth i s - 1" "curproc i (released i l s) = curproc i s"
    "InterruptsEnabled (cpus (released i l s) ! i) = InterruptsEnabled (cpus s ! i)"
    using i by (simp_all add: depth_def released_def popped_cpu curproc_def popped_def)
qed

lemma acquired_in_section:
  assumes "in_section i s"
  shows "InterruptsEnabled (cpus (acquired i l s) ! i) = InterruptsEnabled (cpus s ! i)"
  using assms cpu_ok_bound [of i s] by (simp add: in_section_def acquired_def pushed_InterruptsEnabled)

lemma yield_enter_run:
  assumes "proc_ready i s" "curproc i s = Some k" "k < NPROC"
  shows "yield_enter s =
    (if depth i s = 0
     then Ret (eflags s AND FL_IF) (set_procs ((procs s)[k := (procs s ! k)\<lparr>State := RUNNABLE\<rparr>]) (acquired i ProcessTableLock s))
     else Panic ''sched locks'')"
proof -
  let ?t = "set_procs ((procs s)[k := (procs s ! k)\<lparr>State := RUNNABLE\<rparr>]) (acquired i ProcessTableLock s)"
  have ok: "cpu_ok i s" "lock_free ProcessTableLock s" "length (procs s) = NPROC"
    using assms(1) by (simp_all add: proc_ready_def)
  have "yield_enter s = sched_enter ?t"
    using assms ok
    by (simp add: yield_enter_def kmonad spinlockAcquire_ok [of i] currentProcess_def myProcess_ok [of i])
  also have "\<dots> = (if depth i s = 0 then Ret (InterruptsEnabled (cpus ?t ! i)) ?t else Panic ''sched locks'')"
    using assms ok by (subst sched_enter_run [of i _ k]) simp_all
  finally show ?thesis
    using ok cpu_ok_bound [OF ok(1)]
    by (simp add: depth_def acquired_def pushed_InterruptsEnabled)
qed

lemma sleep_enter_run:
  assumes "in_section i s" "holds i l s" "lock_free ProcessTableLock s" "curproc i s = Some k"
    and "length (procs s) = NPROC" "k < NPROC"
  shows "sleep_enter chan (Some l) s =
    (if depth i s = 1
     then Ret (k, InterruptsEnabled (cpus s ! i))
       (set_procs ((procs s)[k := (procs s ! k)\<lparr>Chan := chan, State := SLEEPING\<rparr>])
         (released i l (acquired i ProcessTableLock s)))
     else Panic ''sched locks'')"
proof -
  let ?a = "acquired i ProcessTableLock s"
  let ?t = "set_procs ((procs s)[k := (procs s ! k)\<lparr>Chan := chan, State := SLEEPING\<rparr>]) (released i l ?a)"
  have l: "l \<noteq> ProcessTableLock"
    using assms(2,3) by (auto simp: holds_def lock_free_def)
  have ok: "cpu_ok i s" and d: "0 < depth i s"
    using assms(1) by (simp_all add: in_section_def depth_def)
  have a: "in_section i ?a" "1 < depth i ?a"
    using ok d by simp_all
  note r = released_section [OF a, of l]
  have "sleep_enter chan (Some l) s = bindK sched_enter (\<lambda>intena. returnK (k, intena)) ?t"
    using assms ok l
    by (simp add: sleep_enter_def kmonad myProcess_ok [of i] resync_section spinlockAcquire_ok [of i]
        spinlockRelease_ok [of i])
  also have "\<dots> = (if depth i s = 1 then Ret (k, InterruptsEnabled (cpus ?t ! i)) ?t else Panic ''sched locks'')"
    using assms ok l r by (simp add: kmonad sched_enter_run [of i _ k])
  finally show ?thesis
    using r assms(1) by (simp add: acquired_in_section)
qed

section \<open>The scheduler\<close>

definition set_current :: "nat \<Rightarrow> nat option \<Rightarrow> 'a hw_scheme \<Rightarrow> 'a hw_scheme" where
  "set_current i p s = s\<lparr>cpus := (cpus s)[i := (cpus s ! i)\<lparr>CpuProcess := p\<rparr>]\<rparr>"

lemma set_current_ok [simp]:
  assumes "cpu_ok i s"
  shows "cpu_ok i (set_current i p s)"
proof -
  have i: "cpu_index s = Some i" "i < length (cpus s)"
    using assms cpu_ok_bound by (auto simp: cpu_ok_def)
  have "cpu_index (set_current i p s) = Some i"
    using i by (intro cpu_index_upd [OF i(1), of "(cpus s ! i)\<lparr>CpuProcess := p\<rparr>"]) (simp_all add: set_current_def)
  then show ?thesis
    using assms i by (simp add: cpu_ok_def) (simp add: set_current_def)
qed

lemma set_current_section [simp]:
  "in_section i s \<Longrightarrow> in_section i (set_current i p s)" "holds j l (set_current i p s) = holds j l s"
  "lock_free l (set_current i p s) = lock_free l s"
  using cpu_ok_bound [of i s]
  by (auto simp: in_section_def holds_def lock_free_def) (auto simp: set_current_def)

lemma set_current_sel [simp]:
  "processTable (set_current i p s) = processTable s" "mmu (set_current i p s) = mmu s"
  by (simp_all add: set_current_def)

definition user_mmu :: "nat \<Rightarrow> u32 \<Rightarrow> u32 \<Rightarrow> MmuState \<Rightarrow> MmuState" where
  "user_mmu c kstack pgdir m =
     m\<lparr>Gdt := (Gdt m)(c := (Gdt m c)(5 := (SEG16 0x9 (TaskstateAddr m c) 103 0)\<lparr>seg_s := 0\<rparr>)),
       Task := (Task m)(c := (Task m c)\<lparr>ss0 := 16, esp0 := kstack + KSTACKSIZE, iomb := 0xFFFF\<rparr>),
       cr3 := V2P pgdir\<rparr>"

lemma switchToUserVirtualMemory_run:
  assumes "in_section i s" "kstack \<noteq> 0" "pgdir \<noteq> 0"
  shows "switchToUserVirtualMemory (Some (kstack, pgdir)) s = Ret () (s\<lparr>mmu := user_mmu i kstack pgdir (mmu s)\<rparr>)"
proof -
  let ?u = "mmu_update (\<lambda>_. user_mmu i kstack pgdir (mmu s)) s"
  have ok: "cpu_ok i s" "cpu_index s = Some i"
    using assms(1) by (simp_all add: in_section_def cpu_ok_def)
  have push: "pushed i ?u = (pushed i s)\<lparr>mmu := user_mmu i kstack pgdir (mmu s)\<rparr>" "mmu (pushed i s) = mmu s"
    by (simp_all add: pushed_def)
  have pop: "popCli (pushed i ?u) = Ret () ?u"
  proof -
    have "popCli (pushed i ?u) = Ret () (popped i (pushed i ?u))"
      using ok cpu_ok_bound [OF ok(1)] by (intro popCli_run) (simp_all add: cpu_ok_def)
    also have "popped i (pushed i ?u) = ?u"
      using assms ok by (simp add: popped_pushed resync_section)
    finally show ?thesis .
  qed
  have "switchToUserVirtualMemory (Some (kstack, pgdir)) s = popCli (pushed i ?u)"
    unfolding push(1)
    using assms(2,3) ok
    by (simp add: switchToUserVirtualMemory_def kmonad pushCli_run updMmu_def setGdt_def user_mmu_def push(2))
  with pop show ?thesis by simp
qed

definition dispatched :: "nat \<Rightarrow> nat \<Rightarrow> 'a kproc_scheme \<Rightarrow> 'a kproc_scheme" where
  "dispatched i k s =
     set_procs ((procs s)[k := (procs s ! k)\<lparr>State := RUNNING\<rparr>])
       ((set_current i (Some k) s)\<lparr>mmu := user_mmu i (KernelStack (procs s ! k)) (PageTable (procs s ! k)) (mmu s)\<rparr>)"

definition loadable :: "'a kproc_scheme \<Rightarrow> bool" where
  "loadable s \<longleftrightarrow> (\<forall>p \<in> set (procs s). State p = RUNNABLE \<longrightarrow> KernelStack p \<noteq> 0 \<and> PageTable p \<noteq> 0)"

lemma updCpu_current: "updCpu i (\<lambda>cpu. cpu\<lparr>CpuProcess := p\<rparr>) s = Ret () (set_current i p s)"
  by (simp add: updCpu_def set_current_def)

lemma scheduler_scan_run:
  assumes "in_section i s" "holds i ProcessTableLock s" "loadable s" "\<forall>k \<in> set ks. k < length (procs s)"
  shows "scheduler_scan i ks s =
    (case List.find (\<lambda>k. State (procs s ! k) = RUNNABLE) ks of
       None \<Rightarrow> Ret None (released i ProcessTableLock s)
     | Some k \<Rightarrow> Ret (Some k) (dispatched i k s))"
  using assms
proof (induction ks)
  case Nil
  then show ?case by (simp add: kmonad spinlockRelease_ok [of i])
next
  case (Cons k ks)
  show ?case
  proof (cases "State (procs s ! k) = RUNNABLE")
    case True
    then have "KernelStack (procs s ! k) \<noteq> 0" "PageTable (procs s ! k) \<noteq> 0"
      using Cons.prems by (auto simp: loadable_def)
    then show ?thesis
      using True Cons.prems
      by (simp add: kmonad updCpu_current switchToUserVirtualMemory_run [of i] dispatched_def)
  next
    case False
    then show ?thesis using Cons by (simp add: kmonad)
  qed
qed

lemma loadable_set_current [simp]: "loadable (set_current i p s) = loadable s"
  by (simp add: loadable_def)

lemma scan_reaches:
  assumes "in_section i s" "holds i ProcessTableLock s" "loadable s" "length (procs s) = NPROC"
    and "j \<le> k" "k < NPROC" "State (procs s ! k) = RUNNABLE"
  obtains k' where "scheduler_scan i [j..<NPROC] s = Ret (Some k') (dispatched i k' s)" "j \<le> k'" "k' \<le> k"
    "State (procs s ! k') = RUNNABLE"
proof -
  let ?P = "\<lambda>k. State (procs s ! k) = RUNNABLE"
  obtain k' where k': "List.find ?P [j..<NPROC] = Some k'"
    using assms(5-7) by (cases "List.find ?P [j..<NPROC]") (auto simp: find_None_iff)
  then obtain m where m: "m < NPROC - j" "?P (j + m)" "k' = j + m" "\<forall>n < m. \<not> ?P (j + n)"
    by (auto simp: find_Some_iff)
  have "k' \<le> k"
  proof (rule ccontr)
    assume "\<not> k' \<le> k"
    then have "k - j < m" using m(3) assms(5) by linarith
    with m(4) have "\<not> ?P (j + (k - j))" by blast
    then show False using assms(5,7) by simp
  qed
  moreover have "scheduler_scan i [j..<NPROC] s = Ret (Some k') (dispatched i k' s)"
    using assms k' by (subst scheduler_scan_run) simp_all
  ultimately show thesis using m that by simp
qed

text \<open>
  \<open>serve c env n r\<close> lists the processes that one round of \<^verbatim>\<open>scheduler\<close> runs after its first stop \<open>r\<close>, at most
  \<open>n\<close> of them: the function \<open>env\<close> is what a process (and the rest of the machine) does between being
  switched to and switching back.
\<close>

fun serve :: "nat \<Rightarrow> (nat \<Rightarrow> 'a kproc_scheme \<Rightarrow> 'a kproc_scheme) \<Rightarrow> nat \<Rightarrow>
    ('a kproc_scheme, nat option) outcome \<Rightarrow> nat list" where
  "serve c env 0 r = []"
| "serve c env (Suc n) r =
     (case r of Ret (Some k) t \<Rightarrow> k # serve c env n (scheduler_resume c k (env k t)) | _ \<Rightarrow> [])"

definition in_scheduler :: "nat \<Rightarrow> 'a kproc_scheme \<Rightarrow> bool" where
  "in_scheduler i s \<longleftrightarrow> in_section i s \<and> holds i ProcessTableLock s \<and> loadable s \<and> length (procs s) = NPROC"

lemma scheduler_resume_scan:
  assumes "in_scheduler i s"
  obtains t where "scheduler_resume i k s = scheduler_scan i [Suc k..<NPROC] t" "in_scheduler i t" "procs t = procs s"
proof
  let ?t = "set_current i None (s\<lparr>mmu := (mmu s)\<lparr>cr3 := V2P (kernelPageDirectory (mmu s))\<rparr>\<rparr>)"
  show "scheduler_resume i k s = scheduler_scan i [Suc k..<NPROC] ?t"
    by (simp add: scheduler_resume_def kmonad switchToKernelVirtualMemory_def updMmu_def updCpu_current)
  show "in_scheduler i ?t" "procs ?t = procs s"
    using assms by (simp_all add: in_scheduler_def) (simp add: loadable_def)
qed

lemma serve_reaches:
  assumes "\<And>k' t. in_scheduler i t \<Longrightarrow> State (procs t ! k) = RUNNABLE \<Longrightarrow> k' < k \<Longrightarrow>
      in_scheduler i (env k' (dispatched i k' t)) \<and> State (procs (env k' (dispatched i k' t)) ! k) = RUNNABLE"
    and "k < NPROC"
  shows "in_scheduler i s \<Longrightarrow> State (procs s ! k) = RUNNABLE \<Longrightarrow> j \<le> k \<Longrightarrow> k - j < n \<Longrightarrow>
    k \<in> set (serve i env n (scheduler_scan i [j..<NPROC] s))"
proof (induction n arbitrary: j s)
  case (Suc n)
  obtain k' where k': "scheduler_scan i [j..<NPROC] s = Ret (Some k') (dispatched i k' s)" "j \<le> k'" "k' \<le> k"
    using scan_reaches [of i s j k] Suc.prems assms(2) by (auto simp: in_scheduler_def)
  show ?case
  proof (cases "k' = k")
    case False
    then have "k' < k" using k'(3) by simp
    let ?t = "env k' (dispatched i k' s)"
    from assms(1) [OF Suc.prems(1,2) \<open>k' < k\<close>] have t: "in_scheduler i ?t" "State (procs ?t ! k) = RUNNABLE"
      by simp_all
    obtain u where u: "scheduler_resume i k' ?t = scheduler_scan i [Suc k'..<NPROC] u" "in_scheduler i u" "procs u = procs ?t"
      using scheduler_resume_scan [OF t(1)] by blast
    have "k \<in> set (serve i env n (scheduler_scan i [Suc k'..<NPROC] u))"
      using Suc.IH [of u "Suc k'"] u t k' \<open>k' < k\<close> Suc.prems(4) by simp
    then show ?thesis using k' u(1) by simp
  qed (use k' in simp)
qed simp

section \<open>Sleeping until woken\<close>

lemma released_lock_free [simp]: "lock_free l (released i l s)"
  by (simp add: lock_free_def released_def)

lemma released_ok:
  assumes "in_section i s"
  shows "cpu_ok i (released i l s)" "depth i (released i l s) = depth i s - 1"
    "curproc i (released i l s) = curproc i s"
proof -
  have i: "i < length (cpus s)" and ok: "cpu_ok i s"
    using assms by (auto simp: in_section_def intro: cpu_ok_bound)
  show "cpu_ok i (released i l s)"
    using assms i ok cpu_ok_index [OF ok]
    by (auto simp: in_section_def cpu_ok_def released_def popped_cpu popped_eflags)
  show "depth i (released i l s) = depth i s - 1" "curproc i (released i l s) = curproc i s"
    using i by (simp_all add: depth_def released_def popped_cpu curproc_def popped_def)
qed

lemma set_current_depth [simp]: "cpu_ok i s \<Longrightarrow> depth i (set_current i p s) = depth i s"
  and set_current_curproc [simp]: "cpu_ok i s \<Longrightarrow> curproc i (set_current i p s) = p"
  using cpu_ok_bound [of i s] by (simp_all add: depth_def curproc_def set_current_def)

lemma depth_resync [simp]: "cpu_ok i s \<Longrightarrow> depth i (resync i s) = depth i s"
  using cpu_ok_bound [of i s] by (simp add: depth_def resync_def)

lemma mmu_depth [simp]: "depth i (s\<lparr>mmu := m\<rparr>) = depth i s"
  by (simp add: depth_def)

lemma scheduler_resume_idle:
  assumes "in_scheduler i s" "\<forall>p \<in> set (procs s). State p \<noteq> RUNNABLE" "k < NPROC"
  obtains u where "scheduler_resume i k s = Ret None u" "cpu_ok i u" "lock_free ProcessTableLock u"
    "depth i u = depth i s - 1" "procs u = procs s"
    "\<And>l. l \<noteq> ProcessTableLock \<Longrightarrow> lock_free l u = lock_free l s"
proof -
  let ?t = "set_current i None (s\<lparr>mmu := (mmu s)\<lparr>cr3 := V2P (kernelPageDirectory (mmu s))\<rparr>\<rparr>)"
  have s: "in_section i s" "holds i ProcessTableLock s" "length (procs s) = NPROC" "cpu_ok i s"
    using assms(1) by (simp_all add: in_scheduler_def in_section_def)
  have "scheduler_resume i k s = scheduler_scan i [Suc k..<NPROC] ?t"
    by (simp add: scheduler_resume_def kmonad switchToKernelVirtualMemory_def updMmu_def updCpu_current)
  also have "\<dots> = Ret None (released i ProcessTableLock ?t)"
  proof -
    have "List.find (\<lambda>k. State (procs s ! k) = RUNNABLE) [Suc k..<NPROC] = None"
      using assms(2) s(3) by (auto simp: find_None_iff)
    moreover have "loadable ?t" using assms(2) by (simp add: loadable_def)
    ultimately show ?thesis using s by (subst scheduler_scan_run) simp_all
  qed
  finally show thesis
    using that released_ok [of i ?t ProcessTableLock] s by simp
qed

lemma scheduler_round_picks:
  assumes "proc_ready i s" "depth i s = 0" "loadable s"
    and "List.find (\<lambda>k. State (procs s ! k) = RUNNABLE) [0..<NPROC] = Some k"
  obtains w where "scheduler_round i s = Ret (Some k) w" "in_section i w" "depth i w = 1"
    "holds i ProcessTableLock w" "curproc i w = Some k"
    "procs w = (procs s)[k := (procs s ! k)\<lparr>State := RUNNING\<rparr>]"
    "\<And>l. l \<noteq> ProcessTableLock \<Longrightarrow> lock_free l w = lock_free l s"
proof -
  let ?e = "s\<lparr>eflags := eflags s OR FL_IF\<rparr>" let ?a = "acquired i ProcessTableLock ?e"
  have s: "cpu_ok i s" "lock_free ProcessTableLock s" "length (procs s) = NPROC"
    using assms(1) by (simp_all add: proc_ready_def)
  have e: "cpu_ok i ?e" "depth i ?e = 0" "\<And>l. lock_free l ?e = lock_free l s" "procs ?e = procs s"
    using s(1) assms(2) by (simp_all add: cpu_ok_def depth_def lock_free_def)
  have "scheduler_round i s = scheduler_scan i [0..<NPROC] ?a"
    using s e by (simp add: scheduler_round_def kmonad enableInterrupts_def spinlockAcquire_ok [of i])
  also have "\<dots> = Ret (Some k) (dispatched i k ?a)"
  proof -
    have "loadable ?a" using assms(3) by (simp add: loadable_def)
    then show ?thesis using e s assms(4) by (subst scheduler_scan_run) simp_all
  qed
  finally show thesis
    using that e by (simp add: dispatched_def)
qed

lemma sleep_exit_run:
  assumes "in_section i w" "depth i w = 1" "holds i ProcessTableLock w" "lock_free l w" "l \<noteq> ProcessTableLock"
    and "intena = 0 \<or> intena = FL_IF"
  obtains z where "sleep_exit l (k, intena) w = Ret () z" "in_section i z" "holds i l z" "depth i z = 1"
    "curproc i z = curproc i w" "procs z = (procs w)[k := (procs w ! k)\<lparr>Chan := NullChan\<rparr>]"
    "InterruptsEnabled (cpus z ! i) = intena" "lock_free ProcessTableLock z"
    "\<And>l'. l' \<noteq> l \<Longrightarrow> l' \<noteq> ProcessTableLock \<Longrightarrow> lock_free l' z = lock_free l' w"
proof -
  let ?x = "w\<lparr>cpus := (cpus w)[i := (cpus w ! i)\<lparr>InterruptsEnabled := intena\<rparr>]\<rparr>"
  let ?y = "set_procs ((procs w)[k := (procs w ! k)\<lparr>Chan := NullChan\<rparr>]) ?x"
  let ?r = "released i ProcessTableLock ?y"
  have w: "cpu_ok i w" "cpu_index w = Some i" "i < length (cpus w)" "eflags w AND FL_IF = 0"
    using assms(1) cpu_ok_bound in_section_flags by (auto simp: in_section_def cpu_ok_def)
  have ix: "cpu_index ?x = Some i"
    using w by (intro cpu_index_upd [OF w(2), of "(cpus w ! i)\<lparr>InterruptsEnabled := intena\<rparr>"]) simp_all
  have x: "in_section i ?x" "depth i ?x = 1" "holds i ProcessTableLock ?x" "lock_free l ?x" "curproc i ?x = curproc i w"
    using assms w ix by (simp_all add: in_section_def cpu_ok_def depth_def holds_def lock_free_def curproc_def)
  have y: "in_section i ?y" using x by simp
  note r = released_ok [OF y, of ProcessTableLock]
  have "eflags ?r AND FL_IF = intena"
    using assms(2,6) w x by (auto simp: released_def popped_eflags depth_def and_FL_IF_zero)
  then have "InterruptsEnabled (cpus (acquired i l ?r) ! i) = intena"
    using r x cpu_ok_bound [OF r(1)]
    by (simp add: acquired_def pushed_InterruptsEnabled) (simp add: depth_def)
  moreover have "sleep_exit l (k, intena) w = Ret () (acquired i l ?r)"
    using assms(5) x y r w
    by (simp add: sleep_exit_def sched_exit_def kmonad myCpu_ok [OF assms(1)] updCpu_def
        spinlockRelease_ok [of i] spinlockAcquire_ok [of i])
  moreover have "lock_free l' ?x = lock_free l' w" for l' by (simp add: lock_free_def)
  ultimately show thesis
    using that r x assms(5) by simp
qed

text \<open>
  The two halves of a sleep on a processor with nothing else to run: from the call of \<^verbatim>\<open>sleep\<close> to the idle
  scheduler, and from the table in which the process is runnable again to the return of \<^verbatim>\<open>sleep\<close>.
\<close>

lemma sleep_to_idle:
  assumes "in_section i s" "depth i s = 1" "holds i l s" "lock_free ProcessTableLock s"
    and "curproc i s = Some k" "k < NPROC" "length (procs s) = NPROC"
    and "\<forall>m < NPROC. m \<noteq> k \<longrightarrow> State (procs s ! m) \<noteq> RUNNABLE"
  obtains t u where "sleep_enter chan (Some l) s = Ret (k, InterruptsEnabled (cpus s ! i)) t"
    "in_section i t" "scheduler_resume i k t = Ret None u" "cpu_ok i u" "depth i u = 0" "lock_free l u"
    "lock_free ProcessTableLock u"
    "\<And>l'. l' \<noteq> l \<Longrightarrow> l' \<noteq> ProcessTableLock \<Longrightarrow> lock_free l' u = lock_free l' s"
    "procs u = (procs s)[k := (procs s ! k)\<lparr>Chan := chan, State := SLEEPING\<rparr>]"
proof -
  let ?ps = "(procs s)[k := (procs s ! k)\<lparr>Chan := chan, State := SLEEPING\<rparr>]"
  let ?t = "set_procs ?ps (released i l (acquired i ProcessTableLock s))"
  have l: "l \<noteq> ProcessTableLock" using assms(3,4) by (auto simp: holds_def lock_free_def)
  have a: "in_section i (acquired i ProcessTableLock s)" "1 < depth i (acquired i ProcessTableLock s)"
    using assms(1,2) by (simp_all add: in_section_cpu_ok)
  note r = released_section [OF a, of l]
  have nr: "\<forall>p \<in> set ?ps. State p \<noteq> RUNNABLE"
    unfolding all_set_conv_all_nth using assms(6-8) by (simp add: nth_list_update)
  have t: "in_scheduler i ?t" "depth i ?t = 1" "lock_free l ?t"
    using r l nr assms(1,2,7) by (simp_all add: in_scheduler_def loadable_def in_section_cpu_ok)
  have e: "sleep_enter chan (Some l) s = Ret (k, InterruptsEnabled (cpus s ! i)) ?t"
    using sleep_enter_run [OF assms(1,3,4,5,7,6), of chan] assms(2) by presburger
  have "\<forall>p \<in> set (procs ?t). State p \<noteq> RUNNABLE" using nr by simp
  then obtain u where u: "scheduler_resume i k ?t = Ret None u" "cpu_ok i u" "lock_free ProcessTableLock u"
      "depth i u = depth i ?t - 1" "procs u = procs ?t"
      "\<And>l. l \<noteq> ProcessTableLock \<Longrightarrow> lock_free l u = lock_free l ?t"
    using scheduler_resume_idle [OF t(1) _ assms(6)] by blast
  show thesis
    using that [OF e _ u(1,2) _ _ u(3)] t u(4-6) l by (simp add: in_scheduler_def)
qed

lemma wake_to_run:
  assumes "proc_ready i v" "depth i v = 0" "lock_free l v" "l \<noteq> ProcessTableLock"
    and "procs v = ps[k := (ps ! k)\<lparr>Chan := chan, State := RUNNABLE\<rparr>]" "k < NPROC"
    and "State (ps ! k) = RUNNING" "KernelStack (ps ! k) \<noteq> 0" "PageTable (ps ! k) \<noteq> 0"
    and "\<forall>m < NPROC. m \<noteq> k \<longrightarrow> State (ps ! m) \<noteq> RUNNABLE" "intena \<in> {0, FL_IF}"
  obtains w z where "scheduler_round i v = Ret (Some k) w" "sleep_exit l (k, intena) w = Ret () z"
    "in_section i z" "holds i l z" "depth i z = 1" "curproc i z = Some k"
    "InterruptsEnabled (cpus z ! i) = intena" "lock_free ProcessTableLock z"
    "procs z = ps[k := (ps ! k)\<lparr>Chan := NullChan\<rparr>]"
    "\<And>l'. l' \<noteq> l \<Longrightarrow> l' \<noteq> ProcessTableLock \<Longrightarrow> lock_free l' z = lock_free l' v"
proof -
  have n: "length ps = NPROC" using assms(1,5) by (simp add: proc_ready_def)
  have "List.find (\<lambda>m. State (procs v ! m) = RUNNABLE) [0..<NPROC] = Some k"
    unfolding assms(5) using assms(6,10) n
    by (auto simp: find_Some_iff nth_list_update intro!: exI [of _ k])
  moreover have "loadable v"
    unfolding loadable_def assms(5) all_set_conv_all_nth using assms(6,8,9,10) n by (simp add: nth_list_update)
  ultimately obtain w where w: "scheduler_round i v = Ret (Some k) w" "in_section i w" "depth i w = 1"
      "holds i ProcessTableLock w" "curproc i w = Some k"
      "procs w = (procs v)[k := (procs v ! k)\<lparr>State := RUNNING\<rparr>]"
      "\<And>l'. l' \<noteq> ProcessTableLock \<Longrightarrow> lock_free l' w = lock_free l' v"
    using scheduler_round_picks [OF assms(1,2), of k] by blast
  have lw: "lock_free l w" "intena = 0 \<or> intena = FL_IF" using w(7) assms(3,4,11) by auto
  obtain z where z: "sleep_exit l (k, intena) w = Ret () z" "in_section i z" "holds i l z" "depth i z = 1"
      "curproc i z = curproc i w" "procs z = (procs w)[k := (procs w ! k)\<lparr>Chan := NullChan\<rparr>]"
      "InterruptsEnabled (cpus z ! i) = intena" "lock_free ProcessTableLock z"
      "\<And>l'. l' \<noteq> l \<Longrightarrow> l' \<noteq> ProcessTableLock \<Longrightarrow> lock_free l' z = lock_free l' w"
    using sleep_exit_run [OF w(2,3,4) lw(1) assms(4) lw(2), of k] by blast
  have "procs z = ps[k := (ps ! k)\<lparr>Chan := NullChan\<rparr>]"
    unfolding z(6) w(6) assms(5) using assms(6,7) n
    by simp (intro arg_cong [where f = "list_update ps k"] Process.equality; simp)
  then show thesis using that w z by simp
qed

section \<open>Properties\<close>

text \<open>A machine with an idle boot processor and a table of given processes, for concrete instances.\<close>

definition blank_process :: Process where
  "blank_process = \<lparr>MemorySize = 0, PageTable = 0, KernelStack = 0, State = UNUSED, ProcessId = 0,
     Parent = None, Trapframe = 0, Context = 0, Chan = NullChan, IsKilled = 0,
     OpenFile = replicate NOFILE None, Cwd = [], Name = []\<rparr>"

definition live_process :: "procstate \<Rightarrow> int \<Rightarrow> Process" where
  "live_process st pid = blank_process\<lparr>State := st, ProcessId := pid, KernelStack := 0x80300000, PageTable := 0x80301000\<rparr>"

definition boot_kproc :: "Process list \<Rightarrow> kproc" where
  "boot_kproc ps = vm.extend (console.extend boot_console \<lparr>mmu = blank_mmu\<rparr>)
     \<lparr>processTable = \<lparr>Processes = ps @ replicate (NPROC - length ps) blank_process, initproc = None, nextpid = 1\<rparr>\<rparr>"

lemma boot_kproc_sel [simp]:
  "cpus (boot_kproc ps) = [boot_cpu]" "ncpu (boot_kproc ps) = 1" "localApicId (boot_kproc ps) = 0"
  "eflags (boot_kproc ps) = FL_IF" "locks (boot_kproc ps) = (\<lambda>_. unlocked)"
  "procs (boot_kproc ps) = ps @ replicate (NPROC - length ps) blank_process"
  by (simp_all add: boot_kproc_def boot_console_def boot_kalloc_def kalloc.defs console.defs vm.defs)

lemma boot_kproc_ready: "length ps \<le> NPROC \<Longrightarrow> proc_ready 0 (boot_kproc ps)"
  by (simp add: proc_ready_def boot_cpu_ok boot_lock_free)

text \<open>
  C33: \<^verbatim>\<open>wakeup\<close>.  Called with the process table lock free, \<^verbatim>\<open>wakeup(chan)\<close> returns with the lock free again, and the whole state is as
  before, except that every process that slept on \<open>chan\<close> is runnable and that outside of any nested section the processor
  has recorded its interrupt flag again (\<open>resync\<close>).
\<close>

theorem wakeup_exact:
  assumes "proc_ready i s"
  shows "\<exists>t. wakeup chan s = Ret () t \<and> proc_ready i t \<and> eflags t = eflags s \<and>
    t = (resync i s)\<lparr>processTable := (processTable s)\<lparr>Processes :=
      map (\<lambda>p. if State p = SLEEPING \<and> Chan p = chan then p\<lparr>State := RUNNABLE\<rparr> else p) (procs s)\<rparr>\<rparr> \<and>
    (\<forall>k. k < NPROC \<longrightarrow> procs t ! k =
       (if State (procs s ! k) = SLEEPING \<and> Chan (procs s ! k) = chan
        then (procs s ! k)\<lparr>State := RUNNABLE\<rparr> else procs s ! k))"
proof -
  have "woken chan = (\<lambda>p. if State p = SLEEPING \<and> Chan p = chan then p\<lparr>State := RUNNABLE\<rparr> else p)" by (simp add: woken_def fun_eq_iff)
  then show ?thesis using assms by (auto simp: wakeup_run proc_ready_def set_procs_def)
qed

theorem wakeup_exact_witness:
  "\<exists>t. wakeup TicksChan (boot_kproc [(live_process SLEEPING 1)\<lparr>Chan := TicksChan\<rparr>]) = Ret () t \<and>
    State (procs t ! 0) = RUNNABLE"
proof -
  let ?s = "boot_kproc [(live_process SLEEPING 1)\<lparr>Chan := TicksChan\<rparr>]"
  have "proc_ready 0 ?s" by (simp add: boot_kproc_ready NPROC_def)
  from wakeup_exact [OF this, of TicksChan] obtain t where t: "wakeup TicksChan ?s = Ret () t"
    "\<And>k. k < NPROC \<Longrightarrow> procs t ! k = (if State (procs ?s ! k) = SLEEPING \<and> Chan (procs ?s ! k) = TicksChan
        then (procs ?s ! k)\<lparr>State := RUNNABLE\<rparr> else procs ?s ! k)"
    by blast
  then show ?thesis
    using t(2) [of 0] by (auto simp: live_process_def NPROC_def)
qed

text \<open>
  C14: sleep and wakeup.  A process that holds one lock calls \<^verbatim>\<open>sleep\<close> on a channel while nobody else is
  runnable or sleeps there.  The processor goes idle with that lock free and the process table
  consistent; after a \<^verbatim>\<open>wakeup\<close> of the channel the scheduler runs that process, and \<^verbatim>\<open>sleep\<close> returns
  to its caller with the lock held again, the channel cleared, the nesting depth and the saved
  interrupt state of the caller restored, and every other process as it was.
\<close>

theorem sleep_wakeup_resume:
  assumes "in_section i s" "depth i s = 1" "holds i l s" "lock_free ProcessTableLock s"
    and "curproc i s = Some k" "k < NPROC" "length (procs s) = NPROC"
    and "State (procs s ! k) = RUNNING" "KernelStack (procs s ! k) \<noteq> 0" "PageTable (procs s ! k) \<noteq> 0"
    and "InterruptsEnabled (cpus s ! i) \<in> {0, FL_IF}"
    and "\<forall>m < NPROC. m \<noteq> k \<longrightarrow> State (procs s ! m) \<noteq> RUNNABLE \<and>
      \<not> (State (procs s ! m) = SLEEPING \<and> Chan (procs s ! m) = chan)"
  shows "\<exists>local t u v w z. sleep_enter chan (Some l) s = Ret local t \<and>
    scheduler_resume i k t = Ret None u \<and> lock_free l u \<and> lock_free ProcessTableLock u \<and>
    State (procs u ! k) = SLEEPING \<and>
    wakeup chan u = Ret () v \<and> scheduler_round i v = Ret (Some k) w \<and> sleep_exit l local w = Ret () z \<and>
    holds i l z \<and> depth i z = 1 \<and> curproc i z = Some k \<and>
    InterruptsEnabled (cpus z ! i) = InterruptsEnabled (cpus s ! i) \<and>
    procs z = (procs s)[k := (procs s ! k)\<lparr>Chan := NullChan\<rparr>]"
proof -
  let ?ps = "(procs s)[k := (procs s ! k)\<lparr>Chan := chan, State := SLEEPING\<rparr>]"
  let ?ie = "InterruptsEnabled (cpus s ! i)"
  have l: "l \<noteq> ProcessTableLock" using assms(3,4) by (auto simp: holds_def lock_free_def)
  have nr: "\<forall>m < NPROC. m \<noteq> k \<longrightarrow> State (procs s ! m) \<noteq> RUNNABLE" using assms(12) by blast
  obtain t u where u: "sleep_enter chan (Some l) s = Ret (k, ?ie) t" "scheduler_resume i k t = Ret None u"
      "cpu_ok i u" "depth i u = 0" "lock_free l u" "lock_free ProcessTableLock u" "procs u = ?ps"
    using sleep_to_idle [OF assms(1-7) nr, of chan] by metis
  let ?v = "set_procs (map (woken chan) ?ps) (resync i u)"
  have ready: "proc_ready i u" using u assms(7) by (simp add: proc_ready_def)
  have v: "wakeup chan u = Ret () ?v" using u(7) by (simp add: wakeup_run [OF ready])
  have "map (woken chan) ?ps = (procs s)[k := (procs s ! k)\<lparr>Chan := chan, State := RUNNABLE\<rparr>]"
    using assms(6,7,12) by (intro nth_equalityI) (auto simp: nth_list_update woken_def)
  then have pv: "proc_ready i ?v" "depth i ?v = 0" "lock_free l ?v"
      "procs ?v = (procs s)[k := (procs s ! k)\<lparr>Chan := chan, State := RUNNABLE\<rparr>]"
    using ready u assms(7) by (simp_all add: proc_ready_def)
  obtain w z where "scheduler_round i ?v = Ret (Some k) w" "sleep_exit l (k, ?ie) w = Ret () z"
      "holds i l z" "depth i z = 1" "curproc i z = Some k" "InterruptsEnabled (cpus z ! i) = ?ie"
      "procs z = (procs s)[k := (procs s ! k)\<lparr>Chan := NullChan\<rparr>]"
    using wake_to_run [OF pv(1-3) l pv(4) assms(6,8-10) nr assms(11)] by metis
  then show ?thesis
    using u v assms(6,7) by fastforce
qed

definition one_running :: kproc where
  "one_running = set_current 0 (Some 0) (boot_kproc [live_process RUNNING 1])"

lemma one_running_ready:
  "proc_ready 0 one_running" "curproc 0 one_running = Some 0" "depth 0 one_running = 0" "lock_free l one_running"
  "procs one_running = live_process RUNNING 1 # replicate 63 blank_process" "eflags one_running = FL_IF"
proof -
  let ?b = "boot_kproc [live_process RUNNING 1]"
  have b: "proc_ready 0 ?b" by (simp add: boot_kproc_ready NPROC_def)
  then show "proc_ready 0 one_running" by (simp add: proc_ready_def one_running_def)
  show "curproc 0 one_running = Some 0" "depth 0 one_running = 0"
    using b by (simp_all add: proc_ready_def one_running_def) (simp add: depth_def boot_cpu_def)
  show "lock_free l one_running" by (simp add: one_running_def boot_lock_free)
  show "procs one_running = live_process RUNNING 1 # replicate 63 blank_process"
    by (simp add: one_running_def NPROC_def)
  show "eflags one_running = FL_IF" by (simp add: one_running_def set_current_def)
qed

theorem sleep_wakeup_resume_witness:
  "\<exists>local t u v w z. sleep_enter InputChan (Some ConsLock) (acquired 0 ConsLock one_running) = Ret local t \<and>
    scheduler_resume 0 0 t = Ret None u \<and> State (procs u ! 0) = SLEEPING \<and>
    wakeup InputChan u = Ret () v \<and> scheduler_round 0 v = Ret (Some 0) w \<and> sleep_exit ConsLock local w = Ret () z \<and>
    holds 0 ConsLock z"
proof -
  let ?s = "acquired 0 ConsLock one_running"
  have ok: "cpu_ok 0 one_running" "lock_free ProcessTableLock one_running" "length (procs one_running) = NPROC"
    using one_running_ready(1) by (simp_all add: proc_ready_def)
  have ie: "InterruptsEnabled (cpus ?s ! 0) \<in> {0, FL_IF}"
    using one_running_ready(3,6) cpu_ok_bound [OF ok(1)]
    by (simp add: acquired_def pushed_InterruptsEnabled depth_def)
  have p: "procs ?s ! m = (if m = 0 then live_process RUNNING 1 else blank_process)" if "m < NPROC" for m
    using that by (cases m) (simp_all add: one_running_ready(5) NPROC_def)
  have "0 < NPROC" by (simp add: NPROC_def)
  show ?thesis
    using sleep_wakeup_resume [of 0 ?s ConsLock 0 InputChan] ok one_running_ready(2,3) ie p \<open>0 < NPROC\<close>
    by (simp add: live_process_def blank_process_def) blast
qed

text \<open>
  C17: fairness of the scheduler.  Start a round of \<^verbatim>\<open>scheduler\<close> on an idle processor with process \<open>k\<close>
  runnable.  Whatever the processes that run before it do, as long as each switches back holding the
  process table lock with the table consistent and \<open>k\<close> still runnable, the round runs process \<open>k\<close>.
\<close>

theorem scheduler_serves_runnable:
  assumes "proc_ready i s" "depth i s = 0" "loadable s" "k < NPROC" "State (procs s ! k) = RUNNABLE"
    and "\<And>k' t. in_scheduler i t \<Longrightarrow> State (procs t ! k) = RUNNABLE \<Longrightarrow> k' < k \<Longrightarrow>
      in_scheduler i (env k' (dispatched i k' t)) \<and> State (procs (env k' (dispatched i k' t)) ! k) = RUNNABLE"
  shows "k \<in> set (serve i env NPROC (scheduler_round i s))"
proof -
  let ?e = "s\<lparr>eflags := eflags s OR FL_IF\<rparr>" let ?a = "acquired i ProcessTableLock ?e"
  have s: "cpu_ok i s" "lock_free ProcessTableLock s" "length (procs s) = NPROC"
    using assms(1) by (simp_all add: proc_ready_def)
  have e: "cpu_ok i ?e" "lock_free ProcessTableLock ?e"
    using s assms(2) by (simp_all add: cpu_ok_def depth_def lock_free_def)
  have "scheduler_round i s = scheduler_scan i [0..<NPROC] ?a"
    using e by (simp add: scheduler_round_def kmonad enableInterrupts_def spinlockAcquire_ok [of i])
  moreover have "in_scheduler i ?a"
    using e s assms(3) by (simp add: in_scheduler_def loadable_def)
  ultimately show ?thesis
    using serve_reaches [of i k env ?a 0 NPROC] assms(4-6) by simp
qed

text \<open>The behaviour of a process that goes to sleep as soon as it runs.\<close>

definition naps :: "nat \<Rightarrow> kproc \<Rightarrow> kproc" where
  "naps k t = set_procs ((procs t)[k := (procs t ! k)\<lparr>State := SLEEPING\<rparr>]) t"

lemma in_scheduler_naps:
  assumes "in_scheduler i t" "k < NPROC"
  shows "in_scheduler i (naps k (dispatched i k t))"
proof -
  have "in_section i t" "holds i ProcessTableLock t" "length (procs t) = NPROC" "loadable t"
    using assms(1) by (simp_all add: in_scheduler_def)
  then show ?thesis
    using assms(2) by (auto simp: in_scheduler_def naps_def dispatched_def loadable_def all_set_conv_all_nth nth_list_update)
qed

theorem scheduler_serves_runnable_witness:
  "1 \<in> set (serve 0 naps NPROC (scheduler_round 0 (boot_kproc [live_process RUNNABLE 1, live_process RUNNABLE 2])))"
proof (rule scheduler_serves_runnable)
  let ?s = "boot_kproc [live_process RUNNABLE 1, live_process RUNNABLE 2]"
  show "proc_ready 0 ?s" by (simp add: boot_kproc_ready NPROC_def)
  show "depth 0 ?s = 0" by (simp add: depth_def boot_cpu_def)
  show "loadable ?s" by (simp add: loadable_def NPROC_def live_process_def blank_process_def)
  show "(1 :: nat) < NPROC" "State (procs ?s ! 1) = RUNNABLE"
    by (simp_all add: NPROC_def live_process_def)
  fix k' :: nat and t :: kproc
  assume "in_scheduler 0 t" "State (procs t ! 1) = RUNNABLE" "k' < 1"
  then show "in_scheduler 0 (naps k' (dispatched 0 k' t)) \<and> State (procs (naps k' (dispatched 0 k' t)) ! 1) = RUNNABLE"
    using in_scheduler_naps [of 0 t k'] by (simp add: NPROC_def) (simp add: naps_def dispatched_def)
qed

text \<open>
  C34: \<^verbatim>\<open>kill\<close>.  With the table lock free, \<^verbatim>\<open>kill(pid)\<close> returns -1 and changes nothing when no slot has that
  identifier; otherwise it returns 0, marks the first such process killed and makes it runnable if
  it slept, and changes no other process.
\<close>

theorem kill_spec:
  assumes "proc_ready i s"
  shows "((\<forall>p \<in> set (procs s). ProcessId p \<noteq> pid) \<longrightarrow> kill pid s = Ret (-1) (resync i s)) \<and>
    (\<forall>k < NPROC. ProcessId (procs s ! k) = pid \<longrightarrow> (\<forall>j < k. ProcessId (procs s ! j) \<noteq> pid) \<longrightarrow>
      (\<exists>t. kill pid s = Ret 0 t \<and> proc_ready i t \<and> procs t = (procs s)[k := (procs s ! k)\<lparr>IsKilled := 1,
        State := (if State (procs s ! k) = SLEEPING then RUNNABLE else State (procs s ! k))\<rparr>]))"
proof (intro conjI allI impI)
  assume "\<forall>p \<in> set (procs s). ProcessId p \<noteq> pid"
  then have "findIndex (\<lambda>p. ProcessId p = pid) (procs s) = None" by simp
  then show "kill pid s = Ret (-1) (resync i s)"
    by (simp add: kill_run [OF assms] del: findIndex_None)
next
  fix k
  assume "k < NPROC" "ProcessId (procs s ! k) = pid" "\<forall>j < k. ProcessId (procs s ! j) \<noteq> pid"
  then have "findIndex (\<lambda>p. ProcessId p = pid) (procs s) = Some k"
    using assms by (simp add: findIndex_Some proc_ready_def)
  then show "\<exists>t. kill pid s = Ret 0 t \<and> proc_ready i t \<and> procs t = (procs s)[k := (procs s ! k)\<lparr>IsKilled := 1,
        State := (if State (procs s ! k) = SLEEPING then RUNNABLE else State (procs s ! k))\<rparr>]"
    using assms by (simp add: kill_run [OF assms] killed_def proc_ready_def)
qed

theorem kill_spec_witness:
  "\<exists>t. kill 1 one_running = Ret 0 t \<and> IsKilled (procs t ! 0) = 1 \<and> kill 7 one_running = Ret (-1) (resync 0 one_running)"
proof -
  have "\<exists>t. kill 1 one_running = Ret 0 t \<and> proc_ready 0 t \<and> procs t = (procs one_running)[0 := (procs one_running ! 0)\<lparr>IsKilled := 1,
        State := (if State (procs one_running ! 0) = SLEEPING then RUNNABLE else State (procs one_running ! 0))\<rparr>]"
    using kill_spec [OF one_running_ready(1), of 1, THEN conjunct2, rule_format, of 0]
    by (simp add: one_running_ready(5) NPROC_def live_process_def)
  moreover have "kill 7 one_running = Ret (-1) (resync 0 one_running)"
    using kill_spec [OF one_running_ready(1), of 7]
    by (auto simp: one_running_ready(5) live_process_def blank_process_def)
  ultimately show ?thesis
    by (auto simp: one_running_ready(5))
qed

end
