(* ===== verification/Frame.thy ===== *)
theory Frame
  imports Sched
begin

text \<open>
  What the operations of the lower layers leave alone.  \<open>cpu_field\<close>: a field that is independent of the
  processor state, the locks and the memory management unit is kept by every lock operation.  \<open>vm_field\<close>
  adds independence of memory, free list and console, and the page table operations keep such a field.
  \<open>proc_field\<close> adds independence of the process table instead, and the operations that sleep, wake and
  schedule keep such a field.
\<close>

locale cpu_field =
  fixes sel :: "'a vm_scheme \<Rightarrow> 'f"
  assumes sel_eflags: "sel (s\<lparr>eflags := e\<rparr>) = sel s"
    and sel_cpus: "sel (s\<lparr>cpus := c\<rparr>) = sel s"
    and sel_locks: "sel (s\<lparr>locks := k\<rparr>) = sel s"
    and sel_mmu: "sel (s\<lparr>mmu := u\<rparr>) = sel s"
begin

lemmas cpu_simps = sel_eflags sel_cpus sel_locks sel_mmu

lemma keeps_hw [keep_rules]:
  "keeps sel readExtendedFlags" "keeps sel disableInterrupts" "keeps sel enableInterrupts" "keeps sel myCpu"
  "keeps sel (getCpu i)" "keeps sel (updCpu i f)" "keeps sel (updLock l g)"
  by (auto simp: readExtendedFlags_def disableInterrupts_def enableInterrupts_def myCpu_def getCpu_def updCpu_def
      updLock_def cpu_simps split: option.split intro!: keep_rules keeps_modifyK)

lemma keeps_cli [keep_rules]: "keeps sel pushCli" "keeps sel popCli" "keeps sel (isHolding l)" "keeps sel cpuId"
  "keeps sel (spinlockInitialise l name)"
  by (auto simp: pushCli_unfold popCli_unfold isHolding_def cpuId_def spinlockInitialise_def cpu_simps
      intro!: keep_rules keeps_modifyK)

lemma keeps_lock [keep_rules]:
  "keeps sel (spinlockAcquire l)" "keeps sel (spinlockRelease l)" "keeps sel myProcess"
  by (auto simp: spinlockAcquire_def spinlockRelease_def myProcess_def atomicExchangeLocked_def intro!: keep_rules)

lemma keeps_updMmu [keep_rules]: "keeps sel (updMmu g)"
  by (auto simp: updMmu_def cpu_simps intro!: keep_rules keeps_modifyK)

lemma keeps_switch [keep_rules]: "keeps sel (switchToUserVirtualMemory p)" "keeps sel switchToKernelVirtualMemory"
  by (auto simp: switchToUserVirtualMemory_def switchToKernelVirtualMemory_def intro!: keep_rules)

end

locale vm_field = cpu_field sel
  for sel :: "'a vm_scheme \<Rightarrow> 'f" +
  assumes sel_mem: "sel (s\<lparr>mem := m\<rparr>) = sel s"
    and sel_FreeList: "sel (s\<lparr>FreeList := f\<rparr>) = sel s"
    and sel_cons: "sel (s\<lparr>cons := d\<rparr>) = sel s"
begin

lemmas field_simps = cpu_simps sel_mem sel_FreeList sel_cons

lemma keeps_kalloc [keep_rules]:
  "keeps sel allocatePhysicalMemoryPage" "keeps sel (freePhysicalMemoryPage v)"
  by (auto simp: allocatePhysicalMemoryPage_def freePhysicalMemoryPage_def field_simps
      intro!: keep_rules keeps_modifyK)

lemma keeps_cons [keep_rules]: "keeps sel (updCons f)" "keeps sel (uartputc c)"
  by (auto simp: updCons_def uartputc_def field_simps intro!: keep_rules keeps_modifyK)

lemma keeps_cgaputc [keep_rules]: "keeps sel (cgaputc c)"
  by (auto simp: cgaputc_def intro!: keep_rules)

lemma keeps_consputc [keep_rules]: "keeps sel (consputc c)"
  by (auto simp: consputc_def intro!: keep_rules)

lemma keeps_consputs [keep_rules]: "keeps sel (consputs cs)"
  by (induction cs) (auto intro!: keep_rules)

lemma keeps_printInt [keep_rules]: "keeps sel (console_printInt n b g)"
  by (auto simp: console_printInt_def intro!: keep_rules)

lemma keeps_case_arg [keep_rules]:
  "(\<And>n. keeps sel (f n)) \<Longrightarrow> (\<And>x. keeps sel (g x)) \<Longrightarrow> keeps sel (case a of IntArg n \<Rightarrow> f n | StrArg x \<Rightarrow> g x)"
  by (cases a) simp_all

lemma keeps_cprintf_loop [keep_rules]: "keeps sel (cprintf_loop fmt args)"
proof (induction "length fmt" arbitrary: fmt args rule: less_induct)
  case less
  show ?case
  proof (cases fmt)
    case (Cons c fmt1)
    have "keeps sel (cprintf_loop (c # fmt1) args)"
      by (subst cprintf_loop.simps) (intro keep_rules less; simp add: Cons)
    then show ?thesis using Cons by simp
  qed (simp add: keep_rules)
qed

lemma keeps_cprintf [keep_rules]: "keeps sel (cprintf fmt args)"
  by (auto simp: cprintf_def intro!: keep_rules)

lemma keeps_word [keep_rules]:
  "keeps sel (readWord a)" "keeps sel (writeWord a v)" "keeps sel (zeroPage p)"
  by (auto simp: readWord_def writeWord_def zeroPage_def field_simps intro!: keep_rules keeps_modifyK)

lemma keeps_entry [keep_rules]: "keeps sel (getPageTableEntry d va al)"
  by (auto simp: getPageTableEntry_def intro!: keep_rules)

lemma keeps_create_loop: "keeps sel (createPageTableEntries_loop n d a lastp pa perm)"
  by (induction n arbitrary: a pa) (auto intro!: keep_rules)

lemma keeps_create [keep_rules]: "keeps sel (createPageTableEntries d va n pa perm)"
  unfolding createPageTableEntries_def by (rule keeps_create_loop)

lemma keeps_release_loop: "keeps sel (releaseUserPages_loop n d a oldsz)"
  by (induction n arbitrary: a) (auto intro!: keep_rules)

lemma keeps_release [keep_rules]: "keeps sel (releaseUserPages d oldsz newsz)"
  by (auto simp: releaseUserPages_def intro!: keep_rules keeps_release_loop)

lemma keeps_free [keep_rules]: "keeps sel (freeMemoryAndPageTable d)"
  by (auto simp: freeMemoryAndPageTable_def intro!: keep_rules)

lemma keeps_mapKernel [keep_rules]: "keeps sel (mapKernel d ks)"
  by (induction d ks rule: mapKernel.induct) (auto intro!: keep_rules)

lemma keeps_setup [keep_rules]: "keeps sel setupKernelVirtualMemory"
  by (auto simp: setupKernelVirtualMemory_def intro!: keep_rules)

lemma keeps_allocate_loop: "keeps sel (allocateMemoryAndPageTables_loop n d a oldsz newsz)"
  by (induction n arbitrary: a) (auto intro!: keep_rules)

lemma keeps_allocate [keep_rules]: "keeps sel (allocateMemoryAndPageTables d oldsz newsz)"
  by (auto simp: allocateMemoryAndPageTables_def intro!: keep_rules keeps_allocate_loop)

lemma keeps_copy_loop: "keeps sel (copyProcessPageTable_loop n d e i sz)"
  by (induction n arbitrary: i) (auto simp: field_simps intro!: keep_rules keeps_modifyK)

lemma keeps_copy [keep_rules]: "keeps sel (copyProcessPageTable d sz)"
  by (auto simp: copyProcessPageTable_def intro!: keep_rules keeps_copy_loop)

lemma keeps_initialise [keep_rules]: "keeps sel (initialiseUserVirtualMemory d init)"
  by (auto simp: initialiseUserVirtualMemory_def field_simps intro!: keep_rules keeps_modifyK)

end

text \<open>The page table operations and the console leave the process table alone.\<close>

interpretation table_frame: vm_field processTable by unfold_locales simp_all

lemma address_spaces_keep_processes:
  "copyProcessPageTable d sz s = Ret r t \<Longrightarrow> processTable t = processTable s"
  "allocateMemoryAndPageTables d a b s = Ret r t \<Longrightarrow> processTable t = processTable s"
  "freeMemoryAndPageTable d s = Ret u t \<Longrightarrow> processTable t = processTable s"
  by (auto dest: keepsD [OF table_frame.keeps_copy] keepsD [OF table_frame.keeps_allocate] keepsD [OF table_frame.keeps_free])

locale proc_field = cpu_field sel
  for sel :: "'a kproc_scheme \<Rightarrow> 'f" +
  assumes sel_processTable: "sel (s\<lparr>processTable := p\<rparr>) = sel s"
begin

lemma keeps_proc [keep_rules]: "keeps sel (getProc k)" "keeps sel (updProc k f)" "keeps sel currentProcess"
  by (auto simp: getProc_def updProc_def currentProcess_def sel_processTable intro!: keep_rules keeps_modifyK)

lemma keeps_wakeup [keep_rules]: "keeps sel (wakeup1 c)" "keeps sel (wakeup c)" "keeps sel (kill pid)"
  by (auto simp: wakeup1_def wakeup_def kill_def intro!: keep_rules)

lemma keeps_sched [keep_rules]: "keeps sel sched_enter" "keeps sel (sched_exit e)"
  by (auto simp: sched_enter_def sched_exit_def intro!: keep_rules)

lemma keeps_sleep [keep_rules]: "keeps sel yield_enter" "keeps sel (yield_exit e)" "keeps sel (sleep_enter c l)"
  "keeps sel (sleep_exit lk local)"
  by (auto simp: yield_enter_def yield_exit_def sleep_enter_def sleep_exit_def intro!: keep_rules)

lemma keeps_scan [keep_rules]: "keeps sel (scheduler_scan c ks)"
  by (induction c ks rule: scheduler_scan.induct) (auto intro!: keep_rules)

lemma keeps_scheduler [keep_rules]: "keeps sel (scheduler_round c)" "keeps sel (scheduler_resume c k)"
  by (auto simp: scheduler_round_def scheduler_resume_def intro!: keep_rules)

end

end
