(* ===== verification/Shell.thy ===== *)
theory Shell
  imports Prelude
begin

text \<open>
  The command parser of the shell (\<^verbatim>\<open>sh.c\<close>).  The command line is a list of characters without the
  terminating NUL; a character pointer is a position in it, and the position after the last character
  reads as NUL.  A token is the pair of its first position and the position after its last character,
  as \<^verbatim>\<open>argv\<close> and \<^verbatim>\<open>eargv\<close> hold them.  The node that \<^verbatim>\<open>parseexec\<close> fills while redirections already wrap it is
  the innermost \<open>EXEC\<close> of the command, which \<open>add_arg\<close> updates.

  The parsing functions call each other recursively and take a bound on the depth of the calls and the
  rounds of the loops; \<open>NoFuel\<close> means that the bound was too small.  Each round consumes a character, so
  a bound linear in the length of the line is always enough (\<open>parse_fuel\<close>), as the first property shows.
\<close>

section \<open>Definitions\<close>

definition MAXARGS :: nat where [const_defs]: "MAXARGS = 10"
definition O_RDONLY :: int where [const_defs]: "O_RDONLY = 0"
definition O_WRONLY :: int where [const_defs]: "O_WRONLY = 1"
definition O_CREATE :: int where [const_defs]: "O_CREATE = 0x200"

type_synonym token = "nat \<times> nat"

datatype cmd =
    EXEC "token list"
  | REDIR cmd token int int
  | PIPE cmd cmd
  | LIST cmd cmd
  | BACK cmd

datatype 'a parse = Parsed 'a nat | Syntax string | NoFuel

definition bindP :: "'a parse \<Rightarrow> ('a \<Rightarrow> nat \<Rightarrow> 'b parse) \<Rightarrow> 'b parse" where
  "bindP r f = (case r of Parsed x s \<Rightarrow> f x s | Syntax m \<Rightarrow> Syntax m | NoFuel \<Rightarrow> NoFuel)"

lemma bindP_cong [fundef_cong]: "r = r' \<Longrightarrow> (\<And>x s. r' = Parsed x s \<Longrightarrow> f x s = f' x s) \<Longrightarrow> bindP r f = bindP r' f'"
  by (auto simp: bindP_def split: parse.splits)

definition whitespace :: string where
  "whitespace = [CHR '' '', CHR 0x09, CHR 0x0D, CHR 0x0A, CHR 0x0B]"

definition symbols :: string where
  "symbols = ''<|>&;()''"

definition char_at :: "string \<Rightarrow> nat \<Rightarrow> char" where
  "char_at buf s = (if s < length buf then buf ! s else CHR 0x00)"

function scan :: "(char \<Rightarrow> bool) \<Rightarrow> string \<Rightarrow> nat \<Rightarrow> nat" where
  "scan P buf s = (if s < length buf \<and> P (buf ! s) then scan P buf (Suc s) else s)"
  by pat_completeness auto
termination by (relation "measure (\<lambda>(P, buf, s). length buf - s)") auto

declare scan.simps [simp del]

definition skip_space :: "string \<Rightarrow> nat \<Rightarrow> nat" where
  "skip_space = scan (\<lambda>c. c \<in> set whitespace)"

definition gettoken :: "string \<Rightarrow> nat \<Rightarrow> char \<times> token \<times> nat" where
  "gettoken buf s0 =
     (let q = skip_space buf s0; c = char_at buf q;
          (ret, eq) =
            (if c = CHR 0x00 then (c, q)
             else if c \<in> set ''|();&<'' then (c, Suc q)
             else if c = CHR ''>'' then
               (if char_at buf (Suc q) = CHR ''>'' then (CHR ''+'', Suc (Suc q)) else (c, Suc q))
             else (CHR ''a'', scan (\<lambda>c. c \<notin> set whitespace \<and> c \<notin> set symbols) buf q))
      in (ret, (q, eq), skip_space buf eq))"

definition peek :: "string \<Rightarrow> nat \<Rightarrow> string \<Rightarrow> bool \<times> nat" where
  "peek buf s0 toks =
     (let s = skip_space buf s0 in (char_at buf s \<noteq> CHR 0x00 \<and> char_at buf s \<in> set toks, s))"

definition skip_token :: "string \<Rightarrow> nat \<Rightarrow> nat" where
  "skip_token buf s = snd (snd (gettoken buf s))"

fun add_arg :: "token \<Rightarrow> cmd \<Rightarrow> cmd" where
  "add_arg t (EXEC args) = EXEC (args @ [t])"
| "add_arg t (REDIR c f mode fd) = REDIR (add_arg t c) f mode fd"
| "add_arg t c = c"

fun parseredirs :: "nat \<Rightarrow> string \<Rightarrow> cmd \<Rightarrow> nat \<Rightarrow> cmd parse" where
  "parseredirs 0 buf cmd s0 = NoFuel"
| "parseredirs (Suc n) buf cmd s0 =
     (let (found, s1) = peek buf s0 ''<>'' in
      if \<not> found then Parsed cmd s1
      else let (tok, _, s2) = gettoken buf s1; (t, file, s3) = gettoken buf s2 in
        if t \<noteq> CHR ''a'' then Syntax ''missing File for redirection''
        else parseredirs n buf
          (if tok = CHR ''<'' then REDIR cmd file O_RDONLY 0
           else if tok = CHR ''>'' then REDIR cmd file (or O_WRONLY O_CREATE) 1
           else if tok = CHR ''+'' then REDIR cmd file (or O_WRONLY O_CREATE) 1
           else cmd) s3)"

function (sequential) parseline :: "nat \<Rightarrow> string \<Rightarrow> nat \<Rightarrow> cmd parse"
  and parseline_rest :: "nat \<Rightarrow> string \<Rightarrow> cmd \<Rightarrow> nat \<Rightarrow> cmd parse"
  and parsepipe :: "nat \<Rightarrow> string \<Rightarrow> nat \<Rightarrow> cmd parse"
  and parseblock :: "nat \<Rightarrow> string \<Rightarrow> nat \<Rightarrow> cmd parse"
  and parseexec :: "nat \<Rightarrow> string \<Rightarrow> nat \<Rightarrow> cmd parse"
  and parseexec_args :: "nat \<Rightarrow> string \<Rightarrow> nat \<Rightarrow> cmd \<Rightarrow> nat \<Rightarrow> cmd parse"
where
  "parseline 0 buf s = NoFuel"
| "parseline (Suc n) buf s = bindP (parsepipe n buf s) (\<lambda>cmd s. parseline_rest n buf cmd s)"
| "parseline_rest 0 buf cmd s = NoFuel"
| "parseline_rest (Suc n) buf cmd s =
     (let (back, s1) = peek buf s ''&'' in
      if back then parseline_rest n buf (BACK cmd) (skip_token buf s1)
      else let (semi, s2) = peek buf s1 '';'' in
        if semi then bindP (parseline n buf (skip_token buf s2)) (\<lambda>right s. Parsed (LIST cmd right) s)
        else Parsed cmd s2)"
| "parsepipe 0 buf s = NoFuel"
| "parsepipe (Suc n) buf s =
     bindP (parseexec n buf s) (\<lambda>cmd s.
     let (bar, s1) = peek buf s ''|'' in
     if bar then bindP (parsepipe n buf (skip_token buf s1)) (\<lambda>right s. Parsed (PIPE cmd right) s)
     else Parsed cmd s1)"
| "parseblock 0 buf s = NoFuel"
| "parseblock (Suc n) buf s =
     (let (open_par, s1) = peek buf s ''('' in
      if \<not> open_par then Syntax ''parseblock''
      else bindP (parseline n buf (skip_token buf s1)) (\<lambda>cmd s.
        let (close_par, s2) = peek buf s '')'' in
        if \<not> close_par then Syntax ''syntax - missing )''
        else parseredirs n buf cmd (skip_token buf s2)))"
| "parseexec 0 buf s = NoFuel"
| "parseexec (Suc n) buf s =
     (let (open_par, s1) = peek buf s ''('' in
      if open_par then parseblock n buf s1
      else bindP (parseredirs n buf (EXEC []) s1) (\<lambda>ret s. parseexec_args n buf 0 ret s))"
| "parseexec_args 0 buf argc ret s = NoFuel"
| "parseexec_args (Suc n) buf argc ret s =
     (let (stop, s1) = peek buf s ''|)&;'' in
      if stop then Parsed ret s1
      else let (tok, t, s2) = gettoken buf s1 in
        if tok = CHR 0x00 then Parsed ret s2
        else if tok \<noteq> CHR ''a'' then Syntax ''syntax''
        else if Suc argc \<ge> MAXARGS then Syntax ''too many args''
        else bindP (parseredirs n buf (add_arg t ret) s2) (\<lambda>ret s. parseexec_args n buf (Suc argc) ret s))"
  by pat_completeness auto
termination
  by (relation "measure (\<lambda>x. case x of
      Inl (Inl (n, _)) \<Rightarrow> n | Inl (Inr (Inl (n, _))) \<Rightarrow> n | Inl (Inr (Inr (n, _))) \<Rightarrow> n
    | Inr (Inl (n, _)) \<Rightarrow> n | Inr (Inr (Inl (n, _))) \<Rightarrow> n | Inr (Inr (Inr (n, _))) \<Rightarrow> n)") simp_all

definition parse_fuel :: "string \<Rightarrow> nat" where
  "parse_fuel buf = 8 * length buf + 8"

definition parsecmd :: "string \<Rightarrow> cmd parse" where
  "parsecmd buf =
     bindP (parseline (parse_fuel buf) buf 0) (\<lambda>cmd s.
     let (_, s1) = peek buf s '''' in
     if s1 \<noteq> length buf then Syntax ''syntax'' else Parsed cmd s1)"

text \<open>\<^verbatim>\<open>nulterminate\<close> overwrites the character after each token; the line includes its final NUL here.\<close>

fun nulterminate :: "cmd \<Rightarrow> string \<Rightarrow> string" where
  "nulterminate (EXEC args) line = foldl (\<lambda>m (q, eq). m[eq := CHR 0x00]) line args"
| "nulterminate (REDIR c (q, eq) mode fd) line = (nulterminate c line)[eq := CHR 0x00]"
| "nulterminate (PIPE l r) line = nulterminate r (nulterminate l line)"
| "nulterminate (LIST l r) line = nulterminate r (nulterminate l line)"
| "nulterminate (BACK c) line = nulterminate c line"

section \<open>Scanning\<close>

lemma scan_ge: "s \<le> scan P buf s"
proof (induction P buf s rule: scan.induct)
  case (1 P buf s)
  then show ?case by (subst scan.simps) auto
qed

lemma scan_le: "s \<le> length buf \<Longrightarrow> scan P buf s \<le> length buf"
proof (induction P buf s rule: scan.induct)
  case (1 P buf s)
  then show ?case by (subst scan.simps) auto
qed

lemma scan_stays: "\<not> (s < length buf \<and> P (buf ! s)) \<Longrightarrow> scan P buf s = s"
  by (subst scan.simps) auto

lemma scan_stop: "scan P buf s < length buf \<Longrightarrow> \<not> P (buf ! scan P buf s)"
proof (induction P buf s rule: scan.induct)
  case (1 P buf s)
  show ?case
  proof (cases "s < length buf \<and> P (buf ! s)")
    case True
    then have "scan P buf s = scan P buf (Suc s)" by (subst scan.simps) simp
    with 1 True show ?thesis by simp
  next
    case False
    then have "scan P buf s = s" by (rule scan_stays)
    with False 1(2) show ?thesis by simp
  qed
qed

lemma scan_chars: "s \<le> j \<Longrightarrow> j < scan P buf s \<Longrightarrow> P (buf ! j)"
proof (induction P buf s rule: scan.induct)
  case (1 P buf s)
  show ?case
  proof (cases "s < length buf \<and> P (buf ! s)")
    case True
    then have "scan P buf s = scan P buf (Suc s)" by (subst scan.simps) simp
    with 1 True show ?thesis by (cases "j = s") auto
  next
    case False
    then have "scan P buf s = s" by (rule scan_stays)
    with 1(2,3) show ?thesis by simp
  qed
qed

lemma scan_step: "s < length buf \<Longrightarrow> P (buf ! s) \<Longrightarrow> s < scan P buf s"
  using scan_ge [of "Suc s" P buf] by (subst scan.simps) simp

lemma skip_space_bounds: "s \<le> length buf \<Longrightarrow> s \<le> skip_space buf s \<and> skip_space buf s \<le> length buf"
  by (simp add: skip_space_def scan_ge scan_le)

lemma skip_space_stop: "skip_space buf s < length buf \<Longrightarrow> buf ! skip_space buf s \<notin> set whitespace"
  unfolding skip_space_def by (drule scan_stop) simp

lemma char_at_space: "char_at buf (skip_space buf s) \<notin> set whitespace"
  using skip_space_stop [of buf s] by (auto simp: char_at_def whitespace_def)

lemma skip_space_idem [simp]: "skip_space buf (skip_space buf s) = skip_space buf s"
proof -
  have "\<not> (skip_space buf s < length buf \<and> buf ! skip_space buf s \<in> set whitespace)"
    using skip_space_stop [of buf s] by blast
  then show ?thesis
    unfolding skip_space_def by (rule scan_stays)
qed

section \<open>Tokens\<close>

definition separator :: "char \<Rightarrow> bool" where
  "separator c \<longleftrightarrow> c \<in> set whitespace \<or> c \<in> set symbols"

definition token_ok :: "string \<Rightarrow> token \<Rightarrow> bool" where
  "token_ok buf t \<longleftrightarrow> (case t of (q, eq) \<Rightarrow> q < eq \<and> eq \<le> length buf \<and>
     (\<forall>j. q \<le> j \<and> j < eq \<longrightarrow> \<not> separator (buf ! j)) \<and> (eq < length buf \<longrightarrow> separator (buf ! eq)))"

lemma gettoken_word:
  assumes "gettoken buf s = (CHR ''a'', (q, eq), s')" "s \<le> length buf" "char_at buf q \<notin> set ''|();&<>''"
    and "char_at buf q \<noteq> CHR 0x00"
  shows "token_ok buf (q, eq)"
proof -
  let ?P = "\<lambda>c. c \<notin> set whitespace \<and> c \<notin> set symbols"
  have q: "q = skip_space buf s" and eq: "eq = scan ?P buf q"
    using assms by (auto simp: gettoken_def Let_def split: if_splits)
  have "q < length buf" using assms(4) by (auto simp: char_at_def split: if_splits)
  moreover have "?P (buf ! q)"
    using assms(3) char_at_space [of buf s] \<open>q < length buf\<close> q by (auto simp: char_at_def symbols_def)
  ultimately have "q < eq" "eq \<le> length buf"
    unfolding eq by (auto intro: scan_step scan_le)
  moreover have "\<not> separator (buf ! j)" if "q \<le> j" "j < eq" for j
    using scan_chars [of q j ?P buf] that eq by (simp add: separator_def)
  moreover have "separator (buf ! eq)" if "eq < length buf"
    using scan_stop [of ?P buf q] that eq by (simp add: separator_def)
  ultimately show ?thesis by (simp add: token_ok_def)
qed

lemma gettoken_bounds:
  assumes "gettoken buf s = (r, (q, eq), s')" "s \<le> length buf"
  shows "s \<le> q \<and> q \<le> eq \<and> eq \<le> s' \<and> s' \<le> length buf \<and> (r \<noteq> CHR 0x00 \<longrightarrow> q < eq) \<and>
    (r = CHR ''a'' \<longrightarrow> token_ok buf (q, eq))"
proof -
  let ?P = "\<lambda>c. c \<notin> set whitespace \<and> c \<notin> set symbols"
  have q: "q = skip_space buf s" "s \<le> q" "q \<le> length buf"
    using assms skip_space_bounds [of s buf] by (auto simp: gettoken_def Let_def split: if_splits)
  have s': "s' = skip_space buf eq"
    using assms(1) by (auto simp: gettoken_def Let_def split: if_splits)
  have nul: "char_at buf q \<noteq> CHR 0x00 \<Longrightarrow> q < length buf"
    by (auto simp: char_at_def split: if_splits)
  have nul2: "char_at buf (Suc q) = CHR ''>'' \<Longrightarrow> Suc q < length buf"
    by (auto simp: char_at_def split: if_splits)
  have e: "q \<le> eq \<and> eq \<le> length buf \<and> (r \<noteq> CHR 0x00 \<longrightarrow> q < eq) \<and> (r = CHR ''a'' \<longrightarrow> token_ok buf (q, eq))"
  proof (cases "char_at buf q \<notin> set ''|();&<>'' \<and> char_at buf q \<noteq> CHR 0x00")
    case True
    then have "r = CHR ''a''" using assms(1) q(1) by (auto simp: gettoken_def Let_def split: if_splits)
    with True gettoken_word [of buf s q eq s'] assms have "token_ok buf (q, eq)" by simp
    then show ?thesis by (auto simp: token_ok_def)
  next
    case False
    then show ?thesis
      using assms(1) q nul nul2 by (auto simp: gettoken_def Let_def split: if_splits)
  qed
  then show ?thesis using q(2) s' skip_space_bounds [of eq buf] by auto
qed

section \<open>The parser ends, within the line, with well-formed commands\<close>

fun tokens :: "cmd \<Rightarrow> token list" where
  "tokens (EXEC args) = args"
| "tokens (REDIR c t mode fd) = tokens c @ [t]"
| "tokens (PIPE l r) = tokens l @ tokens r"
| "tokens (LIST l r) = tokens l @ tokens r"
| "tokens (BACK c) = tokens c"

fun args_ok :: "cmd \<Rightarrow> bool" where
  "args_ok (EXEC args) \<longleftrightarrow> length args < MAXARGS"
| "args_ok (REDIR c t mode fd) \<longleftrightarrow> args_ok c"
| "args_ok (PIPE l r) \<longleftrightarrow> args_ok l \<and> args_ok r"
| "args_ok (LIST l r) \<longleftrightarrow> args_ok l \<and> args_ok r"
| "args_ok (BACK c) \<longleftrightarrow> args_ok c"

fun exec_args :: "cmd \<Rightarrow> token list option" where
  "exec_args (EXEC args) = Some args"
| "exec_args (REDIR c t mode fd) = exec_args c"
| "exec_args c = None"

definition cmd_ok :: "string \<Rightarrow> cmd \<Rightarrow> bool" where
  "cmd_ok buf c \<longleftrightarrow> (\<forall>t \<in> set (tokens c). token_ok buf t) \<and> args_ok c"

definition parse_ok :: "string \<Rightarrow> nat \<Rightarrow> cmd parse \<Rightarrow> bool" where
  "parse_ok buf s r \<longleftrightarrow> (case r of Parsed c s' \<Rightarrow> s \<le> s' \<and> s' \<le> length buf \<and> cmd_ok buf c
     | Syntax m \<Rightarrow> True | NoFuel \<Rightarrow> False)"

lemma parse_ok_simps [simp]:
  "parse_ok buf s (Parsed c s') \<longleftrightarrow> s \<le> s' \<and> s' \<le> length buf \<and> cmd_ok buf c"
  "parse_ok buf s (Syntax m)" "\<not> parse_ok buf s NoFuel"
  by (simp_all add: parse_ok_def)

lemma bindP_simps [simp]: "bindP (Parsed x s) f = f x s" "bindP (Syntax m) f = Syntax m" "bindP NoFuel f = NoFuel"
  by (simp_all add: bindP_def)

lemma parse_ok_bindP:
  assumes "parse_ok buf s r" "\<And>c s'. s \<le> s' \<Longrightarrow> s' \<le> length buf \<Longrightarrow> cmd_ok buf c \<Longrightarrow> r = Parsed c s' \<Longrightarrow> parse_ok buf s (f c s')"
  shows "parse_ok buf s (bindP r f)"
  using assms by (cases r) auto

lemma parse_ok_mono: "parse_ok buf s' r \<Longrightarrow> s \<le> s' \<Longrightarrow> parse_ok buf s r"
  by (auto simp: parse_ok_def split: parse.splits)

lemma cmd_ok_add_arg:
  "cmd_ok buf c \<Longrightarrow> token_ok buf t \<Longrightarrow> exec_args c = Some as \<Longrightarrow> Suc (length as) < MAXARGS \<Longrightarrow> cmd_ok buf (add_arg t c)"
  by (induction t c rule: add_arg.induct) (auto simp: cmd_ok_def)

lemma exec_args_add_arg: "exec_args c = Some as \<Longrightarrow> exec_args (add_arg t c) = Some (as @ [t])"
  by (induction t c rule: add_arg.induct) auto

lemma peek_bounds:
  assumes "peek buf s toks = (b, s1)" "s \<le> length buf"
  shows "s \<le> s1 \<and> s1 \<le> length buf \<and> (b \<longrightarrow> s1 < length buf \<and> buf ! s1 \<in> set toks)"
  using assms skip_space_bounds [OF assms(2)] by (auto simp: peek_def Let_def char_at_def split: if_splits)

lemma gettoken_nonnul: "char_at buf (skip_space buf s) \<noteq> CHR 0x00 \<Longrightarrow> fst (gettoken buf s) \<noteq> CHR 0x00"
  by (auto simp: gettoken_def Let_def split: if_splits)

lemma skip_token_bounds:
  assumes "peek buf s toks = (True, s1)" "s \<le> length buf"
  shows "s1 < skip_token buf s1 \<and> skip_token buf s1 \<le> length buf"
proof -
  have s1: "s1 = skip_space buf s" "char_at buf s1 \<noteq> CHR 0x00" "s1 \<le> length buf"
    using assms skip_space_bounds [OF assms(2)] by (auto simp: peek_def Let_def)
  obtain r q eq s' where g: "gettoken buf s1 = (r, (q, eq), s')"
    by (metis prod.collapse)
  have "r \<noteq> CHR 0x00"
    using gettoken_nonnul [of buf s1] s1 g by simp
  then show ?thesis
    using gettoken_bounds [OF g s1(3)] g by (simp add: skip_token_def)
qed

lemma parseredirs_ok:
  "s \<le> length buf \<Longrightarrow> length buf - s < n \<Longrightarrow> cmd_ok buf c \<Longrightarrow>
   parse_ok buf s (parseredirs n buf c s) \<and>
   (\<forall>c' s'. parseredirs n buf c s = Parsed c' s' \<longrightarrow> exec_args c' = exec_args c)"
proof (induction n arbitrary: c s)
  case (Suc n)
  obtain b s1 where p: "peek buf s ''<>'' = (b, s1)" by force
  note pb = peek_bounds [OF p Suc.prems(1)]
  show ?case
  proof (cases b)
    case False
    then show ?thesis using p pb Suc.prems(3) by simp
  next
    case True
    obtain tok u s2 where g: "gettoken buf s1 = (tok, u, s2)" by (metis prod.collapse)
    have s2: "s1 < s2" "s2 \<le> length buf"
      using skip_token_bounds [of buf s "''<>''" s1] p True Suc.prems(1) g by (simp_all add: skip_token_def)
    obtain t q eq s3 where h: "gettoken buf s2 = (t, (q, eq), s3)" by (metis prod.collapse)
    note hb = gettoken_bounds [OF h s2(2)]
    show ?thesis
    proof (cases "t = CHR ''a''")
      case False
      then show ?thesis using p True g h by simp
    next
      case a: True
      let ?c = "if tok = CHR ''<'' then REDIR c (q, eq) O_RDONLY 0
           else if tok = CHR ''>'' then REDIR c (q, eq) (or O_WRONLY O_CREATE) 1
           else if tok = CHR ''+'' then REDIR c (q, eq) (or O_WRONLY O_CREATE) 1 else c"
      have "cmd_ok buf ?c" "exec_args ?c = exec_args c"
        using hb a Suc.prems(3) by (auto simp: cmd_ok_def)
      moreover have "length buf - s3 < n" "s \<le> s3" "s3 \<le> length buf"
        using hb s2 pb Suc.prems(2) by linarith+
      ultimately have "parse_ok buf s3 (parseredirs n buf ?c s3) \<and>
          (\<forall>c' s'. parseredirs n buf ?c s3 = Parsed c' s' \<longrightarrow> exec_args c' = exec_args c)"
        using Suc.IH [of s3 ?c] by simp
      moreover have "parseredirs (Suc n) buf c s = parseredirs n buf ?c s3"
        using p True g h a by simp
      ultimately show ?thesis
        using parse_ok_mono [of buf s3 _ s] \<open>s \<le> s3\<close> by metis
    qed
  qed
qed simp

definition parsers_ok :: "string \<Rightarrow> nat \<Rightarrow> bool" where
  "parsers_ok buf n \<longleftrightarrow> (\<forall>s \<le> length buf.
     (8 * (length buf - s) + 6 \<le> n \<longrightarrow> parse_ok buf s (parseline n buf s)) \<and>
     (\<forall>c. cmd_ok buf c \<and> 8 * (length buf - s) + 5 \<le> n \<longrightarrow> parse_ok buf s (parseline_rest n buf c s)) \<and>
     (8 * (length buf - s) + 5 \<le> n \<longrightarrow> parse_ok buf s (parsepipe n buf s)) \<and>
     (8 * (length buf - s) + 3 \<le> n \<longrightarrow> parse_ok buf s (parseblock n buf s)) \<and>
     (8 * (length buf - s) + 4 \<le> n \<longrightarrow> parse_ok buf s (parseexec n buf s)) \<and>
     (\<forall>c as. cmd_ok buf c \<and> exec_args c = Some as \<and> 8 * (length buf - s) + 3 \<le> n \<longrightarrow>
        parse_ok buf s (parseexec_args n buf (length as) c s)))"

lemma parsers_okD:
  assumes "parsers_ok buf n" "s \<le> length buf"
  shows "8 * (length buf - s) + 6 \<le> n \<Longrightarrow> parse_ok buf s (parseline n buf s)"
    "cmd_ok buf c \<Longrightarrow> 8 * (length buf - s) + 5 \<le> n \<Longrightarrow> parse_ok buf s (parseline_rest n buf c s)"
    "8 * (length buf - s) + 5 \<le> n \<Longrightarrow> parse_ok buf s (parsepipe n buf s)"
    "8 * (length buf - s) + 3 \<le> n \<Longrightarrow> parse_ok buf s (parseblock n buf s)"
    "8 * (length buf - s) + 4 \<le> n \<Longrightarrow> parse_ok buf s (parseexec n buf s)"
    "cmd_ok buf c \<Longrightarrow> exec_args c = Some as \<Longrightarrow> 8 * (length buf - s) + 3 \<le> n \<Longrightarrow>
      parse_ok buf s (parseexec_args n buf (length as) c s)"
  using assms by (simp_all add: parsers_ok_def)

lemma parseline_step:
  assumes "parsers_ok buf n" "s \<le> length buf" "8 * (length buf - s) + 6 \<le> Suc n"
  shows "parse_ok buf s (parseline (Suc n) buf s)"
proof -
  have "parse_ok buf s (parsepipe n buf s)"
    using parsers_okD(3) [OF assms(1,2)] assms(3) by simp
  then show ?thesis
    unfolding parseline.simps
  proof (rule parse_ok_bindP)
    fix c s' assume s': "s \<le> s'" "s' \<le> length buf" "cmd_ok buf c"
    then have "8 * (length buf - s') + 5 \<le> n" using assms(3) by linarith
    with s' show "parse_ok buf s (parseline_rest n buf c s')"
      using parsers_okD(2) [OF assms(1)] parse_ok_mono by blast
  qed
qed

lemma parseline_rest_step:
  assumes "parsers_ok buf n" "s \<le> length buf" "cmd_ok buf c" "8 * (length buf - s) + 5 \<le> Suc n"
  shows "parse_ok buf s (parseline_rest (Suc n) buf c s)"
proof -
  obtain b s1 where p: "peek buf s ''&'' = (b, s1)" by force
  note pb = peek_bounds [OF p assms(2)]
  obtain d s2 where r: "peek buf s1 '';'' = (d, s2)" by force
  have rb: "s1 \<le> s2" "s2 \<le> length buf" using peek_bounds [OF r] pb by blast+
  show ?thesis
  proof (cases b)
    case True
    have k: "s1 < skip_token buf s1" "skip_token buf s1 \<le> length buf"
      using skip_token_bounds [of buf s "''&''" s1] p True assms(2) by simp_all
    then have "8 * (length buf - skip_token buf s1) + 5 \<le> n" using assms(4) pb by linarith
    then have "parse_ok buf (skip_token buf s1) (parseline_rest n buf (BACK c) (skip_token buf s1))"
      using parsers_okD(2) [OF assms(1) k(2), of "BACK c"] assms(3) by (simp add: cmd_ok_def)
    then have "parse_ok buf s (parseline_rest n buf (BACK c) (skip_token buf s1))"
      using k(1) pb by (auto intro: parse_ok_mono)
    then show ?thesis using p True by simp
  next
    case False
    show ?thesis
    proof (cases d)
      case True
      have k: "s2 < skip_token buf s2" "skip_token buf s2 \<le> length buf"
        using skip_token_bounds [of buf s1 "'';''" s2] r True pb by simp_all
      then have "8 * (length buf - skip_token buf s2) + 6 \<le> n" using assms(4) pb rb by linarith
      then have "parse_ok buf (skip_token buf s2) (parseline n buf (skip_token buf s2))"
        using parsers_okD(1) [OF assms(1) k(2)] by simp
      then have "parse_ok buf s (parseline n buf (skip_token buf s2))"
        using k(1) pb rb by (auto intro: parse_ok_mono)
      then have "parse_ok buf s (bindP (parseline n buf (skip_token buf s2)) (\<lambda>right s. Parsed (LIST c right) s))"
        using assms(3) by - (rule parse_ok_bindP, auto simp: cmd_ok_def)
      then show ?thesis using p r False True by simp
    next
      case b: False
      then show ?thesis using p r False pb rb assms(3) by simp
    qed
  qed
qed

lemma parsepipe_step:
  assumes "parsers_ok buf n" "s \<le> length buf" "8 * (length buf - s) + 5 \<le> Suc n"
  shows "parse_ok buf s (parsepipe (Suc n) buf s)"
proof -
  have "parse_ok buf s (parseexec n buf s)"
    using parsers_okD(5) [OF assms(1,2)] assms(3) by simp
  then show ?thesis
    unfolding parsepipe.simps
  proof (rule parse_ok_bindP)
    fix c s' assume s': "s \<le> s'" "s' \<le> length buf" "cmd_ok buf c"
    obtain b s1 where p: "peek buf s' ''|'' = (b, s1)" by force
    note pb = peek_bounds [OF p s'(2)]
    show "parse_ok buf s (let (bar, s1) = peek buf s' ''|'' in
       if bar then bindP (parsepipe n buf (skip_token buf s1)) (\<lambda>right s. Parsed (PIPE c right) s) else Parsed c s1)"
    proof (cases b)
      case True
      have k: "s1 < skip_token buf s1" "skip_token buf s1 \<le> length buf"
        using skip_token_bounds [of buf s' "''|''" s1] p True s'(2) by simp_all
      then have "8 * (length buf - skip_token buf s1) + 5 \<le> n" using assms(3) pb s' by linarith
      then have "parse_ok buf (skip_token buf s1) (parsepipe n buf (skip_token buf s1))"
        using parsers_okD(3) [OF assms(1) k(2)] by simp
      then have "parse_ok buf s (parsepipe n buf (skip_token buf s1))"
        using k(1) pb s' by (auto intro: parse_ok_mono)
      then have "parse_ok buf s (bindP (parsepipe n buf (skip_token buf s1)) (\<lambda>right s. Parsed (PIPE c right) s))"
        using s'(3) by - (rule parse_ok_bindP, auto simp: cmd_ok_def)
      then show ?thesis using p True by simp
    next
      case False
      then show ?thesis using p pb s' by simp
    qed
  qed
qed

lemma parseblock_step:
  assumes "parsers_ok buf n" "s \<le> length buf" "8 * (length buf - s) + 3 \<le> Suc n"
  shows "parse_ok buf s (parseblock (Suc n) buf s)"
proof -
  obtain b s1 where p: "peek buf s ''('' = (b, s1)" by force
  note pb = peek_bounds [OF p assms(2)]
  show ?thesis
  proof (cases b)
    case True
    have k: "s1 < skip_token buf s1" "skip_token buf s1 \<le> length buf"
      using skip_token_bounds [of buf s "''(''" s1] p True assms(2) by simp_all
    then have "8 * (length buf - skip_token buf s1) + 6 \<le> n" using assms(3) pb by linarith
    then have l: "parse_ok buf (skip_token buf s1) (parseline n buf (skip_token buf s1))"
      using parsers_okD(1) [OF assms(1) k(2)] by simp
    have "parse_ok buf (skip_token buf s1) (bindP (parseline n buf (skip_token buf s1)) (\<lambda>cmd s.
        let (close_par, s2) = peek buf s '')'' in
        if \<not> close_par then Syntax ''syntax - missing )'' else parseredirs n buf cmd (skip_token buf s2)))"
    proof (rule parse_ok_bindP [OF l])
      fix c s' assume s': "skip_token buf s1 \<le> s'" "s' \<le> length buf" "cmd_ok buf c"
      obtain d s2 where r: "peek buf s' '')'' = (d, s2)" by force
      note rb = peek_bounds [OF r s'(2)]
      show "parse_ok buf (skip_token buf s1) (let (close_par, s2) = peek buf s' '')'' in
        if \<not> close_par then Syntax ''syntax - missing )'' else parseredirs n buf c (skip_token buf s2))"
      proof (cases d)
        case True
        have m: "s2 < skip_token buf s2" "skip_token buf s2 \<le> length buf"
          using skip_token_bounds [of buf s' "'')''" s2] r True s'(2) by simp_all
        then have "length buf - skip_token buf s2 < n" using assms(3) pb rb s' k by linarith
        then have "parse_ok buf (skip_token buf s2) (parseredirs n buf c (skip_token buf s2))"
          using parseredirs_ok [OF m(2) _ s'(3)] by blast
        then show ?thesis using r True m(1) rb s'(1) by (auto intro: parse_ok_mono)
      qed (use r in simp)
    qed
    then show ?thesis using p True k(1) pb by (auto intro: parse_ok_mono)
  qed (use p in simp)
qed

lemma parseexec_step:
  assumes "parsers_ok buf n" "s \<le> length buf" "8 * (length buf - s) + 4 \<le> Suc n"
  shows "parse_ok buf s (parseexec (Suc n) buf s)"
proof -
  obtain b s1 where p: "peek buf s ''('' = (b, s1)" by force
  note pb = peek_bounds [OF p assms(2)]
  have n: "8 * (length buf - s1) + 3 \<le> n" "length buf - s1 < n" using assms(3) pb by linarith+
  show ?thesis
  proof (cases b)
    case True
    then have "parse_ok buf s1 (parseblock n buf s1)"
      using parsers_okD(4) [OF assms(1)] pb n by simp
    then show ?thesis using p True pb by (auto intro: parse_ok_mono)
  next
    case False
    have e: "cmd_ok buf (EXEC [])" by (simp add: cmd_ok_def MAXARGS_def)
    have r: "parse_ok buf s1 (parseredirs n buf (EXEC []) s1)"
      using parseredirs_ok [OF _ n(2) e] pb by blast
    have "parse_ok buf s1 (bindP (parseredirs n buf (EXEC []) s1) (\<lambda>ret s. parseexec_args n buf 0 ret s))"
    proof (rule parse_ok_bindP [OF r])
      fix c s' assume s': "s1 \<le> s'" "s' \<le> length buf" "cmd_ok buf c" "parseredirs n buf (EXEC []) s1 = Parsed c s'"
      have "exec_args c = Some []"
        using parseredirs_ok [OF _ n(2) e] pb s'(4) by simp
      moreover have "8 * (length buf - s') + 3 \<le> n" using n(1) s'(1) by linarith
      ultimately have "parse_ok buf s' (parseexec_args n buf 0 c s')"
        using parsers_okD(6) [OF assms(1) s'(2,3), of "[]"] by simp
      then show "parse_ok buf s1 (parseexec_args n buf 0 c s')" using s'(1) by (rule parse_ok_mono)
    qed
    then show ?thesis using p False pb by (auto intro: parse_ok_mono)
  qed
qed

lemma parseexec_args_step:
  assumes "parsers_ok buf n" "s \<le> length buf" "cmd_ok buf c" "exec_args c = Some as" "8 * (length buf - s) + 3 \<le> Suc n"
  shows "parse_ok buf s (parseexec_args (Suc n) buf (length as) c s)"
proof -
  obtain b s1 where p: "peek buf s ''|)&;'' = (b, s1)" by force
  note pb = peek_bounds [OF p assms(2)]
  obtain tok q eq s2 where g: "gettoken buf s1 = (tok, (q, eq), s2)" by (metis prod.collapse)
  have gb: "s1 \<le> q" "q \<le> eq" "eq \<le> s2" "s2 \<le> length buf" "tok \<noteq> CHR 0x00 \<Longrightarrow> q < eq" "tok = CHR ''a'' \<Longrightarrow> token_ok buf (q, eq)"
    using gettoken_bounds [OF g] pb by blast+
  consider (stop) "b \<or> tok = CHR 0x00 \<or> tok \<noteq> CHR ''a'' \<or> Suc (length as) \<ge> MAXARGS"
    | (go) "\<not> b" "tok = CHR ''a''" "Suc (length as) < MAXARGS" by linarith
  then show ?thesis
  proof cases
    case stop
    then show ?thesis using p g pb gb assms(3) by auto
  next
    case go
    have a: "cmd_ok buf (add_arg (q, eq) c)" "exec_args (add_arg (q, eq) c) = Some (as @ [(q, eq)])"
      using cmd_ok_add_arg [OF assms(3) gb(6) assms(4)] go exec_args_add_arg [OF assms(4)] by auto
    have n: "8 * (length buf - s2) + 3 \<le> n" "length buf - s2 < n"
      using assms(5) conjunct1 [OF pb] gb(1-4) gb(5) go(2) by (simp, linarith)+
    have r: "parse_ok buf s2 (parseredirs n buf (add_arg (q, eq) c) s2)"
      using parseredirs_ok [OF gb(4) n(2) a(1)] by blast
    have "parse_ok buf s2 (bindP (parseredirs n buf (add_arg (q, eq) c) s2)
        (\<lambda>ret s. parseexec_args n buf (Suc (length as)) ret s))"
    proof (rule parse_ok_bindP [OF r])
      fix d s' assume s': "s2 \<le> s'" "s' \<le> length buf" "cmd_ok buf d" "parseredirs n buf (add_arg (q, eq) c) s2 = Parsed d s'"
      have "exec_args d = Some (as @ [(q, eq)])"
        using parseredirs_ok [OF gb(4) n(2) a(1)] s'(4) a(2) by simp
      moreover have "8 * (length buf - s') + 3 \<le> n" using n(1) s'(1) by linarith
      ultimately have "parse_ok buf s' (parseexec_args n buf (Suc (length as)) d s')"
        using parsers_okD(6) [OF assms(1) s'(2,3), of "as @ [(q, eq)]"] by simp
      then show "parse_ok buf s2 (parseexec_args n buf (Suc (length as)) d s')" using s'(1) by (rule parse_ok_mono)
    qed
    then have "parse_ok buf s (bindP (parseredirs n buf (add_arg (q, eq) c) s2)
        (\<lambda>ret s. parseexec_args n buf (Suc (length as)) ret s))"
      by (rule parse_ok_mono) (use pb gb(1-3) in linarith)
    then show ?thesis using p g go by simp
  qed
qed

lemma parsers_all_ok: "parsers_ok buf n"
proof (induction n)
  case (Suc n)
  show ?case
    unfolding parsers_ok_def
    using parseline_step [OF Suc] parseline_rest_step [OF Suc] parsepipe_step [OF Suc] parseblock_step [OF Suc]
      parseexec_step [OF Suc] parseexec_args_step [OF Suc] by blast
qed (simp add: parsers_ok_def)

section \<open>Terminating the tokens\<close>

lemma foldl_terminate:
  "length (foldl (\<lambda>m (q, eq). m[eq := c]) line ts) = length line \<and>
   (j < length line \<longrightarrow> foldl (\<lambda>m (q, eq). m[eq := c]) line ts ! j = (if j \<in> snd ` set ts then c else line ! j))"
proof (induction ts arbitrary: line)
  case (Cons t ts)
  then show ?case by (cases t; cases "snd t = j") auto
qed simp

lemma nulterminate_nth:
  "length (nulterminate c line) = length line \<and>
   (j < length line \<longrightarrow> nulterminate c line ! j = (if j \<in> snd ` set (tokens c) then CHR 0x00 else line ! j))"
proof (induction c arbitrary: line)
  case (EXEC args)
  show ?case using foldl_terminate [of "CHR 0x00" line args j] by simp
next
  case (REDIR c t mode fd)
  show ?case using REDIR.IH [of line] by (cases t; cases "snd t = j") auto
next
  case (PIPE l r)
  show ?case using PIPE.IH(1) [of line] PIPE.IH(2) [of "nulterminate l line"] by auto
next
  case (LIST l r)
  show ?case using LIST.IH(1) [of line] LIST.IH(2) [of "nulterminate l line"] by auto
qed simp

lemma takeWhile_segment:
  assumes "q \<le> e" "e < length line" "line ! e = z" "\<And>j. q \<le> j \<Longrightarrow> j < e \<Longrightarrow> line ! j \<noteq> z"
  shows "takeWhile (\<lambda>c. c \<noteq> z) (drop q line) = take (e - q) (drop q line)"
proof (rule takeWhile_eq_take_P_nth)
  show "e - q < length (drop q line) \<Longrightarrow> \<not> drop q line ! (e - q) \<noteq> z" using assms(1-3) by simp
  show "\<And>i. i < e - q \<Longrightarrow> i < length (drop q line) \<Longrightarrow> drop q line ! i \<noteq> z" using assms(2,4) by simp
qed

lemma nulterminate_token:
  assumes "cmd_ok buf c" "(q, e) \<in> set (tokens c)" "CHR 0x00 \<notin> set buf"
  shows "takeWhile (\<lambda>x. x \<noteq> CHR 0x00) (drop q (nulterminate c (buf @ [CHR 0x00]))) = take (e - q) (drop q buf)"
proof -
  let ?line = "buf @ [CHR 0x00]" let ?m = "nulterminate c ?line"
  have t: "token_ok buf t" if "t \<in> set (tokens c)" for t using assms(1) that by (simp add: cmd_ok_def)
  from t [OF assms(2)] have q: "q < e" "e \<le> length buf" "\<And>j. q \<le> j \<Longrightarrow> j < e \<Longrightarrow> \<not> separator (buf ! j)"
    by (auto simp: token_ok_def)
  have m: "?m ! j = buf ! j" if "q \<le> j" "j < e" for j
  proof -
    have "j \<notin> snd ` set (tokens c)"
    proof
      assume "j \<in> snd ` set (tokens c)"
      then obtain p where "token_ok buf (p, j)" using t by force
      then have "separator (buf ! j)" using that q(2) by (simp add: token_ok_def)
      then show False using q(3) that by blast
    qed
    then show ?thesis using nulterminate_nth [of c ?line j] that q(2) by (simp add: nth_append)
  qed
  have "?m ! e = CHR 0x00"
    using nulterminate_nth [of c ?line e] assms(2) q(2) by (force simp: image_iff)
  moreover have "length ?m = Suc (length buf)" using nulterminate_nth [of c ?line] by simp
  moreover have "?m ! j \<noteq> CHR 0x00" if "q \<le> j" "j < e" for j
    using m [OF that] that q(2) assms(3) by (metis less_le_trans nth_mem)
  ultimately have "takeWhile (\<lambda>x. x \<noteq> CHR 0x00) (drop q ?m) = take (e - q) (drop q ?m)"
    using q(1,2) by (intro takeWhile_segment) simp_all
  also have "\<dots> = take (e - q) (drop q buf)"
    using q m \<open>length ?m = Suc (length buf)\<close> by (intro nth_equalityI) simp_all
  finally show ?thesis .
qed

section \<open>Properties\<close>

text \<open>
  C15: the parser always ends.  For every command line, \<^verbatim>\<open>parsecmd\<close> returns a command or stops at a syntax error,
  and a command it returns covers the whole line, has fewer than \<open>MAXARGS\<close> arguments at each program
  (so the terminating null pointer fits into \<^verbatim>\<open>argv\<close>), and all its tokens are maximal non-empty runs
  of characters of the line that are neither white space nor symbols.
\<close>

theorem parsecmd_ends:
  "(\<exists>c. parsecmd buf = Parsed c (length buf) \<and> args_ok c \<and> (\<forall>t \<in> set (tokens c). token_ok buf t)) \<or>
   (\<exists>m. parsecmd buf = Syntax m)"
proof -
  have "parse_ok buf 0 (parseline (parse_fuel buf) buf 0)"
    using parsers_okD(1) [OF parsers_all_ok, of 0 buf "parse_fuel buf"] by (simp add: parse_fuel_def)
  then show ?thesis
    by (cases "parseline (parse_fuel buf) buf 0")
      (auto simp: parsecmd_def cmd_ok_def split: prod.splits)
qed

theorem parsecmd_ends_witness: "parsecmd ''ls'' = Parsed (EXEC [(0, 2)]) 2 \<and> token_ok ''ls'' (0, 2)"
proof -
  have "parsecmd ''ls'' = Parsed (EXEC [(0, 2)]) 2" by code_simp
  then show ?thesis using parsecmd_ends [of "''ls''"] by simp
qed

text \<open>
  C19: the strings handed to \<^verbatim>\<open>exec\<close> and \<^verbatim>\<open>open\<close>.  After \<^verbatim>\<open>nulterminate\<close>, the C string that starts at a token of
  the parsed command is exactly the text of that token in the line that was read, for every token:
  no terminating NUL lands inside another token.
\<close>

theorem nulterminate_exact:
  assumes "parsecmd buf = Parsed c s" "CHR 0x00 \<notin> set buf" "(q, e) \<in> set (tokens c)"
  shows "takeWhile (\<lambda>x. x \<noteq> CHR 0x00) (drop q (nulterminate c (buf @ [CHR 0x00]))) = take (e - q) (drop q buf)"
proof -
  have "parse_ok buf 0 (parseline (parse_fuel buf) buf 0)"
    using parsers_okD(1) [OF parsers_all_ok, of 0 buf "parse_fuel buf"] by (simp add: parse_fuel_def)
  then have "cmd_ok buf c"
    using assms(1) by (cases "parseline (parse_fuel buf) buf 0") (auto simp: parsecmd_def split: prod.splits if_splits)
  then show ?thesis using assms(2,3) by (intro nulterminate_token)
qed

theorem nulterminate_exact_witness:
  "takeWhile (\<lambda>x. x \<noteq> CHR 0x00) (drop 5 (nulterminate (REDIR (EXEC [(0, 4)]) (5, 6) 0 0) (''echo<f'' @ [CHR 0x00]))) = ''f''"
proof -
  have p: "parsecmd ''echo<f'' = Parsed (REDIR (EXEC [(0, 4)]) (5, 6) 0 0) 6" by code_simp
  show ?thesis using nulterminate_exact [OF p, of 5 6] by simp
qed

end
