(* ===== verification/Pipe.thy ===== *)
theory Pipe
  imports Sched
begin

text \<open>
  Pipes (\<^verbatim>\<open>pipe.c\<close>): reading, writing and closing.  The pipe structures in use are a partial function
  from the address of the page that holds them; using a pipe whose page was freed is a \<open>Fault\<close>.  A call
  that has to wait returns \<open>Asleep\<close> at the point where \<^verbatim>\<open>sleep\<close> switches to the scheduler, together with
  the local variables that survive, and continues in the operation whose name ends in \<open>_resume\<close>.
  The buffer of the caller is the function \<open>addr\<close> from index to byte for a write and the list of the
  bytes stored so far for a read.
\<close>

section \<open>Definitions\<close>

definition PIPESIZE :: u32 where [const_defs]: "PIPESIZE = 512"

record Pipe =
  Data :: "byte list"
  ReadCount :: u32
  WriteCount :: u32
  ReadOpen :: int
  WriteOpen :: int

record kpipe = kproc +
  pipes :: "u32 \<Rightarrow> Pipe option"

interpretation pipes_field: hw_field pipes pipes_update by unfold_locales simp_all

datatype 'a progress = Returned 'a | Asleep "nat \<times> u32" nat

definition getPipe :: "u32 \<Rightarrow> ('a kpipe_scheme, Pipe) op" where
  "getPipe p = bindK (getK (\<lambda>s. pipes s p)) (\<lambda>x. case x of None \<Rightarrow> faultK | Some P \<Rightarrow> returnK P)"

definition setPipe :: "u32 \<Rightarrow> Pipe \<Rightarrow> ('a kpipe_scheme, unit) op" where
  "setPipe p P = modifyK (\<lambda>s. s\<lparr>pipes := (pipes s)(p := Some P)\<rparr>)"

definition pipe_put :: "byte \<Rightarrow> Pipe \<Rightarrow> Pipe" where
  "pipe_put b P = P\<lparr>Data := (Data P)[unat (WriteCount P mod PIPESIZE) := b], WriteCount := WriteCount P + 1\<rparr>"

definition pipe_get :: "Pipe \<Rightarrow> byte \<times> Pipe" where
  "pipe_get P = (Data P ! unat (ReadCount P mod PIPESIZE), P\<lparr>ReadCount := ReadCount P + 1\<rparr>)"

definition pipeclose :: "u32 \<Rightarrow> int \<Rightarrow> ('a kpipe_scheme, unit) op" where
  "pipeclose p writable =
     bindK (spinlockAcquire (PipeLock p)) (\<lambda>_.
     bindK (getPipe p) (\<lambda>P.
     bindK (if writable \<noteq> 0
            then bindK (setPipe p (P\<lparr>WriteOpen := 0\<rparr>)) (\<lambda>_. wakeup (PipeReadChan p))
            else bindK (setPipe p (P\<lparr>ReadOpen := 0\<rparr>)) (\<lambda>_. wakeup (PipeWriteChan p))) (\<lambda>_.
     bindK (getPipe p) (\<lambda>P.
     if ReadOpen P = 0 \<and> WriteOpen P = 0
     then bindK (spinlockRelease (PipeLock p)) (\<lambda>_.
          bindK (modifyK (\<lambda>s. s\<lparr>pipes := (pipes s)(p := None)\<rparr>)) (\<lambda>_.
          freePhysicalMemoryPage p))
     else spinlockRelease (PipeLock p)))))"

function pipewrite_loop :: "u32 \<Rightarrow> (nat \<Rightarrow> byte) \<Rightarrow> int \<Rightarrow> nat \<Rightarrow> ('a kpipe_scheme, int progress) op" where
  "pipewrite_loop p addr n i =
     (if int i < n
      then bindK (getPipe p) (\<lambda>P.
        if WriteCount P = ReadCount P + PIPESIZE
        then bindK (if ReadOpen P = 0 then returnK True
                    else bindK currentProcess (\<lambda>k. bindK (getProc k) (\<lambda>pr. returnK (IsKilled pr \<noteq> 0)))) (\<lambda>stop.
          if stop then bindK (spinlockRelease (PipeLock p)) (\<lambda>_. returnK (Returned (-1)))
          else bindK (wakeup (PipeReadChan p)) (\<lambda>_.
               bindK (sleep_enter (PipeWriteChan p) (Some (PipeLock p))) (\<lambda>local.
               returnK (Asleep local i))))
        else bindK (setPipe p (pipe_put (addr i) P)) (\<lambda>_. pipewrite_loop p addr n (Suc i)))
      else bindK (wakeup (PipeReadChan p)) (\<lambda>_.
           bindK (spinlockRelease (PipeLock p)) (\<lambda>_.
           returnK (Returned n))))"
  by pat_completeness auto
termination
  by (relation "measure (\<lambda>(p, addr, n, i). nat (n - int i))") auto

declare pipewrite_loop.simps [simp del]

definition pipewrite :: "u32 \<Rightarrow> (nat \<Rightarrow> byte) \<Rightarrow> int \<Rightarrow> ('a kpipe_scheme, int progress) op" where
  "pipewrite p addr n = bindK (spinlockAcquire (PipeLock p)) (\<lambda>_. pipewrite_loop p addr n 0)"

definition pipewrite_resume :: "u32 \<Rightarrow> (nat \<Rightarrow> byte) \<Rightarrow> int \<Rightarrow> nat \<times> u32 \<Rightarrow> nat \<Rightarrow>
    ('a kpipe_scheme, int progress) op" where
  "pipewrite_resume p addr n local i =
     bindK (sleep_exit (PipeLock p) local) (\<lambda>_. pipewrite_loop p addr n i)"

function piperead_copy :: "u32 \<Rightarrow> int \<Rightarrow> byte list \<Rightarrow> ('a kpipe_scheme, (int \<times> byte list) progress) op" where
  "piperead_copy p n addr =
     (if int (length addr) < n
      then bindK (getPipe p) (\<lambda>P.
        if ReadCount P = WriteCount P
        then bindK (wakeup (PipeWriteChan p)) (\<lambda>_.
             bindK (spinlockRelease (PipeLock p)) (\<lambda>_.
             returnK (Returned (int (length addr), addr))))
        else bindK (setPipe p (snd (pipe_get P))) (\<lambda>_. piperead_copy p n (addr @ [fst (pipe_get P)])))
      else bindK (wakeup (PipeWriteChan p)) (\<lambda>_.
           bindK (spinlockRelease (PipeLock p)) (\<lambda>_.
           returnK (Returned (int (length addr), addr)))))"
  by pat_completeness auto
termination
  by (relation "measure (\<lambda>(p, n, addr). nat (n - int (length addr)))") auto

declare piperead_copy.simps [simp del]

definition piperead_wait :: "u32 \<Rightarrow> int \<Rightarrow> ('a kpipe_scheme, (int \<times> byte list) progress) op" where
  "piperead_wait p n =
     bindK (getPipe p) (\<lambda>P.
     if ReadCount P = WriteCount P \<and> WriteOpen P \<noteq> 0
     then bindK currentProcess (\<lambda>k. bindK (getProc k) (\<lambda>pr.
       if IsKilled pr \<noteq> 0
       then bindK (spinlockRelease (PipeLock p)) (\<lambda>_. returnK (Returned (-1, [])))
       else bindK (sleep_enter (PipeReadChan p) (Some (PipeLock p))) (\<lambda>local. returnK (Asleep local 0))))
     else piperead_copy p n [])"

definition piperead :: "u32 \<Rightarrow> int \<Rightarrow> ('a kpipe_scheme, (int \<times> byte list) progress) op" where
  "piperead p n = bindK (spinlockAcquire (PipeLock p)) (\<lambda>_. piperead_wait p n)"

definition piperead_resume :: "u32 \<Rightarrow> int \<Rightarrow> nat \<times> u32 \<Rightarrow> ('a kpipe_scheme, (int \<times> byte list) progress) op" where
  "piperead_resume p n local = bindK (sleep_exit (PipeLock p) local) (\<lambda>_. piperead_wait p n)"

section \<open>Bounded queues\<close>

text \<open>
  \<open>bounded_queue\<close> is the contract of a first-in first-out buffer of fixed capacity; the lemmas in it are
  what the operations on pipes rest on.
\<close>

locale bounded_queue =
  fixes ok :: "'q \<Rightarrow> bool" and contents :: "'q \<Rightarrow> 'b list" and capacity :: nat
    and put :: "'b \<Rightarrow> 'q \<Rightarrow> 'q" and get :: "'q \<Rightarrow> 'b \<times> 'q"
    and is_full :: "'q \<Rightarrow> bool" and is_empty :: "'q \<Rightarrow> bool"
  assumes bounded: "ok q \<Longrightarrow> length (contents q) \<le> capacity"
    and full: "ok q \<Longrightarrow> is_full q \<longleftrightarrow> length (contents q) = capacity"
    and empty: "ok q \<Longrightarrow> is_empty q \<longleftrightarrow> contents q = []"
    and put: "ok q \<Longrightarrow> length (contents q) < capacity \<Longrightarrow> ok (put b q) \<and> contents (put b q) = contents q @ [b]"
    and get: "ok q \<Longrightarrow> contents q \<noteq> [] \<Longrightarrow>
      ok (snd (get q)) \<and> contents q = fst (get q) # contents (snd (get q))"
begin

fun put_all :: "'b list \<Rightarrow> 'q \<Rightarrow> 'q" where
  "put_all [] q = q"
| "put_all (b # bs) q = put_all bs (put b q)"

fun get_many :: "nat \<Rightarrow> 'q \<Rightarrow> 'q" where
  "get_many 0 q = q"
| "get_many (Suc n) q = get_many n (snd (get q))"

lemma put_all_contents:
  "ok q \<Longrightarrow> length (contents q) + length bs \<le> capacity \<Longrightarrow>
   ok (put_all bs q) \<and> contents (put_all bs q) = contents q @ bs"
proof (induction bs arbitrary: q)
  case (Cons b bs)
  then have "ok (put b q)" "contents (put b q) = contents q @ [b]"
    using put [of q b] by simp_all
  with Cons show ?case by simp
qed simp

lemma get_many_contents:
  "ok q \<Longrightarrow> n \<le> length (contents q) \<Longrightarrow> ok (get_many n q) \<and> contents (get_many n q) = drop n (contents q)"
proof (induction n arbitrary: q)
  case (Suc n)
  then have "contents q \<noteq> []" by auto
  with Suc.prems(1) have g: "ok (snd (get q))" "contents q = fst (get q) # contents (snd (get q))"
    using get by blast+
  then have "n \<le> length (contents (snd (get q)))"
    using Suc.prems(2) by (metis Suc_le_mono length_Cons)
  with Suc.IH [OF g(1)] show ?case
    using g(2) by (metis drop_Suc_Cons get_many.simps(2))
qed simp

end

section \<open>The ring buffer is a bounded queue\<close>

text \<open>
  The counters run over all 32-bit values and wrap around; because 512 divides \<open>2 ^ 32\<close>, the positions
  in the ring do not jump when they do.
\<close>

definition pipe_len :: "Pipe \<Rightarrow> nat" where
  "pipe_len P = unat (WriteCount P - ReadCount P)"

definition pipe_ok :: "Pipe \<Rightarrow> bool" where
  "pipe_ok P \<longleftrightarrow> length (Data P) = 512 \<and> pipe_len P \<le> 512"

definition pipe_bytes :: "Pipe \<Rightarrow> byte list" where
  "pipe_bytes P = map (\<lambda>j. Data P ! ((unat (ReadCount P) + j) mod 512)) [0..<pipe_len P]"

lemma unat_add_mod: "unat ((x :: u32) + y) mod 512 = (unat x + unat y) mod 512"
  by (rule unat_add_ring) simp

lemma unat_succ_mod: "unat ((x :: u32) + 1) mod 512 = (unat x + 1) mod 512"
  using unat_add_mod [of x 1] by simp

lemma ring_index: "unat ((x :: u32) mod PIPESIZE) = unat x mod 512"
  by (simp add: PIPESIZE_def unat_mod)

lemma write_index: "unat (WriteCount P) mod 512 = (unat (ReadCount P) + pipe_len P) mod 512"
  using unat_add_mod [of "ReadCount P" "WriteCount P - ReadCount P"] by (simp add: pipe_len_def)

lemma pipe_full: "WriteCount P = ReadCount P + PIPESIZE \<longleftrightarrow> pipe_len P = 512"
proof -
  have "WriteCount P = ReadCount P + PIPESIZE \<longleftrightarrow> WriteCount P - ReadCount P = 512"
    by (auto simp: PIPESIZE_def diff_eq_eq)
  also have "\<dots> \<longleftrightarrow> pipe_len P = 512"
    by (simp add: pipe_len_def word_unat_eq_iff)
  finally show ?thesis .
qed

lemma pipe_empty: "ReadCount P = WriteCount P \<longleftrightarrow> pipe_len P = 0"
  by (auto simp: pipe_len_def unat_eq_0)

lemma length_pipe_bytes [simp]: "length (pipe_bytes P) = pipe_len P"
  by (simp add: pipe_bytes_def)

lemma pipe_put_ok:
  assumes "pipe_ok P" "pipe_len P < 512"
  shows "pipe_ok (pipe_put b P)" "pipe_bytes (pipe_put b P) = pipe_bytes P @ [b]"
proof -
  have "WriteCount P + 1 - ReadCount P = WriteCount P - ReadCount P + 1" by simp
  also have "unat \<dots> = Suc (pipe_len P)"
    using assms(2) unat_add_of_nat [of "WriteCount P - ReadCount P" 1] by (simp add: pipe_len_def)
  finally have len: "pipe_len (pipe_put b P) = Suc (pipe_len P)"
    by (simp add: pipe_len_def pipe_put_def)
  then show "pipe_ok (pipe_put b P)"
    using assms by (simp add: pipe_ok_def) (simp add: pipe_put_def)
  let ?w = "(unat (ReadCount P) + pipe_len P) mod 512"
  have w: "?w < length (Data P)" using assms(1) by (simp add: pipe_ok_def)
  have d: "Data (pipe_put b P) = (Data P)[?w := b]" "ReadCount (pipe_put b P) = ReadCount P"
    by (simp_all add: pipe_put_def ring_index write_index)
  show "pipe_bytes (pipe_put b P) = pipe_bytes P @ [b]"
  proof (rule nth_equalityI)
    fix j assume "j < length (pipe_bytes (pipe_put b P))"
    then have j: "j < Suc (pipe_len P)" using len by simp
    show "pipe_bytes (pipe_put b P) ! j = (pipe_bytes P @ [b]) ! j"
    proof (cases "j = pipe_len P")
      case True
      then show ?thesis
        using w by (simp add: nth_append) (simp add: pipe_bytes_def len d del: upt_Suc)
    next
      case False
      with j have "j < pipe_len P" by simp
      moreover from this have "(unat (ReadCount P) + j) mod 512 \<noteq> ?w"
        using ring_position [of j 512 "pipe_len P" "unat (ReadCount P)"] assms(2) by auto
      ultimately show ?thesis
        using j by (simp add: nth_append) (simp add: pipe_bytes_def len d del: upt_Suc)
    qed
  qed (simp add: len)
qed

lemma pipe_get_ok:
  assumes "pipe_ok P" "pipe_len P \<noteq> 0"
  shows "pipe_ok (snd (pipe_get P))" "pipe_bytes P = fst (pipe_get P) # pipe_bytes (snd (pipe_get P))"
proof -
  have "WriteCount P - (ReadCount P + 1) = WriteCount P - ReadCount P - of_nat 1" by simp
  also have "unat \<dots> = pipe_len P - 1"
    using assms(2) unat_diff_of_nat [of 1 "WriteCount P - ReadCount P"] by (simp add: pipe_len_def)
  finally have len: "pipe_len (snd (pipe_get P)) = pipe_len P - 1"
    by (simp add: pipe_len_def pipe_get_def)
  then show "pipe_ok (snd (pipe_get P))"
    using assms(1) unfolding pipe_ok_def len by (auto simp: pipe_get_def)
  have idx: "(unat (ReadCount P + 1) + j) mod 512 = (unat (ReadCount P) + Suc j) mod 512" for j
    using mod_add_cong [OF unat_succ_mod [of "ReadCount P"] refl, of j] by simp
  have "[0..<pipe_len P] = 0 # map Suc [0..<pipe_len P - 1]"
    using assms(2) by (simp add: upt_conv_Cons map_Suc_upt)
  then have "pipe_bytes P = Data P ! (unat (ReadCount P) mod 512) #
      map (\<lambda>j. Data P ! ((unat (ReadCount P) + Suc j) mod 512)) [0..<pipe_len P - 1]"
    by (simp add: pipe_bytes_def)
  also have "\<dots> = fst (pipe_get P) # pipe_bytes (snd (pipe_get P))"
    unfolding pipe_bytes_def len by (simp add: pipe_get_def ring_index idx)
  finally show "pipe_bytes P = fst (pipe_get P) # pipe_bytes (snd (pipe_get P))" .
qed

interpretation ring: bounded_queue pipe_ok pipe_bytes 512 pipe_put pipe_get
  "\<lambda>P. WriteCount P = ReadCount P + PIPESIZE" "\<lambda>P. ReadCount P = WriteCount P"
proof
  show "pipe_ok P \<Longrightarrow> length (pipe_bytes P) \<le> 512" for P by (simp add: pipe_ok_def)
  show "(WriteCount P = ReadCount P + PIPESIZE) = (length (pipe_bytes P) = 512)" for P by (simp add: pipe_full)
  show "(ReadCount P = WriteCount P) = (pipe_bytes P = [])" for P
    unfolding pipe_empty length_0_conv [symmetric] by simp
  show "pipe_ok P \<Longrightarrow> length (pipe_bytes P) < 512 \<Longrightarrow>
      pipe_ok (pipe_put b P) \<and> pipe_bytes (pipe_put b P) = pipe_bytes P @ [b]" for P b
    by (simp add: pipe_put_ok)
  show "pipe_ok P \<Longrightarrow> pipe_bytes P \<noteq> [] \<Longrightarrow>
      pipe_ok (snd (pipe_get P)) \<and> pipe_bytes P = fst (pipe_get P) # pipe_bytes (snd (pipe_get P))" for P
    using pipe_get_ok [of P] by (auto simp: pipe_bytes_def)
qed

section \<open>Running the pipe operations\<close>

text \<open>
  \<open>pipe_section i k p s\<close>: process \<open>k\<close> runs on processor \<open>i\<close> and holds the lock of pipe \<open>p\<close> and no other
  lock, as the loops of \<^verbatim>\<open>pipewrite\<close> and \<^verbatim>\<open>piperead\<close> do.  \<open>pipe_idle\<close> is the situation before the call.
\<close>

definition set_pipe :: "u32 \<Rightarrow> Pipe \<Rightarrow> 'a kpipe_scheme \<Rightarrow> 'a kpipe_scheme" where
  "set_pipe p P s = s\<lparr>pipes := (pipes s)(p := Some P)\<rparr>"

definition pipe_section :: "nat \<Rightarrow> nat \<Rightarrow> u32 \<Rightarrow> 'a kpipe_scheme \<Rightarrow> bool" where
  "pipe_section i k p s \<longleftrightarrow> in_section i s \<and> depth i s = 1 \<and> holds i (PipeLock p) s \<and>
     lock_free ProcessTableLock s \<and> length (procs s) = NPROC \<and> curproc i s = Some k \<and> k < NPROC"

definition pipe_idle :: "nat \<Rightarrow> nat \<Rightarrow> u32 \<Rightarrow> 'a kpipe_scheme \<Rightarrow> bool" where
  "pipe_idle i k p s \<longleftrightarrow> proc_ready i s \<and> depth i s = 0 \<and> lock_free (PipeLock p) s \<and> curproc i s = Some k \<and> k < NPROC"

lemma set_pipe_alt: "set_pipe p P s = pipes_update (\<lambda>f. f(p := Some P)) s"
  by (simp add: set_pipe_def)

lemma set_pipe_sel [simp]:
  "pipes (set_pipe p P s) p = Some P" "processTable (set_pipe p P s) = processTable s"
  "cpus (set_pipe p P s) = cpus s" "eflags (set_pipe p P s) = eflags s"
  "set_pipe p Q (set_pipe p P s) = set_pipe p Q s" "pipes s p = Some P \<Longrightarrow> set_pipe p P s = s"
  "depth i (set_pipe p P s) = depth i s"
  by (auto simp: set_pipe_def depth_def fun_upd_idem)

lemma set_pipe_lock [simp]:
  "acquired i l (set_pipe p P s) = set_pipe p P (acquired i l s)"
  "released i l (set_pipe p P s) = set_pipe p P (released i l s)"
  "resync i (set_pipe p P s) = set_pipe p P (resync i s)"
  "cpu_ok i (set_pipe p P s) = cpu_ok i s" "in_section i (set_pipe p P s) = in_section i s"
  "lock_free l (set_pipe p P s) = lock_free l s" "holds i l (set_pipe p P s) = holds i l s"
  "curproc i (set_pipe p P s) = curproc i s"
  by (simp_all add: set_pipe_alt)

lemma pipes_set_procs [simp]: "pipes (set_procs ps s) = pipes s"
  by (simp add: set_procs_def)

lemma pipe_section_upd [simp]:
  "pipe_section i k p (set_pipe q P s) = pipe_section i k p s"
  "length ps = NPROC \<Longrightarrow> pipe_section i k p s \<Longrightarrow> pipe_section i k p (set_procs ps s)"
  by (auto simp: pipe_section_def)

lemma getPipe_run [simp]: "pipes s p = Some P \<Longrightarrow> getPipe p s = Ret P s"
  by (simp add: getPipe_def kmonad)

lemma setPipe_run [simp]: "setPipe p P s = Ret () (set_pipe p P s)"
  by (simp add: setPipe_def set_pipe_def)

lemma pipe_section_start:
  assumes "pipe_idle i k p s"
  shows "spinlockAcquire (PipeLock p) s = Ret () (acquired i (PipeLock p) s)"
    "pipe_section i k p (acquired i (PipeLock p) s)"
  using assms by (simp_all add: pipe_idle_def pipe_section_def proc_ready_def spinlockAcquire_ok [of i])

lemma pipe_section_release:
  "pipe_section i k p s \<Longrightarrow> spinlockRelease (PipeLock p) s = Ret () (released i (PipeLock p) s)"
  by (simp add: pipe_section_def spinlockRelease_ok [of i])

lemma pipe_section_wakeup:
  "pipe_section i k p s \<Longrightarrow> wakeup c s = Ret () (set_procs (map (woken c) (procs s)) s)"
  by (simp add: pipe_section_def wakeup_run [of i] proc_ready_def in_section_cpu_ok resync_section)

lemma pipe_section_current: "pipe_section i k p s \<Longrightarrow> currentProcess s = Ret k s"
  by (simp add: pipe_section_def currentProcess_def kmonad myProcess_ok [of i] in_section_cpu_ok resync_section)

lemma pipe_section_sleep:
  "pipe_section i k p s \<Longrightarrow> sleep_enter c (Some (PipeLock p)) s =
     Ret (k, InterruptsEnabled (cpus s ! i))
       (set_procs ((procs s)[k := (procs s ! k)\<lparr>Chan := c, State := SLEEPING\<rparr>])
         (released i (PipeLock p) (acquired i ProcessTableLock s)))"
  using sleep_enter_run [of i s "PipeLock p" k c] by (simp add: pipe_section_def)

lemma pipe_section_length: "pipe_section i k p s \<Longrightarrow> length (procs s) = NPROC \<and> k < NPROC"
  by (simp add: pipe_section_def)

lemmas pipe_section_run = pipe_section_release pipe_section_wakeup pipe_section_current pipe_section_sleep

text \<open>
  The end of \<^verbatim>\<open>pipewrite\<close> once no further byte is written: either everything was, or the buffer is full.
\<close>

definition pipe_after_write :: "nat \<Rightarrow> nat \<Rightarrow> u32 \<Rightarrow> int \<Rightarrow> nat \<Rightarrow> Pipe \<Rightarrow>
    'a kpipe_scheme \<Rightarrow> ('a kpipe_scheme, int progress) outcome" where
  "pipe_after_write i k p n j P s =
     (let w = set_procs (map (woken (PipeReadChan p)) (procs s)) s in
      if n \<le> int j then Ret (Returned n) (released i (PipeLock p) w)
      else if ReadOpen P = 0 \<or> IsKilled (procs s ! k) \<noteq> 0
      then Ret (Returned (-1)) (released i (PipeLock p) s)
      else Ret (Asleep (k, InterruptsEnabled (cpus s ! i)) j)
        (set_procs ((procs w)[k := (procs w ! k)\<lparr>Chan := PipeWriteChan p, State := SLEEPING\<rparr>])
          (released i (PipeLock p) (acquired i ProcessTableLock s))))"

lemma woken_IsKilled [simp]: "IsKilled (woken c p) = IsKilled p"
  by (simp add: woken_def)

lemma pipewrite_loop_run:
  assumes "pipe_section i k p s" "pipes s p = Some P" "pipe_ok P"
  shows "\<exists>j Q. a \<le> j \<and> j - a = min (nat n - a) (512 - pipe_len P) \<and> pipe_ok Q \<and>
    pipe_bytes Q = pipe_bytes P @ map addr [a..<j] \<and> ReadOpen Q = ReadOpen P \<and> WriteOpen Q = WriteOpen P \<and>
    pipewrite_loop p addr n a s = pipe_after_write i k p n j Q (set_pipe p Q s)"
  using assms
proof (induction "nat n - a" arbitrary: a P s)
  case 0
  then have "n \<le> int a" by simp
  then have "pipewrite_loop p addr n a s = pipe_after_write i k p n a P (set_pipe p P s)"
    using 0 pipe_section_length [OF 0(2)] by (subst pipewrite_loop.simps) (simp add: kmonad pipe_section_run [of i k] pipe_after_write_def)
  then show ?case
    using 0 by (intro exI [of _ a] exI [of _ P]) simp
next
  case (Suc x)
  then have a: "int a < n" "\<not> n \<le> int a" by simp_all
  show ?case
  proof (cases "pipe_len P = 512")
    case True
    then have "pipewrite_loop p addr n a s = pipe_after_write i k p n a P (set_pipe p P s)"
      using Suc.prems a pipe_section_length [OF Suc.prems(1)]
      by (subst pipewrite_loop.simps)
        (auto simp: kmonad pipe_full pipe_section_run [of i k] pipe_after_write_def Let_def)
    then show ?thesis
      using Suc.prems True by (intro exI [of _ a] exI [of _ P]) simp
  next
    case False
    let ?P = "pipe_put (addr a) P"
    have "pipe_len P < 512" using False Suc.prems(3) by (simp add: pipe_ok_def)
    note put = pipe_put_ok [OF Suc.prems(3) this, of "addr a"]
    have len: "pipe_len ?P = Suc (pipe_len P)"
      using arg_cong [OF put(2), of length] by simp
    have "x = nat n - Suc a" using Suc.hyps(2) by simp
    then obtain j Q where j: "Suc a \<le> j" "j - Suc a = min (nat n - Suc a) (512 - pipe_len ?P)" "pipe_ok Q"
        "pipe_bytes Q = pipe_bytes ?P @ map addr [Suc a..<j]" "ReadOpen Q = ReadOpen ?P" "WriteOpen Q = WriteOpen ?P"
        "pipewrite_loop p addr n (Suc a) (set_pipe p ?P s) = pipe_after_write i k p n j Q (set_pipe p Q (set_pipe p ?P s))"
      using Suc.hyps(1) [of "Suc a" "set_pipe p ?P s" ?P] Suc.prems(1) put(1) by auto
    have "pipewrite_loop p addr n a s = pipewrite_loop p addr n (Suc a) (set_pipe p ?P s)"
      using Suc.prems False a
      by (subst pipewrite_loop.simps) (simp add: kmonad pipe_full)
    moreover have "[a..<j] = a # [Suc a..<j]" using j(1) by (simp add: upt_conv_Cons)
    moreover have "j - a = min (nat n - a) (512 - pipe_len P)"
    proof -
      have "nat n - a = Suc (nat n - Suc a)" "512 - pipe_len P = Suc (512 - pipe_len ?P)" "j - a = Suc (j - Suc a)"
        using j(1) len \<open>pipe_len P < 512\<close> a(1) by linarith+
      then show ?thesis using j(2) by (simp only: min_Suc_Suc)
    qed
    moreover have "ReadOpen ?P = ReadOpen P" "WriteOpen ?P = WriteOpen P"
      by (simp_all add: pipe_put_def)
    ultimately show ?thesis
      using j put(2) by (intro exI [of _ j] exI [of _ Q]) simp
  qed
qed

definition pipe_after_read :: "nat \<Rightarrow> u32 \<Rightarrow> byte list \<Rightarrow>
    'a kpipe_scheme \<Rightarrow> ('a kpipe_scheme, (int \<times> byte list) progress) outcome" where
  "pipe_after_read i p bs s =
     Ret (Returned (int (length bs), bs))
       (released i (PipeLock p) (set_procs (map (woken (PipeWriteChan p)) (procs s)) s))"

lemma piperead_copy_run:
  assumes "pipe_section i k p s" "pipes s p = Some P" "pipe_ok P"
  shows "\<exists>m Q. m = min (nat n - length acc) (pipe_len P) \<and> pipe_ok Q \<and> pipe_bytes Q = drop m (pipe_bytes P) \<and>
    ReadOpen Q = ReadOpen P \<and> WriteOpen Q = WriteOpen P \<and>
    piperead_copy p n acc s = pipe_after_read i p (acc @ take m (pipe_bytes P)) (set_pipe p Q s)"
  using assms
proof (induction "nat n - length acc" arbitrary: acc P s)
  case 0
  then have "n \<le> int (length acc)" by simp
  then have "piperead_copy p n acc s = pipe_after_read i p acc s"
    using 0 pipe_section_length [OF 0(2)]
    by (subst piperead_copy.simps) (simp add: kmonad pipe_section_run [of i k] pipe_after_read_def)
  then show ?case
    using 0 by (intro exI [of _ 0] exI [of _ P]) simp
next
  case (Suc x)
  then have a: "int (length acc) < n" by simp
  show ?case
  proof (cases "pipe_len P = 0")
    case True
    then have "piperead_copy p n acc s = pipe_after_read i p acc s"
      using Suc.prems a pipe_section_length [OF Suc.prems(1)]
      by (subst piperead_copy.simps) (simp add: kmonad pipe_empty pipe_section_run [of i k] pipe_after_read_def)
    then show ?thesis
      using Suc.prems True by (intro exI [of _ 0] exI [of _ P]) simp
  next
    case False
    let ?b = "fst (pipe_get P)" and ?P = "snd (pipe_get P)"
    note get = pipe_get_ok [OF Suc.prems(3) False]
    have len: "pipe_len P = Suc (pipe_len ?P)"
      using arg_cong [OF get(2), of length] by simp
    have "x = nat n - length (acc @ [?b])" using Suc.hyps(2) by simp
    from Suc.hyps(1) [OF this _ _ get(1), of "set_pipe p ?P s"] Suc.prems(1)
    obtain m Q where m: "m = min (nat n - Suc (length acc)) (pipe_len ?P)" "pipe_ok Q"
        "pipe_bytes Q = drop m (pipe_bytes ?P)" "ReadOpen Q = ReadOpen ?P" "WriteOpen Q = WriteOpen ?P"
        "piperead_copy p n (acc @ [?b]) (set_pipe p ?P s) =
          pipe_after_read i p ((acc @ [?b]) @ take m (pipe_bytes ?P)) (set_pipe p Q (set_pipe p ?P s))"
      by auto
    have "piperead_copy p n acc s = piperead_copy p n (acc @ [?b]) (set_pipe p ?P s)"
      using Suc.prems False a by (subst piperead_copy.simps) (simp add: kmonad pipe_empty)
    moreover have "min (nat n - length acc) (pipe_len P) = Suc m"
    proof -
      have "nat n - length acc = Suc (nat n - Suc (length acc))" using a by linarith
      then show ?thesis using m(1) len by (simp only: min_Suc_Suc)
    qed
    moreover have "ReadOpen ?P = ReadOpen P" "WriteOpen ?P = WriteOpen P"
      by (simp_all add: pipe_get_def)
    ultimately show ?thesis
      using m(2-6) get(2) by (intro exI [of _ "Suc m"] exI [of _ Q]) simp
  qed
qed

lemma piperead_wait_run:
  assumes "pipe_section i k p s" "pipes s p = Some P" "pipe_ok P"
  shows "piperead_wait p n s =
    (if pipe_len P = 0 \<and> WriteOpen P \<noteq> 0
     then if IsKilled (procs s ! k) \<noteq> 0 then Ret (Returned (-1, [])) (released i (PipeLock p) s)
       else Ret (Asleep (k, InterruptsEnabled (cpus s ! i)) 0)
         (set_procs ((procs s)[k := (procs s ! k)\<lparr>Chan := PipeReadChan p, State := SLEEPING\<rparr>])
           (released i (PipeLock p) (acquired i ProcessTableLock s)))
     else piperead_copy p n [] s)"
  using assms by (simp add: piperead_wait_def kmonad pipe_section_run [of i k] pipe_empty)

section \<open>Nobody sleeps for ever\<close>

text \<open>
  \<open>wait_inv p s\<close>: a process that sleeps in \<^verbatim>\<open>piperead\<close> sleeps on an empty pipe with both ends open, and one
  that sleeps in \<^verbatim>\<open>pipewrite\<close> on a full one with both ends open.
\<close>

definition sleeps_on :: "chan \<Rightarrow> 'a kproc_scheme \<Rightarrow> bool" where
  "sleeps_on c s \<longleftrightarrow> (\<exists>q \<in> set (procs s). State q = SLEEPING \<and> Chan q = c)"

definition wait_inv :: "u32 \<Rightarrow> 'a kpipe_scheme \<Rightarrow> bool" where
  "wait_inv p s \<longleftrightarrow> (\<exists>P. pipes s p = Some P \<and> pipe_ok P \<and>
     (sleeps_on (PipeReadChan p) s \<longrightarrow> pipe_bytes P = [] \<and> ReadOpen P \<noteq> 0 \<and> WriteOpen P \<noteq> 0) \<and>
     (sleeps_on (PipeWriteChan p) s \<longrightarrow> length (pipe_bytes P) = 512 \<and> ReadOpen P \<noteq> 0 \<and> WriteOpen P \<noteq> 0))"

lemma sleeps_on_woken: "sleeps_on c (set_procs (map (woken d) ps) s) \<longleftrightarrow> c \<noteq> d \<and> sleeps_on c (set_procs ps s)"
  by (auto simp: sleeps_on_def woken_def)

lemma sleeps_on_sleep:
  "sleeps_on c (set_procs (ps[k := q\<lparr>Chan := d, State := SLEEPING\<rparr>]) s) \<Longrightarrow> c = d \<or> sleeps_on c (set_procs ps s)"
  by (auto simp: sleeps_on_def dest!: subsetD [OF set_update_subset_insert])

lemma sleeps_on_cong: "procs t = procs s \<Longrightarrow> sleeps_on c t = sleeps_on c s"
  by (simp add: sleeps_on_def)

lemma sleeps_on_procs: "sleeps_on c (set_procs ps s) \<longleftrightarrow> (\<exists>q \<in> set ps. State q = SLEEPING \<and> Chan q = c)"
  by (simp add: sleeps_on_def)

lemma wait_invI:
  assumes "pipes s p = Some P" "pipe_ok P"
    and "sleeps_on (PipeReadChan p) s \<Longrightarrow> pipe_bytes P = [] \<and> ReadOpen P \<noteq> 0 \<and> WriteOpen P \<noteq> 0"
    and "sleeps_on (PipeWriteChan p) s \<Longrightarrow> length (pipe_bytes P) = 512 \<and> ReadOpen P \<noteq> 0 \<and> WriteOpen P \<noteq> 0"
  shows "wait_inv p s"
  using assms by (auto simp: wait_inv_def)

lemma wait_inv_pipe:
  assumes "wait_inv p s"
  obtains P where "pipes s p = Some P" "pipe_ok P"
    "sleeps_on (PipeReadChan p) s \<longrightarrow> pipe_len P = 0 \<and> ReadOpen P \<noteq> 0 \<and> WriteOpen P \<noteq> 0"
    "sleeps_on (PipeWriteChan p) s \<longrightarrow> pipe_len P = 512 \<and> ReadOpen P \<noteq> 0 \<and> WriteOpen P \<noteq> 0"
proof -
  have "pipe_bytes P = [] \<longleftrightarrow> pipe_len P = 0" for P
    by (simp add: pipe_bytes_def)
  then show thesis
    using assms that by (auto simp: wait_inv_def)
qed

lemma pipewrite_wait_inv:
  assumes "pipe_section i k p s" "wait_inv p s" "IsKilled (procs s ! k) = 0"
    and "\<And>P. pipes s p = Some P \<Longrightarrow> WriteOpen P \<noteq> 0"
  shows "\<exists>x t. pipewrite_loop p addr n a s = Ret x t \<and> wait_inv p t"
proof -
  obtain P where P: "pipes s p = Some P" "pipe_ok P"
      "sleeps_on (PipeReadChan p) s \<longrightarrow> pipe_len P = 0 \<and> ReadOpen P \<noteq> 0 \<and> WriteOpen P \<noteq> 0"
      "sleeps_on (PipeWriteChan p) s \<longrightarrow> pipe_len P = 512 \<and> ReadOpen P \<noteq> 0 \<and> WriteOpen P \<noteq> 0"
    using assms(2) by (rule wait_inv_pipe)
  obtain j Q where j: "a \<le> j" "j - a = min (nat n - a) (512 - pipe_len P)" "pipe_ok Q"
      "pipe_bytes Q = pipe_bytes P @ map addr [a..<j]" "ReadOpen Q = ReadOpen P" "WriteOpen Q = WriteOpen P"
      "pipewrite_loop p addr n a s = pipe_after_write i k p n j Q (set_pipe p Q s)"
    using pipewrite_loop_run [OF assms(1) P(1,2)] by blast
  have len: "length (pipe_bytes Q) = pipe_len P + (j - a)"
    using arg_cong [OF j(4), of length] by simp
  let ?ps = "map (woken (PipeReadChan p)) (procs s)"
  consider (all) "n \<le> int j" | (closed) "\<not> n \<le> int j" "ReadOpen P = 0" | (full) "\<not> n \<le> int j" "ReadOpen P \<noteq> 0"
    by blast
  then show ?thesis
  proof cases
    case all
    have "wait_inv p (released i (PipeLock p) (set_procs ?ps (set_pipe p Q s)))"
    proof (rule wait_invI)
      assume "sleeps_on (PipeWriteChan p) (released i (PipeLock p) (set_procs ?ps (set_pipe p Q s)))"
      then have "sleeps_on (PipeWriteChan p) s"
        by (simp add: sleeps_on_woken) (simp add: sleeps_on_def)
      with P(4) have "pipe_len P = 512" "ReadOpen P \<noteq> 0" "WriteOpen P \<noteq> 0" by blast+
      then show "length (pipe_bytes Q) = 512 \<and> ReadOpen Q \<noteq> 0 \<and> WriteOpen Q \<noteq> 0"
        using len j by simp
    qed (use j in \<open>simp_all add: sleeps_on_woken\<close>)
    then show ?thesis using j(7) all by (simp add: pipe_after_write_def)
  next
    case closed
    have "wait_inv p (released i (PipeLock p) (set_pipe p Q s))"
      using j P closed by (intro wait_invI [of _ _ Q]) (auto simp: sleeps_on_def)
    then show ?thesis using j closed by (simp add: pipe_after_write_def)
  next
    case full
    have "length (pipe_bytes Q) = 512"
      using full(1) j(1,2) len P(2) by (simp add: pipe_ok_def min_def split: if_splits)
    let ?t = "set_procs (?ps[k := (?ps ! k)\<lparr>Chan := PipeWriteChan p, State := SLEEPING\<rparr>])
          (released i (PipeLock p) (acquired i ProcessTableLock (set_pipe p Q s)))"
    have "wait_inv p ?t"
    proof (rule wait_invI)
      show "pipes ?t p = Some Q" using j by simp
      assume "sleeps_on (PipeReadChan p) ?t"
      then show "pipe_bytes Q = [] \<and> ReadOpen Q \<noteq> 0 \<and> WriteOpen Q \<noteq> 0"
        by (auto dest!: sleeps_on_sleep simp: sleeps_on_woken)
    next
      show "length (pipe_bytes Q) = 512 \<and> ReadOpen Q \<noteq> 0 \<and> WriteOpen Q \<noteq> 0"
        using \<open>length (pipe_bytes Q) = 512\<close> full j(5,6) assms(4) P(1) by simp
    qed (rule j(3))
    then show ?thesis using j full assms(3) by (simp add: pipe_after_write_def)
  qed
qed

lemma piperead_wait_inv:
  assumes "pipe_section i k p s" "wait_inv p s"
    and "\<And>P. pipes s p = Some P \<Longrightarrow> ReadOpen P \<noteq> 0"
  shows "\<exists>x t. piperead_wait p n s = Ret x t \<and> wait_inv p t"
proof -
  obtain P where P: "pipes s p = Some P" "pipe_ok P"
      "sleeps_on (PipeReadChan p) s \<longrightarrow> pipe_len P = 0 \<and> ReadOpen P \<noteq> 0 \<and> WriteOpen P \<noteq> 0"
      "sleeps_on (PipeWriteChan p) s \<longrightarrow> pipe_len P = 512 \<and> ReadOpen P \<noteq> 0 \<and> WriteOpen P \<noteq> 0"
    using assms(2) by (rule wait_inv_pipe)
  have empty: "pipe_bytes P = []" if "pipe_len P = 0"
    using that by (simp add: pipe_bytes_def)
  show ?thesis
  proof (cases "pipe_len P = 0 \<and> WriteOpen P \<noteq> 0")
    case True
    let ?t = "set_procs ((procs s)[k := (procs s ! k)\<lparr>Chan := PipeReadChan p, State := SLEEPING\<rparr>])
           (released i (PipeLock p) (acquired i ProcessTableLock s))"
    have "wait_inv p (released i (PipeLock p) s)"
      using assms(2) by (simp add: wait_inv_def sleeps_on_def)
    moreover have "wait_inv p ?t"
    proof (rule wait_invI)
      show "pipe_bytes P = [] \<and> ReadOpen P \<noteq> 0 \<and> WriteOpen P \<noteq> 0"
        using True empty assms(3) [OF P(1)] by simp
      assume "sleeps_on (PipeWriteChan p) ?t"
      then have "sleeps_on (PipeWriteChan p) s"
        by - (drule sleeps_on_sleep, simp add: sleeps_on_def)
      with P(4) True show "length (pipe_bytes P) = 512 \<and> ReadOpen P \<noteq> 0 \<and> WriteOpen P \<noteq> 0" by simp
    qed (use P in simp_all)
    ultimately show ?thesis
      using True piperead_wait_run [OF assms(1) P(1,2), of n] by (auto split: if_splits)
  next
    case False
    obtain m Q where m: "m = min (nat n) (pipe_len P)" "pipe_ok Q" "pipe_bytes Q = drop m (pipe_bytes P)"
        "ReadOpen Q = ReadOpen P" "WriteOpen Q = WriteOpen P"
        "piperead_copy p n [] s = pipe_after_read i p (take m (pipe_bytes P)) (set_pipe p Q s)"
      using piperead_copy_run [OF assms(1) P(1,2), of n "[]"] by auto
    have "\<not> sleeps_on (PipeReadChan p) s" using P(3) False by blast
    then have "wait_inv p (released i (PipeLock p) (set_procs (map (woken (PipeWriteChan p)) (procs s)) (set_pipe p Q s)))"
      using m(2) by (intro wait_invI [of _ _ Q]) (simp_all add: sleeps_on_woken, auto simp: sleeps_on_def)
    then show ?thesis
      using piperead_wait_run [OF assms(1) P(1,2), of n] False m(6) by (simp add: pipe_after_read_def)
  qed
qed

section \<open>Closing\<close>

definition pipe_closed :: "int \<Rightarrow> Pipe \<Rightarrow> Pipe" where
  "pipe_closed writable P = (if writable \<noteq> 0 then P\<lparr>WriteOpen := 0\<rparr> else P\<lparr>ReadOpen := 0\<rparr>)"

definition peer_chan :: "int \<Rightarrow> u32 \<Rightarrow> chan" where
  "peer_chan writable p = (if writable \<noteq> 0 then PipeReadChan p else PipeWriteChan p)"

lemma pipeclose_run:
  fixes s :: "'a kpipe_scheme" and writable :: int
  assumes "proc_ready i s" "lock_free (PipeLock p) s" "pipes s p = Some P"
  defines "Q \<equiv> pipe_closed writable P"
    and "t \<equiv> set_procs (map (woken (peer_chan writable p)) (procs s)) (resync i s)"
  shows "pipeclose p writable s =
    (if ReadOpen Q = 0 \<and> WriteOpen Q = 0 then freePhysicalMemoryPage p (t\<lparr>pipes := (pipes s)(p := None)\<rparr>)
     else Ret () (set_pipe p Q t))"
proof -
  let ?a = "acquired i (PipeLock p) s"
  have ok: "cpu_ok i s" "lock_free ProcessTableLock s" "length (procs s) = NPROC"
    using assms(1) by (simp_all add: proc_ready_def)
  have w: "wakeup c (set_pipe p R ?a) = Ret () (set_procs (map (woken c) (procs s)) (set_pipe p R ?a))" for c R
    using ok by (simp add: wakeup_run [of i] proc_ready_def)
  have sp: "set_procs ps (set_pipe p R x) = set_pipe p R (set_procs ps x)" for ps R and x :: "'a kpipe_scheme"
    by (simp add: set_procs_def set_pipe_def)
  have up: "(set_pipe p R x)\<lparr>pipes := (pipes (set_pipe p R x))(p := None)\<rparr> = x\<lparr>pipes := (pipes x)(p := None)\<rparr>"
    for R and x :: "'a kpipe_scheme"
    by (simp add: set_pipe_def)
  show ?thesis
    using assms(2,3) ok
    unfolding Q_def t_def pipe_closed_def peer_chan_def
    by (simp add: pipeclose_def kmonad spinlockAcquire_ok [of i] w sp up spinlockRelease_ok [of i])
qed

section \<open>Properties\<close>

text \<open>
  The history of a pipe: \<open>w\<close> is everything writers have stored in it and \<open>r\<close> everything readers have taken
  out, over any sequence of calls and resumptions by any processes, with anything else that leaves
  the pipe alone happening in between.
\<close>

definition accepted :: "int \<Rightarrow> nat \<Rightarrow> Pipe \<Rightarrow> nat" where
  "accepted n a P = min (nat n - a) (512 - pipe_len P)"

inductive pipe_history :: "u32 \<Rightarrow> kpipe \<Rightarrow> byte list \<Rightarrow> byte list \<Rightarrow> bool" where
  created: "pipes s p = Some P \<Longrightarrow> pipe_ok P \<Longrightarrow> ReadCount P = WriteCount P \<Longrightarrow> pipe_history p s [] []"
| elsewhere: "pipe_history p s w r \<Longrightarrow> pipes t p = pipes s p \<Longrightarrow> pipe_history p t w r"
| stores: "pipe_history p s w r \<Longrightarrow> pipe_section i k p s \<Longrightarrow> pipes s p = Some P \<Longrightarrow>
    pipewrite_loop p addr n a s = Ret x t \<Longrightarrow> pipe_history p t (w @ map addr [a..<a + accepted n a P]) r"
| takes: "pipe_history p s w r \<Longrightarrow> pipe_section i k p s \<Longrightarrow>
    piperead_wait p n s = Ret (Returned (v, bs)) t \<Longrightarrow> pipe_history p t w (r @ bs)"
| takes_nothing: "pipe_history p s w r \<Longrightarrow> pipe_section i k p s \<Longrightarrow>
    piperead_wait p n s = Ret (Asleep local j) t \<Longrightarrow> pipe_history p t w r"

lemma pipe_after_write_pipes: "pipe_after_write i k p n j Q s = Ret x t \<Longrightarrow> pipes t p = pipes s p"
  by (auto simp: pipe_after_write_def Let_def split: if_splits)

lemma pipewrite_history:
  assumes "pipe_section i k p s" "pipes s p = Some P" "pipe_ok P" "pipewrite_loop p addr n a s = Ret x t"
  obtains Q where "pipes t p = Some Q" "pipe_ok Q" "pipe_bytes Q = pipe_bytes P @ map addr [a..<a + accepted n a P]"
proof -
  obtain j Q where j: "a \<le> j" "j - a = accepted n a P" "pipe_ok Q"
      "pipe_bytes Q = pipe_bytes P @ map addr [a..<j]"
      "pipewrite_loop p addr n a s = pipe_after_write i k p n j Q (set_pipe p Q s)"
    using pipewrite_loop_run [OF assms(1-3)] unfolding accepted_def by blast
  from j(1,2) have "j = a + accepted n a P" by simp
  moreover have "pipes t p = Some Q"
    using pipe_after_write_pipes [of i k p n j Q "set_pipe p Q s" x t] assms(4) j(5) by simp
  ultimately show thesis using that j by blast
qed

lemma piperead_history:
  assumes "pipe_section i k p s" "pipes s p = Some P" "pipe_ok P" "piperead_wait p n s = Ret x t"
  obtains Q where "pipes t p = Some Q" "pipe_ok Q"
    "case x of Returned (v, bs) \<Rightarrow> pipe_bytes P = bs @ pipe_bytes Q | Asleep _ _ \<Rightarrow> pipe_bytes P = pipe_bytes Q"
proof (cases "pipe_len P = 0 \<and> WriteOpen P \<noteq> 0")
  case True
  then show thesis
    using assms that [of P] piperead_wait_run [OF assms(1-3), of n] by (auto split: if_splits)
next
  case False
  obtain m Q where m: "pipe_ok Q" "pipe_bytes Q = drop m (pipe_bytes P)"
      "piperead_copy p n [] s = pipe_after_read i p (take m (pipe_bytes P)) (set_pipe p Q s)"
    using piperead_copy_run [OF assms(1-3), of n "[]"] by auto
  with False assms(4) piperead_wait_run [OF assms(1-3), of n] show thesis
    using that [of Q] by (auto simp: pipe_after_read_def)
qed

text \<open>
  C2: pipes are first in, first out.  Over any interleaving of the sections of \<^verbatim>\<open>pipewrite\<close> and \<^verbatim>\<open>piperead\<close>
  by any number of processes, including calls that sleep, return early or wrap the counters around
  \<open>2 ^ 32\<close>, what was written is exactly what was read followed by the at most 512 bytes in the buffer.
\<close>

theorem pipe_fifo:
  assumes "pipe_history p s w r"
  shows "\<exists>P. pipes s p = Some P \<and> pipe_ok P \<and> w = r @ pipe_bytes P"
  using assms
proof induction
  case (created s p P)
  then show ?case by (simp add: pipe_empty pipe_bytes_def)
next
  case (stores p s w r i k P addr n a x t)
  then obtain R where R: "pipes s p = Some R" "pipe_ok R" "w = r @ pipe_bytes R" by blast
  with stores.hyps(3) have "R = P" by simp
  with R stores.hyps show ?case
    by (auto elim!: pipewrite_history [of i k p s P addr n a x t])
next
  case (takes p s w r i k n v bs t)
  then obtain P where "pipes s p = Some P" "pipe_ok P" "w = r @ pipe_bytes P" by blast
  with takes.hyps show ?case
    by (auto elim!: piperead_history [of i k p s P n "Returned (v, bs)" t])
next
  case (takes_nothing p s w r i k n local j t)
  then obtain P where "pipes s p = Some P" "pipe_ok P" "w = r @ pipe_bytes P" by blast
  with takes_nothing.hyps show ?case
    by (auto elim!: piperead_history [of i k p s P n "Asleep local j" t])
qed simp

text \<open>A machine whose running process 0 uses a pipe in the page at \<open>0x80200000\<close>.\<close>

definition fresh_pipe :: Pipe where
  "fresh_pipe = \<lparr>Data = replicate 512 0, ReadCount = 0, WriteCount = 0, ReadOpen = 1, WriteOpen = 1\<rparr>"

definition boot_kpipe :: "Process list \<Rightarrow> Pipe \<Rightarrow> kpipe" where
  "boot_kpipe ps P = set_current 0 (Some 0) (kproc.extend (boot_kproc ps) \<lparr>pipes = [0x80200000 \<mapsto> P]\<rparr>)"

lemma boot_kpipe_sel [simp]:
  "pipes (boot_kpipe ps P) = [0x80200000 \<mapsto> P]" "processTable (boot_kpipe ps P) = processTable (boot_kproc ps)"
  "lock_free l (boot_kpipe ps P)"
  by (simp_all add: boot_kpipe_def set_current_def kproc.defs lock_free_def unlocked_def)

lemma boot_kpipe_idle:
  assumes "length ps \<le> NPROC"
  shows "pipe_idle 0 0 p (boot_kpipe ps P)"
proof -
  let ?b = "kproc.extend (boot_kproc ps) \<lparr>pipes = [0x80200000 \<mapsto> P]\<rparr>"
  have b: "cpus ?b = [boot_cpu]" "ncpu ?b = 1" "localApicId ?b = 0" by (simp_all add: kproc.defs)
  then have "cpu_ok 0 ?b" by (rule boot_cpu_ok)
  moreover have "depth 0 ?b = 0" using b by (simp add: depth_def boot_cpu_def)
  ultimately have "cpu_ok 0 (boot_kpipe ps P)" "curproc 0 (boot_kpipe ps P) = Some 0" "depth 0 (boot_kpipe ps P) = 0"
    by (simp_all add: boot_kpipe_def)
  then show ?thesis
    using assms by (simp add: pipe_idle_def proc_ready_def) (simp add: NPROC_def)
qed

lemma fresh_pipe_ok [simp]: "pipe_ok fresh_pipe" "pipe_bytes fresh_pipe = []" "pipe_len fresh_pipe = 0"
  by (simp_all add: fresh_pipe_def pipe_ok_def pipe_len_def pipe_bytes_def)

definition pipe_boot :: kpipe where
  "pipe_boot = boot_kpipe [live_process RUNNING 1] fresh_pipe"

lemma pipe_boot_idle: "pipe_idle 0 0 0x80200000 pipe_boot" "pipes pipe_boot 0x80200000 = Some fresh_pipe"
  by (simp_all add: pipe_boot_def boot_kpipe_idle NPROC_def)

theorem pipe_fifo_witness:
  "\<exists>t P. pipe_history 0x80200000 t [7, 8] [] \<and> pipes t 0x80200000 = Some P \<and> pipe_bytes P = [7, 8]"
proof -
  let ?p = "0x80200000 :: u32" and ?addr = "\<lambda>j. of_nat (7 + j) :: byte"
  let ?s = "acquired 0 (PipeLock ?p) pipe_boot"
  have sec: "pipe_section 0 0 ?p ?s" using pipe_boot_idle(1) by (rule pipe_section_start)
  have P: "pipes ?s ?p = Some fresh_pipe" by (simp add: pipe_boot_idle)
  have h: "pipe_history ?p ?s [] []"
    using P by (rule pipe_history.created) (simp_all add: fresh_pipe_def pipe_ok_def pipe_len_def)
  obtain j Q where "pipewrite_loop ?p ?addr 2 0 ?s = pipe_after_write 0 0 ?p 2 j Q (set_pipe ?p Q ?s)"
    using pipewrite_loop_run [OF sec P fresh_pipe_ok(1)] by blast
  then obtain x t where w: "pipewrite_loop ?p ?addr 2 0 ?s = Ret x t"
    by (simp add: pipe_after_write_def Let_def split: if_splits)
  have "accepted 2 0 fresh_pipe = 2" by (simp add: accepted_def)
  then have "map ?addr [0..<0 + accepted 2 0 fresh_pipe] = [7, 8]" by (simp add: upt_rec)
  with pipe_history.stores [OF h sec P w] have "pipe_history ?p t [7, 8] []" by simp
  with pipe_fifo [OF this] show ?thesis by auto
qed

text \<open>
  C3: no wakeup is lost and no deadlock arises on a pipe.  If processes sleep in \<^verbatim>\<open>piperead\<close> only on an empty
  pipe and in \<^verbatim>\<open>pipewrite\<close> only on a full one, with both ends open, then this still holds after a section
  of \<^verbatim>\<open>pipewrite\<close> by a process that has the write end open and was not killed, and after a section of
  \<^verbatim>\<open>piperead\<close> by one that has the read end open; and a reader and a writer never sleep at the same time.
\<close>

theorem pipe_no_lost_wakeup:
  assumes "pipe_section i k p s" "wait_inv p s" "pipes s p = Some P"
  shows "(WriteOpen P \<noteq> 0 \<and> IsKilled (procs s ! k) = 0 \<longrightarrow>
      (\<exists>x t. pipewrite_loop p addr n a s = Ret x t \<and> wait_inv p t)) \<and>
    (ReadOpen P \<noteq> 0 \<longrightarrow> (\<exists>x t. piperead_wait p n s = Ret x t \<and> wait_inv p t)) \<and>
    \<not> (sleeps_on (PipeReadChan p) s \<and> sleeps_on (PipeWriteChan p) s)"
proof -
  have "\<not> (sleeps_on (PipeReadChan p) s \<and> sleeps_on (PipeWriteChan p) s)"
    using assms(2) by (rule wait_inv_pipe) auto
  then show ?thesis
    using assms(3) pipewrite_wait_inv [OF assms(1,2)] piperead_wait_inv [OF assms(1,2)] by simp
qed

theorem pipe_no_lost_wakeup_witness:
  "\<exists>x t. pipewrite_loop 0x80200000 (\<lambda>_. 1) 600 0 (acquired 0 (PipeLock 0x80200000) pipe_boot) = Ret x t \<and>
    wait_inv 0x80200000 t"
proof -
  let ?p = "0x80200000 :: u32" and ?s = "acquired 0 (PipeLock 0x80200000) pipe_boot"
  have sec: "pipe_section 0 0 ?p ?s" using pipe_boot_idle(1) by (rule pipe_section_start)
  have P: "pipes ?s ?p = Some fresh_pipe" by (simp add: pipe_boot_idle)
  have ns: "\<not> sleeps_on c ?s" for c
    by (simp add: sleeps_on_def pipe_boot_def live_process_def blank_process_def)
  have "wait_inv ?p ?s" using P ns by (intro wait_invI [of _ _ fresh_pipe]) simp_all
  moreover have "IsKilled (procs ?s ! 0) = 0" "WriteOpen fresh_pipe \<noteq> 0"
    by (simp_all add: pipe_boot_def live_process_def blank_process_def fresh_pipe_def)
  ultimately show ?thesis
    using pipe_no_lost_wakeup [OF sec _ P] by blast
qed

text \<open>
  C37: a killed writer strands readers.  A killed process that writes more than 512 bytes to an empty pipe
  fills it and returns -1 without waking anybody: every reader that slept on the empty pipe still
  sleeps although 512 bytes are waiting for it.
\<close>

theorem killed_writer_strands_readers:
  assumes "pipe_section i k p s" "pipes s p = Some P" "pipe_ok P" "pipe_bytes P = []" "512 < n"
    and "IsKilled (procs s ! k) \<noteq> 0"
  shows "\<exists>t Q. pipewrite_loop p addr n 0 s = Ret (Returned (-1)) t \<and> pipes t p = Some Q \<and>
    pipe_bytes Q = map addr [0..<512] \<and> procs t = procs s"
proof -
  have "pipe_len P = 0" using arg_cong [OF assms(4), of length] by simp
  then obtain j Q where j: "j = 512" "pipe_ok Q" "pipe_bytes Q = map addr [0..<j]"
      "pipewrite_loop p addr n 0 s = pipe_after_write i k p n j Q (set_pipe p Q s)"
    using pipewrite_loop_run [OF assms(1-3), of 0 n addr] assms(4,5) by auto
  then show ?thesis
    using assms(5,6) by (simp add: pipe_after_write_def)
qed

theorem killed_writer_strands_readers_witness:
  "\<exists>t. pipewrite_loop 0x80200000 (\<lambda>_. 1) 600 0 (acquired 0 (PipeLock 0x80200000) (boot_kpipe
      [(live_process RUNNING 1)\<lparr>IsKilled := 1\<rparr>, (live_process SLEEPING 2)\<lparr>Chan := PipeReadChan 0x80200000\<rparr>] fresh_pipe)) =
      Ret (Returned (-1)) t \<and> sleeps_on (PipeReadChan 0x80200000) t"
proof -
  let ?p = "0x80200000 :: u32"
  let ?b = "boot_kpipe [(live_process RUNNING 1)\<lparr>IsKilled := 1\<rparr>,
    (live_process SLEEPING 2)\<lparr>Chan := PipeReadChan ?p\<rparr>] fresh_pipe"
  let ?s = "acquired 0 (PipeLock ?p) ?b"
  have sec: "pipe_section 0 0 ?p ?s"
    by (rule pipe_section_start) (simp add: boot_kpipe_idle NPROC_def)
  have "\<exists>t Q. pipewrite_loop ?p (\<lambda>_. 1) 600 0 ?s = Ret (Returned (-1)) t \<and> pipes t ?p = Some Q \<and>
    pipe_bytes Q = map (\<lambda>_. 1) [0..<512] \<and> procs t = procs ?s"
    by (rule killed_writer_strands_readers [OF sec, of fresh_pipe]) simp_all
  moreover have "sleeps_on (PipeReadChan ?p) ?s"
    by (simp add: sleeps_on_def live_process_def)
  ultimately show ?thesis
    using sleeps_on_cong by blast
qed

text \<open>
  C24: a round trip through a pipe.  A process that writes up to 512 bytes to an empty pipe does not sleep,
  and the next read of as many bytes returns them in order and leaves the pipe empty.
\<close>

theorem pipe_roundtrip:
  assumes "pipe_idle i k p s" "pipes s p = Some P" "pipe_ok P" "pipe_bytes P = []" "0 < n" "n \<le> 512"
  shows "\<exists>t u Q. pipewrite p addr n s = Ret (Returned n) t \<and>
    piperead p n t = Ret (Returned (n, map addr [0..<nat n])) u \<and>
    pipes u p = Some Q \<and> pipe_ok Q \<and> pipe_bytes Q = []"
proof -
  let ?a = "acquired i (PipeLock p) s" let ?bs = "map addr [0..<nat n]"
  have len: "pipe_len P = 0" using arg_cong [OF assms(4), of length] by simp
  have idle: "cpu_ok i s" "lock_free (PipeLock p) s" "length (procs s) = NPROC"
    using assms(1) by (simp_all add: pipe_idle_def proc_ready_def)
  have "pipes ?a p = Some P" using assms(2) by simp
  from pipewrite_loop_run [OF pipe_section_start(2) [OF assms(1)] this assms(3), of 0 n addr]
  obtain Q where Q: "pipe_ok Q" "pipe_bytes Q = ?bs"
      "pipewrite_loop p addr n 0 ?a = pipe_after_write i k p n (nat n) Q (set_pipe p Q ?a)"
    using assms(4-6) len by auto
  let ?t = "set_procs (map (woken (PipeReadChan p)) (procs s)) (set_pipe p Q (resync i s))"
  have t: "pipewrite p addr n s = Ret (Returned n) ?t"
    using Q(3) assms(5) idle
    by (simp add: pipewrite_def kmonad pipe_section_start(1) [OF assms(1)] pipe_after_write_def)
  have ti: "pipe_idle i k p ?t"
    using assms(1) by (simp add: pipe_idle_def proc_ready_def)
  let ?b = "acquired i (PipeLock p) ?t"
  have qlen: "pipe_len Q = nat n" "0 < pipe_len Q"
    using arg_cong [OF Q(2), of length] assms(5) by simp_all
  have b: "pipes ?b p = Some Q" by simp
  obtain R where R: "pipe_ok R" "pipe_bytes R = []"
      "piperead_copy p n [] ?b = pipe_after_read i p ?bs (set_pipe p R ?b)"
    using piperead_copy_run [OF pipe_section_start(2) [OF ti] b Q(1), of n "[]"] Q(2) qlen by auto
  have "piperead p n ?t = pipe_after_read i p ?bs (set_pipe p R ?b)"
    using R(3) piperead_wait_run [OF pipe_section_start(2) [OF ti] b Q(1), of n] qlen
    by (simp add: piperead_def kmonad pipe_section_start(1) [OF ti])
  then show ?thesis
    using t R assms(5) by (simp add: pipe_after_read_def)
qed

theorem pipe_roundtrip_witness:
  "\<exists>t u. pipewrite 0x80200000 (\<lambda>j. of_nat j) 3 pipe_boot = Ret (Returned 3) t \<and>
    piperead 0x80200000 3 t = Ret (Returned (3, [0, 1, 2])) u"
proof -
  have "map (\<lambda>j. of_nat j :: byte) [0..<nat 3] = [0, 1, 2]" by (simp add: upt_rec)
  then show ?thesis
    using pipe_roundtrip [OF pipe_boot_idle fresh_pipe_ok(1,2), of 3 "\<lambda>j. of_nat j"] by auto
qed

text \<open>
  C20: closing an end.  Closing one end of a pipe while the other is open wakes every process that slept for
  the closed end, which keeps the waiting invariant; closing the second end returns the page of the
  pipe to the free list, and the pipe no longer exists.
\<close>

theorem pipeclose_spec:
  assumes "proc_ready i s" "lock_free (PipeLock p) s" "pipes s p = Some P" "wait_inv p s"
    and "\<not> sleeps_on (if writable \<noteq> 0 then PipeWriteChan p else PipeReadChan p) s"
  shows "((if writable \<noteq> 0 then ReadOpen P else WriteOpen P) \<noteq> 0 \<longrightarrow>
      (\<exists>t. pipeclose p writable s = Ret () t \<and> wait_inv p t \<and>
        \<not> sleeps_on (PipeReadChan p) t \<and> \<not> sleeps_on (PipeWriteChan p) t)) \<and>
    ((if writable \<noteq> 0 then ReadOpen P else WriteOpen P) = 0 \<and> kmem_ready i s \<and> free_list s xs \<and>
      page_ok (kernelEnd s) p \<and> p \<notin> set xs \<longrightarrow>
      (\<exists>t. pipeclose p writable s = Ret () t \<and> pipes t p = None \<and> free_list t (p # xs)))"
proof (intro conjI impI)
  let ?t = "set_procs (map (woken (peer_chan writable p)) (procs s)) (resync i s)"
  let ?Q = "pipe_closed writable P"
  note run = pipeclose_run [OF assms(1-3), of writable]
  assume "(if writable \<noteq> 0 then ReadOpen P else WriteOpen P) \<noteq> 0"
  then have "pipeclose p writable s = Ret () (set_pipe p ?Q ?t)"
    using run by (auto simp: pipe_closed_def)
  moreover have ns: "\<not> sleeps_on (PipeReadChan p) (set_pipe p ?Q ?t)" "\<not> sleeps_on (PipeWriteChan p) (set_pipe p ?Q ?t)"
    using assms(5) by (auto simp: sleeps_on_def woken_def peer_chan_def split: if_splits)
  moreover have "pipe_ok ?Q"
    using assms(3,4) by (auto simp: wait_inv_def pipe_closed_def pipe_ok_def pipe_len_def)
  ultimately show "\<exists>t. pipeclose p writable s = Ret () t \<and> wait_inv p t \<and>
      \<not> sleeps_on (PipeReadChan p) t \<and> \<not> sleeps_on (PipeWriteChan p) t"
    using wait_invI [of "set_pipe p ?Q ?t" p ?Q] by auto
next
  let ?t = "(set_procs (map (woken (peer_chan writable p)) (procs s)) (resync i s))\<lparr>pipes := (pipes s)(p := None)\<rparr>"
  note run = pipeclose_run [OF assms(1-3), of writable]
  assume a: "(if writable \<noteq> 0 then ReadOpen P else WriteOpen P) = 0 \<and> kmem_ready i s \<and> free_list s xs \<and>
      page_ok (kernelEnd s) p \<and> p \<notin> set xs"
  then have r: "pipeclose p writable s = freePhysicalMemoryPage p ?t"
    using run by (auto simp: pipe_closed_def)
  have t: "kmem_ready i ?t" "free_list ?t xs" "kernelEnd ?t = kernelEnd s"
    using a assms(1) by (auto simp: kmem_ready_def free_list_def proc_ready_def set_procs_def)
  then have page: "page_ok (kernelEnd ?t) p" and "p \<notin> set xs" using a by simp_all
  from free_list_free [OF t(1,2) this] obtain u where u: "freePhysicalMemoryPage p ?t = Ret () u" "free_list u (p # xs)"
    by blast
  moreover have "pipes u p = None"
    using u(1) freePhysicalMemoryPage_run [OF t(1) page] by (auto simp: kmem_sync_def)
  ultimately show "\<exists>t. pipeclose p writable s = Ret () t \<and> pipes t p = None \<and> free_list t (p # xs)"
    using r by auto
qed

theorem pipeclose_spec_witness:
  "\<exists>t. pipeclose 0x80200000 1 pipe_boot = Ret () t \<and> wait_inv 0x80200000 t"
proof -
  let ?p = "0x80200000 :: u32"
  have ns: "\<not> sleeps_on c pipe_boot" for c
    by (simp add: sleeps_on_def pipe_boot_def live_process_def blank_process_def)
  then have "wait_inv ?p pipe_boot" by (intro wait_invI [OF pipe_boot_idle(2)]) simp_all
  moreover have "proc_ready 0 pipe_boot" "lock_free (PipeLock ?p) pipe_boot"
    using pipe_boot_idle(1) by (simp_all add: pipe_idle_def)
  moreover have "ReadOpen fresh_pipe \<noteq> 0" by (simp add: fresh_pipe_def)
  ultimately show ?thesis
    using pipeclose_spec [of 0 pipe_boot ?p fresh_pipe 1] pipe_boot_idle(2) ns by auto
qed

end
