(* ===== verification/FileTable.thy ===== *)
theory FileTable
  imports Pipe
begin

text \<open>
  The table of open files (\<^verbatim>\<open>file.c\<close>, \<^verbatim>\<open>file.h\<close>) and the allocation of pipes (\<^verbatim>\<open>pipe.c\<close>).  A file pointer is
  an index into the table of \<open>NFILE\<close> structures, \<open>None\<close> when null.  Reading and writing files is in the
  theories of the devices and of the file system.
\<close>

section \<open>Definitions\<close>

datatype FileType = FD_NONE | FD_PIPE | FD_FILE | FD_DIR | FD_DEVICE

record DirectoryEntry =
  Filename :: "byte list"
  Ext :: "byte list"
  Attrib :: byte
  Reserved :: byte
  TimeCreatedMs :: byte
  TimeCreated :: u16
  DateCreated :: u16
  DateLastAccessed :: u16
  FirstClusterHiBytes :: u16
  LastModTime :: u16
  LastModDate :: u16
  FirstCluster :: u16
  FileSize :: u32

record File =
  Type :: FileType
  ReferenceCount :: int
  Readable :: int
  Writable :: int
  FilePipe :: u32
  DirEntry :: DirectoryEntry
  FileName :: string
  Eof :: u32
  Position :: u32
  Size :: u32
  DeviceID :: u32

record kfile = kpipe +
  FileTab :: "File list"

interpretation ftab_field: hw_field FileTab FileTab_update by unfold_locales simp_all

definition getFile :: "nat \<Rightarrow> ('a kfile_scheme, File) op" where
  "getFile f = getK (\<lambda>s. FileTab s ! f)"

definition updFile :: "nat \<Rightarrow> (File \<Rightarrow> File) \<Rightarrow> ('a kfile_scheme, unit) op" where
  "updFile f g = modifyK (\<lambda>s. s\<lparr>FileTab := (FileTab s)[f := g (FileTab s ! f)]\<rparr>)"

definition filesInitialise :: "('a kfile_scheme, unit) op" where
  "filesInitialise =
     bindK (spinlockInitialise FileTableLock ''FileTable'') (\<lambda>_.
     bindK (spinlockAcquire FileTableLock) (\<lambda>_.
     bindK (foreachK [0..<NFILE] (\<lambda>f. updFile f (\<lambda>x. x\<lparr>ReferenceCount := 0\<rparr>))) (\<lambda>_.
     spinlockRelease FileTableLock)))"

definition allocateFileStructure :: "('a kfile_scheme, nat option) op" where
  "allocateFileStructure =
     bindK (spinlockAcquire FileTableLock) (\<lambda>_.
     bindK (getK (\<lambda>s. findIndex (\<lambda>f. ReferenceCount f = 0) (FileTab s))) (\<lambda>found.
     case found of
       Some f \<Rightarrow>
         bindK (updFile f (\<lambda>x. x\<lparr>ReferenceCount := 1\<rparr>)) (\<lambda>_.
         bindK (spinlockRelease FileTableLock) (\<lambda>_.
         returnK (Some f)))
     | None \<Rightarrow> bindK (spinlockRelease FileTableLock) (\<lambda>_. returnK None)))"

definition fileDup :: "nat \<Rightarrow> ('a kfile_scheme, nat) op" where
  "fileDup f =
     bindK (spinlockAcquire FileTableLock) (\<lambda>_.
     bindK (getFile f) (\<lambda>x.
     if ReferenceCount x < 1 then panicK ''fileDup''
     else bindK (updFile f (\<lambda>x. x\<lparr>ReferenceCount := int32 (ReferenceCount x + 1)\<rparr>)) (\<lambda>_.
       bindK (spinlockRelease FileTableLock) (\<lambda>_.
       returnK f))))"

text \<open>
  The last reference closes a pipe end; for a file of the file system, \<^verbatim>\<open>fsFat12Close\<close> only changes the
  type field of the local copy, which nothing reads afterwards.
\<close>

definition fsFat12Close :: "File \<Rightarrow> File" where
  "fsFat12Close ff = ff\<lparr>Type := FD_NONE\<rparr>"

definition fileClose :: "nat \<Rightarrow> ('a kfile_scheme, unit) op" where
  "fileClose f =
     bindK (spinlockAcquire FileTableLock) (\<lambda>_.
     bindK (getFile f) (\<lambda>x.
     if ReferenceCount x < 1 then panicK ''fileClose''
     else bindK (updFile f (\<lambda>x. x\<lparr>ReferenceCount := ReferenceCount x - 1\<rparr>)) (\<lambda>_.
       bindK (getFile f) (\<lambda>ff.
       if ReferenceCount ff > 0 then spinlockRelease FileTableLock
       else bindK (updFile f (\<lambda>x. x\<lparr>ReferenceCount := 0, Type := FD_NONE\<rparr>)) (\<lambda>_.
         bindK (spinlockRelease FileTableLock) (\<lambda>_.
         if Type ff = FD_PIPE then pipeclose (FilePipe ff) (Writable ff)
         else if Type ff = FD_FILE \<or> Type ff = FD_DIR then (let ff' = fsFat12Close ff in returnK ())
         else returnK ()))))))"

definition fileStat :: "nat \<Rightarrow> ('a kfile_scheme, int) op" where
  "fileStat f =
     bindK (getFile f) (\<lambda>x. if Type x = FD_FILE \<or> Type x = FD_DIR then returnK 0 else returnK (-1))"

definition closeIfOpen :: "nat option \<Rightarrow> ('a kfile_scheme, unit) op" where
  "closeIfOpen f = (case f of None \<Rightarrow> returnK () | Some g \<Rightarrow> fileClose g)"

definition freepiperesources :: "u32 \<Rightarrow> nat option \<Rightarrow> nat option \<Rightarrow> ('a kfile_scheme, unit) op" where
  "freepiperesources p f0 f1 =
     bindK (whenK (p \<noteq> 0) (freePhysicalMemoryPage p)) (\<lambda>_.
     bindK (closeIfOpen f0) (\<lambda>_.
     closeIfOpen f1))"

text \<open>
  \<^verbatim>\<open>pipealloc\<close> returns its status and the two file pointers.  The page it takes for the pipe has arbitrary
  contents in the data area, read back here from memory at the offset of \<^verbatim>\<open>Data\<close> in the structure.
\<close>

definition newPipe :: "memory \<Rightarrow> u32 \<Rightarrow> Pipe" where
  "newPipe m p = \<lparr>Data = map (\<lambda>j. m (p + 52 + of_nat j)) [0..<512], ReadCount = 0, WriteCount = 0,
     ReadOpen = 1, WriteOpen = 1\<rparr>"

definition pipeFile :: "u32 \<Rightarrow> int \<Rightarrow> int \<Rightarrow> File \<Rightarrow> File" where
  "pipeFile p readable writable x =
     x\<lparr>Type := FD_PIPE, Readable := readable, Writable := writable, FilePipe := p\<rparr>"

definition pipealloc :: "('a kfile_scheme, int \<times> nat option \<times> nat option) op" where
  "pipealloc =
     bindK allocateFileStructure (\<lambda>f0.
     case f0 of
       None \<Rightarrow> bindK (freepiperesources 0 None None) (\<lambda>_. returnK (-1, None, None))
     | Some a \<Rightarrow>
         bindK allocateFileStructure (\<lambda>f1.
         case f1 of
           None \<Rightarrow> bindK (freepiperesources 0 (Some a) None) (\<lambda>_. returnK (-1, Some a, None))
         | Some b \<Rightarrow>
             bindK allocatePhysicalMemoryPage (\<lambda>p.
             if p = 0
             then bindK (freepiperesources 0 (Some a) (Some b)) (\<lambda>_. returnK (-1, Some a, Some b))
             else bindK (modifyK (\<lambda>s. s\<lparr>pipes := (pipes s)(p := Some (newPipe (mem s) p))\<rparr>)) (\<lambda>_.
               bindK (spinlockInitialise (PipeLock p) ''Pipe'') (\<lambda>_.
               bindK (updFile a (pipeFile p 1 0)) (\<lambda>_.
               bindK (updFile b (pipeFile p 0 1)) (\<lambda>_.
               returnK (0, Some a, Some b))))))))"

section \<open>Running the operations\<close>

definition set_files :: "File list \<Rightarrow> 'a kfile_scheme \<Rightarrow> 'a kfile_scheme" where
  "set_files fs s = s\<lparr>FileTab := fs\<rparr>"

definition file_ready :: "nat \<Rightarrow> 'a kfile_scheme \<Rightarrow> bool" where
  "file_ready i s \<longleftrightarrow> cpu_ok i s \<and> lock_free FileTableLock s \<and> length (FileTab s) = NFILE"

lemma set_files_alt: "set_files fs s = FileTab_update (\<lambda>_. fs) s"
  by (simp add: set_files_def)

lemma set_files_lock [simp]:
  "acquired i l (set_files fs s) = set_files fs (acquired i l s)"
  "released i l (set_files fs s) = set_files fs (released i l s)"
  "resync i (set_files fs s) = set_files fs (resync i s)"
  "cpu_ok i (set_files fs s) = cpu_ok i s" "in_section i (set_files fs s) = in_section i s"
  "lock_free l (set_files fs s) = lock_free l s" "holds i l (set_files fs s) = holds i l s"
  "curproc i (set_files fs s) = curproc i s"
  by (simp_all add: set_files_alt)

lemma set_files_sel [simp]:
  "FileTab (set_files fs s) = fs" "set_files gs (set_files fs s) = set_files gs s" "set_files (FileTab s) s = s"
  "processTable (set_files fs s) = processTable s" "pipes (set_files fs s) = pipes s" "cpus (set_files fs s) = cpus s"
  "eflags (set_files fs s) = eflags s" "mem (set_files fs s) = mem s" "FreeList (set_files fs s) = FreeList s"
  "kernelEnd (set_files fs s) = kernelEnd s" "UseLock (set_files fs s) = UseLock s"
  by (simp_all add: set_files_def)

lemma updFile_run [simp]: "updFile f g s = Ret () (set_files ((FileTab s)[f := g (FileTab s ! f)]) s)"
  by (simp add: updFile_def set_files_def)

lemma getFile_run [simp]: "getFile f s = Ret (FileTab s ! f) s"
  by (simp add: getFile_def)

lemma file_ready_upd [simp]:
  "file_ready i s \<Longrightarrow> length fs = NFILE \<Longrightarrow> file_ready i (set_files fs s)"
  "file_ready i s \<Longrightarrow> file_ready i (resync i s)"
  by (simp_all add: file_ready_def)

lemma allocateFileStructure_run:
  assumes "file_ready i s"
  shows "allocateFileStructure s =
    (case findIndex (\<lambda>f. ReferenceCount f = 0) (FileTab s) of
       None \<Rightarrow> Ret None (resync i s)
     | Some f \<Rightarrow> Ret (Some f) (set_files ((FileTab s)[f := (FileTab s ! f)\<lparr>ReferenceCount := 1\<rparr>]) (resync i s)))"
  using assms
  by (cases "findIndex (\<lambda>f. ReferenceCount f = 0) (FileTab s)")
    (simp_all add: allocateFileStructure_def kmonad file_ready_def spinlockAcquire_ok [of i] spinlockRelease_ok [of i]
      del: findIndex_None)

lemma fileDup_run:
  assumes "file_ready i s" "1 \<le> ReferenceCount (FileTab s ! f)" "ReferenceCount (FileTab s ! f) < 2 ^ 31 - 1"
  shows "fileDup f s =
    Ret f (set_files ((FileTab s)[f := (FileTab s ! f)\<lparr>ReferenceCount := ReferenceCount (FileTab s ! f) + 1\<rparr>]) (resync i s))"
  using assms int32_id [of "ReferenceCount (FileTab s ! f) + 1"]
  by (simp add: fileDup_def kmonad file_ready_def spinlockAcquire_ok [of i] spinlockRelease_ok [of i])

lemma fileClose_shared:
  assumes "file_ready i s" "1 < ReferenceCount (FileTab s ! f)" "f < NFILE"
  shows "fileClose f s =
    Ret () (set_files ((FileTab s)[f := (FileTab s ! f)\<lparr>ReferenceCount := ReferenceCount (FileTab s ! f) - 1\<rparr>]) (resync i s))"
  using assms
  by (simp add: fileClose_def kmonad file_ready_def spinlockAcquire_ok [of i] spinlockRelease_ok [of i])

lemma fileClose_last:
  assumes "file_ready i s" "ReferenceCount (FileTab s ! f) = 1" "f < NFILE"
  shows "fileClose f s =
    (if Type (FileTab s ! f) = FD_PIPE then pipeclose (FilePipe (FileTab s ! f)) (Writable (FileTab s ! f)) else returnK ())
      (set_files ((FileTab s)[f := (FileTab s ! f)\<lparr>ReferenceCount := 0, Type := FD_NONE\<rparr>]) (resync i s))"
  using assms
  by (simp add: fileClose_def kmonad file_ready_def spinlockAcquire_ok [of i] spinlockRelease_ok [of i])

section \<open>Reference counts\<close>

text \<open>
  \<open>handle_pool\<close> is the contract of a table of shared handles: an allocated handle was not in use, and
  duplicating and closing count.  \<open>run_cmds\<close> is a client that keeps the list of the references it owns;
  the lemma shows that the counts stay exactly the number of references owned, so no handle is
  handed out twice and none is closed while somebody still owns it.
\<close>

datatype handle_cmd = Allocate | Duplicate nat | Close nat

locale handle_pool =
  fixes ready :: "'s \<Rightarrow> bool" and refs :: "'s \<Rightarrow> nat \<Rightarrow> int"
    and alloc :: "('s, nat option) op" and dup :: "nat \<Rightarrow> ('s, nat) op" and close :: "nat \<Rightarrow> ('s, unit) op"
  assumes alloc: "ready s \<Longrightarrow> \<exists>r t. alloc s = Ret r t \<and> ready t \<and>
      (case r of None \<Rightarrow> refs t = refs s | Some f \<Rightarrow> refs s f = 0 \<and> refs t = (refs s)(f := 1))"
    and dup: "ready s \<Longrightarrow> 1 \<le> refs s f \<Longrightarrow> refs s f < 2 ^ 31 - 1 \<Longrightarrow> \<exists>t. dup f s = Ret f t \<and> ready t \<and> refs t = (refs s)(f := refs s f + 1)"
    and close: "ready s \<Longrightarrow> 1 \<le> refs s f \<Longrightarrow> \<exists>t. close f s = Ret () t \<and> ready t \<and> refs t = (refs s)(f := refs s f - 1)"
begin

fun run_cmds :: "handle_cmd list \<Rightarrow> nat list \<Rightarrow> ('s, nat list) op" where
  "run_cmds [] own = returnK own"
| "run_cmds (Allocate # cs) own =
     bindK alloc (\<lambda>r. run_cmds cs (case r of None \<Rightarrow> own | Some f \<Rightarrow> f # own))"
| "run_cmds (Duplicate n # cs) own =
     (if n < length own then bindK (dup (own ! n)) (\<lambda>f. run_cmds cs (f # own)) else run_cmds cs own)"
| "run_cmds (Close n # cs) own =
     (if n < length own then bindK (close (own ! n)) (\<lambda>_. run_cmds cs (take n own @ drop (Suc n) own))
      else run_cmds cs own)"

definition exact :: "nat list \<Rightarrow> 's \<Rightarrow> bool" where
  "exact own s \<longleftrightarrow> ready s \<and> (\<forall>f. refs s f = int (count_list own f))"

lemma owned_refs: "exact own s \<Longrightarrow> n < length own \<Longrightarrow> 1 \<le> refs s (own ! n)"
  by (simp add: exact_def) (metis count_list_0_iff nth_mem One_nat_def Suc_leI gr_zeroI)

lemma refs_bound: "exact own s \<Longrightarrow> refs s f \<le> int (length own)"
  by (simp add: exact_def count_le_length)

lemma count_list_remove:
  "n < length own \<Longrightarrow> int (count_list (take n own @ drop (Suc n) own) f) =
     int (count_list own f) - (if f = own ! n then 1 else 0)"
proof -
  assume "n < length own"
  then have "own = take n own @ own ! n # drop (Suc n) own" by (rule id_take_nth_drop)
  then have "count_list own f = count_list (take n own @ own ! n # drop (Suc n) own) f" by simp
  then show ?thesis by auto
qed

lemma run_cmds_exact:
  "exact own s \<Longrightarrow> length own + length cs < 2 ^ 31 \<Longrightarrow> \<exists>own' t. run_cmds cs own s = Ret own' t \<and> exact own' t"
proof (induction cs arbitrary: own s)
  case (Cons c cs)
  show ?case
  proof (cases c)
    case Allocate
    obtain r t where r: "alloc s = Ret r t" "ready t"
        "case r of None \<Rightarrow> refs t = refs s | Some f \<Rightarrow> refs s f = 0 \<and> refs t = (refs s)(f := 1)"
      using alloc [of s] Cons.prems by (auto simp: exact_def)
    then have "exact (case r of None \<Rightarrow> own | Some f \<Rightarrow> f # own) t"
      using Cons.prems by (auto simp: exact_def split: option.splits)
    moreover have "length (case r of None \<Rightarrow> own | Some f \<Rightarrow> f # own) + length cs < 2 ^ 31"
      using Cons.prems(2) by (simp split: option.split)
    ultimately show ?thesis using Cons.IH r(1) Allocate by (simp add: kmonad)
  next
    case (Duplicate n)
    show ?thesis
    proof (cases "n < length own")
      case True
      obtain t where t: "dup (own ! n) s = Ret (own ! n) t" "ready t"
          "refs t = (refs s)(own ! n := refs s (own ! n) + 1)"
        using dup [of s "own ! n"] owned_refs [OF Cons.prems(1) True] refs_bound [OF Cons.prems(1), of "own ! n"] Cons.prems
        by (fastforce simp: exact_def)
      then have "exact (own ! n # own) t" using Cons.prems by (auto simp: exact_def)
      then show ?thesis using Cons.IH t(1) True Duplicate Cons.prems(2) by (simp add: kmonad)
    qed (use Cons Duplicate in simp)
  next
    case (Close n)
    show ?thesis
    proof (cases "n < length own")
      case True
      obtain t where t: "close (own ! n) s = Ret () t" "ready t"
          "refs t = (refs s)(own ! n := refs s (own ! n) - 1)"
        using close [of s "own ! n"] owned_refs [OF Cons.prems(1) True] Cons.prems by (auto simp: exact_def)
      then have "exact (take n own @ drop (Suc n) own) t"
        using Cons.prems count_list_remove [OF True] by (auto simp: exact_def simp del: count_list_append)
      then show ?thesis using Cons.IH t(1) True Close Cons.prems(2) by (simp add: kmonad)
    qed (use Cons Close in simp)
  qed
qed simp

end

definition file_refs :: "'a kfile_scheme \<Rightarrow> nat \<Rightarrow> int" where
  "file_refs s f = (if f < length (FileTab s) then ReferenceCount (FileTab s ! f) else 0)"

definition plain_files :: "nat \<Rightarrow> 'a kfile_scheme \<Rightarrow> bool" where
  "plain_files i s \<longleftrightarrow> file_ready i s \<and> (\<forall>x \<in> set (FileTab s). Type x \<noteq> FD_PIPE)"

lemma file_refs_set:
  "f < length (FileTab s) \<Longrightarrow> file_refs (set_files ((FileTab s)[f := x]) t) = (file_refs s)(f := ReferenceCount x)"
  by (auto simp: file_refs_def nth_list_update)

lemma file_refs_resync [simp]: "file_refs (resync i s) = file_refs s"
  by (simp add: file_refs_def fun_eq_iff)

lemma plain_files_upd:
  assumes "plain_files i s" "Type x \<noteq> FD_PIPE"
  shows "plain_files i (set_files ((FileTab s)[f := x]) (resync i s))"
  using assms by (auto simp: plain_files_def file_ready_def dest!: subsetD [OF set_update_subset_insert])

interpretation files: handle_pool "plain_files i" file_refs allocateFileStructure fileDup fileClose for i
proof
  fix s :: "'a kfile_scheme" and f
  assume p: "plain_files i s"
  then have r: "file_ready i s" "length (FileTab s) = NFILE" by (simp_all add: plain_files_def file_ready_def)
  have plain: "f < NFILE \<Longrightarrow> Type (FileTab s ! f) \<noteq> FD_PIPE" for f
    using p r(2) by (auto simp: plain_files_def)
  show "\<exists>r t. allocateFileStructure s = Ret r t \<and> plain_files i t \<and>
      (case r of None \<Rightarrow> file_refs t = file_refs s | Some f \<Rightarrow> file_refs s f = 0 \<and> file_refs t = (file_refs s)(f := 1))"
  proof (cases "findIndex (\<lambda>f. ReferenceCount f = 0) (FileTab s)")
    case None
    then show ?thesis
      using p by (simp add: allocateFileStructure_run [OF r(1)] plain_files_def del: findIndex_None)
  next
    case (Some f)
    then have f: "f < NFILE" "ReferenceCount (FileTab s ! f) = 0"
      using findIndex_bound findIndex_holds r(2) by fastforce+
    then show ?thesis
      using Some p plain [OF f(1)] r(2)
      by (simp add: allocateFileStructure_run [OF r(1)] plain_files_upd file_refs_set) (simp add: file_refs_def)
  qed
  assume "1 \<le> file_refs s f"
  then have f: "f < NFILE" "1 \<le> ReferenceCount (FileTab s ! f)"
    using r(2) by (auto simp: file_refs_def split: if_splits)
  show "\<exists>t. fileDup f s = Ret f t \<and> plain_files i t \<and> file_refs t = (file_refs s)(f := file_refs s f + 1)"
    if "file_refs s f < 2 ^ 31 - 1"
    using f r p that [unfolded file_refs_def] plain [OF f(1)]
    by (simp add: fileDup_run [OF r(1)] plain_files_upd file_refs_set) (simp add: file_refs_def)
  show "\<exists>t. fileClose f s = Ret () t \<and> plain_files i t \<and> file_refs t = (file_refs s)(f := file_refs s f - 1)"
  proof (cases "ReferenceCount (FileTab s ! f) = 1")
    case True
    then show ?thesis
      using f r p plain [OF f(1)]
      by (simp add: fileClose_last [OF r(1)] plain_files_upd file_refs_set) (simp add: file_refs_def)
  next
    case False
    then show ?thesis
      using f r p plain [OF f(1)]
      by (simp add: fileClose_shared [OF r(1)] plain_files_upd file_refs_set) (simp add: file_refs_def)
  qed
qed

section \<open>Allocating a pipe\<close>

definition file_inv :: "'a kfile_scheme \<Rightarrow> bool" where
  "file_inv s \<longleftrightarrow> (\<forall>x \<in> set (FileTab s). 0 \<le> ReferenceCount x \<and> (ReferenceCount x = 0 \<longrightarrow> Type x = FD_NONE))"

lemma set_files_kmem [simp]:
  "kmem_ready i (set_files fs s) = kmem_ready i s" "free_list (set_files fs s) = free_list s"
  "kmem_sync i (set_files fs s) = set_files fs (kmem_sync i s)"
  by (simp_all add: kmem_ready_def free_list_def kmem_sync_def fun_eq_iff)

lemma resync_kmem [simp]: "kmem_ready i s \<Longrightarrow> kmem_ready i (resync i s)" "free_list (resync i s) = free_list s"
  by (auto simp: kmem_ready_def free_list_def fun_eq_iff)

text \<open>Closing a freshly allocated structure puts the unused one back.\<close>

lemma fileClose_fresh:
  assumes "file_ready i s" "f < NFILE" "Type (FileTab s ! f) = FD_NONE" "ReferenceCount (FileTab s ! f) = 1"
  shows "fileClose f s = Ret () (set_files ((FileTab s)[f := (FileTab s ! f)\<lparr>ReferenceCount := 0\<rparr>]) (resync i s))"
proof -
  have "(FileTab s ! f)\<lparr>ReferenceCount := 0, Type := FD_NONE\<rparr> = (FileTab s ! f)\<lparr>ReferenceCount := 0\<rparr>"
    using assms(3) by (intro File.equality) simp_all
  moreover have "fileClose f s =
      Ret () (set_files ((FileTab s)[f := (FileTab s ! f)\<lparr>ReferenceCount := 0, Type := FD_NONE\<rparr>]) (resync i s))"
    using assms(3) fileClose_last [OF assms(1,4,2)] by simp
  ultimately show ?thesis by (simp only:)
qed

lemma allocate_fresh:
  assumes "file_ready i s" "file_inv s" "findIndex (\<lambda>f. ReferenceCount f = 0) (FileTab s) = Some f"
  obtains t where "allocateFileStructure s = Ret (Some f) t" "file_ready i t" "f < NFILE"
    "t = set_files ((FileTab s)[f := (FileTab s ! f)\<lparr>ReferenceCount := 1\<rparr>]) (resync i s)"
    "ReferenceCount (FileTab s ! f) = 0" "Type (FileTab s ! f) = FD_NONE"
proof
  have f: "f < NFILE" "ReferenceCount (FileTab s ! f) = 0"
    using findIndex_bound findIndex_holds assms(1,3) by (fastforce simp: file_ready_def)+
  then show "f < NFILE" "ReferenceCount (FileTab s ! f) = 0" "Type (FileTab s ! f) = FD_NONE"
    using assms(1,2) by (auto simp: file_inv_def file_ready_def)
  show "allocateFileStructure s = Ret (Some f) (set_files ((FileTab s)[f := (FileTab s ! f)\<lparr>ReferenceCount := 1\<rparr>]) (resync i s))"
    using assms(3) by (simp add: allocateFileStructure_run [OF assms(1)])
  show "file_ready i (set_files ((FileTab s)[f := (FileTab s ! f)\<lparr>ReferenceCount := 1\<rparr>]) (resync i s))"
    using assms(1) by (simp add: file_ready_def)
qed simp_all

lemma file_inv_allocated:
  assumes "file_inv s" shows "file_inv (set_files ((FileTab s)[f := (FileTab s ! f)\<lparr>ReferenceCount := 1\<rparr>]) t)"
proof -
  have "x = (FileTab s ! f)\<lparr>ReferenceCount := 1\<rparr> \<or> x \<in> set (FileTab s)"
    if "x \<in> set ((FileTab s)[f := (FileTab s ! f)\<lparr>ReferenceCount := 1\<rparr>])" for x
    using that by (auto dest!: subsetD [OF set_update_subset_insert])
  then show ?thesis using assms by (fastforce simp: file_inv_def)
qed

definition free_slots :: "'a kfile_scheme \<Rightarrow> nat list" where
  "free_slots s = filter (\<lambda>f. ReferenceCount (FileTab s ! f) = 0) [0..<length (FileTab s)]"

lemma findIndex_filter:
  "findIndex P xs = (case filter (\<lambda>f. P (xs ! f)) [0..<length xs] of [] \<Rightarrow> None | f # _ \<Rightarrow> Some f)"
proof (induction xs)
  case (Cons x xs)
  have "[0..<length (x # xs)] = 0 # map Suc [0..<length xs]"
    by (simp add: map_Suc_upt upt_conv_Cons del: upt_Suc)
  then have "filter (\<lambda>f. P ((x # xs) ! f)) [0..<length (x # xs)] =
      (if P x then [0] else []) @ map Suc (filter (\<lambda>f. P (xs ! f)) [0..<length xs])"
    by (simp add: filter_map comp_def)
  then show ?case using Cons by (simp split: list.splits)
qed simp

lemma free_slots_findIndex:
  "findIndex (\<lambda>f. ReferenceCount f = 0) (FileTab s) = (case free_slots s of [] \<Rightarrow> None | f # _ \<Rightarrow> Some f)"
  unfolding free_slots_def by (rule findIndex_filter)

lemma free_slots_allocated:
  assumes "free_slots s = a # fs"
  shows "free_slots (set_files ((FileTab s)[a := (FileTab s ! a)\<lparr>ReferenceCount := 1\<rparr>]) t) = fs"
proof -
  have "distinct (free_slots s)" "set (free_slots s) \<subseteq> {..<length (FileTab s)}"
    by (auto simp: free_slots_def)
  then have a: "a < length (FileTab s)" "a \<notin> set fs" using assms by auto
  let ?P = "\<lambda>f. ReferenceCount (FileTab s ! f) = 0"
  have "free_slots (set_files ((FileTab s)[a := (FileTab s ! a)\<lparr>ReferenceCount := 1\<rparr>]) t) =
      filter (\<lambda>f. f \<noteq> a \<and> ?P f) [0..<length (FileTab s)]"
    unfolding free_slots_def using a(1) by (auto intro!: filter_cong simp: nth_list_update split: if_splits)
  also have "\<dots> = filter (\<lambda>f. f \<noteq> a) (free_slots s)"
    by (simp add: free_slots_def conj_commute)
  also have "\<dots> = fs" using a(2) assms by (auto simp: filter_id_conv)
  finally show ?thesis .
qed

lemma restore_slot:
  "f < length fs \<Longrightarrow> ReferenceCount (fs ! f) = 0 \<Longrightarrow>
   fs[f := ((fs[f := (fs ! f)\<lparr>ReferenceCount := 1\<rparr>]) ! f)\<lparr>ReferenceCount := 0\<rparr>] = fs"
  by (simp add: list_update_same_conv)

lemma pipealloc_none:
  assumes "file_ready i s" "free_slots s = []"
  shows "pipealloc s = Ret (-1, None, None) (resync i s)"
  using assms
  by (simp add: pipealloc_def kmonad allocateFileStructure_run [of i] free_slots_findIndex freepiperesources_def
      closeIfOpen_def del: findIndex_None)

lemma pipealloc_one:
  assumes "file_ready i s" "file_inv s" "free_slots s = [a]"
  shows "\<exists>t. pipealloc s = Ret (-1, Some a, None) t \<and> FileTab t = FileTab s \<and> pipes t = pipes s \<and> mem t = mem s \<and>
    FreeList t = FreeList s \<and> kernelEnd t = kernelEnd s"
proof -
  obtain t where t: "allocateFileStructure s = Ret (Some a) t" "file_ready i t" "a < NFILE"
      "t = set_files ((FileTab s)[a := (FileTab s ! a)\<lparr>ReferenceCount := 1\<rparr>]) (resync i s)"
      "ReferenceCount (FileTab s ! a) = 0" "Type (FileTab s ! a) = FD_NONE"
    using allocate_fresh [OF assms(1,2), of a] assms(3) by (auto simp: free_slots_findIndex)
  have len: "length (FileTab s) = NFILE" using assms(1) by (simp add: file_ready_def)
  have "free_slots (resync i t) = []"
    unfolding t(4) using free_slots_allocated [OF assms(3), of "resync i (resync i s)"] by simp
  then have "allocateFileStructure t = Ret None (resync i t)"
    using allocateFileStructure_run [OF t(2)] free_slots_findIndex [of t] by (simp add: free_slots_def)
  moreover have "fileClose a (resync i t) =
      Ret () (set_files ((FileTab t)[a := (FileTab t ! a)\<lparr>ReferenceCount := 0\<rparr>]) (resync i (resync i t)))"
  proof -
    have "file_ready i (resync i t)" using t(2) by simp
    moreover have "Type (FileTab (resync i t) ! a) = FD_NONE" "ReferenceCount (FileTab (resync i t) ! a) = 1"
      unfolding t(4) using t(3,6) len by simp_all
    ultimately show ?thesis using fileClose_fresh [of i "resync i t" a] t(3) by simp
  qed
  moreover have "(FileTab t)[a := (FileTab t ! a)\<lparr>ReferenceCount := 0\<rparr>] = FileTab s"
    unfolding t(4) using restore_slot [of a "FileTab s"] t(3,5) len by simp
  ultimately show ?thesis
    using t(1,4) by (simp add: pipealloc_def kmonad freepiperesources_def closeIfOpen_def)
qed

definition two_taken :: "nat \<Rightarrow> nat \<Rightarrow> nat \<Rightarrow> 'a kfile_scheme \<Rightarrow> 'a kfile_scheme" where
  "two_taken i a b s = set_files ((FileTab s)[a := (FileTab s ! a)\<lparr>ReferenceCount := 1\<rparr>,
     b := (FileTab s ! b)\<lparr>ReferenceCount := 1\<rparr>]) (resync i s)"

lemma allocate_two:
  assumes "file_ready i s" "file_inv s" "free_slots s = a # b # fs"
  obtains t where "allocateFileStructure s = Ret (Some a) t" "allocateFileStructure t = Ret (Some b) (two_taken i a b s)"
    "a \<noteq> b" "a < NFILE" "b < NFILE" "file_ready i (two_taken i a b s)"
    "ReferenceCount (FileTab s ! a) = 0" "Type (FileTab s ! a) = FD_NONE"
    "ReferenceCount (FileTab s ! b) = 0" "Type (FileTab s ! b) = FD_NONE"
proof -
  have ok: "cpu_ok i s" using assms(1) by (simp add: file_ready_def)
  obtain t where t: "allocateFileStructure s = Ret (Some a) t" "file_ready i t" "a < NFILE"
      "t = set_files ((FileTab s)[a := (FileTab s ! a)\<lparr>ReferenceCount := 1\<rparr>]) (resync i s)"
      "ReferenceCount (FileTab s ! a) = 0" "Type (FileTab s ! a) = FD_NONE"
    using allocate_fresh [OF assms(1,2), of a] assms(3) by (auto simp: free_slots_findIndex)
  have "distinct (free_slots s)" by (simp add: free_slots_def)
  then have ab: "a \<noteq> b" using assms(3) by simp
  have "free_slots t = b # fs"
    unfolding t(4) using free_slots_allocated [OF assms(3), of "resync i s"] by simp
  moreover have "file_inv t" unfolding t(4) using assms(2) by (rule file_inv_allocated)
  ultimately obtain u where u: "allocateFileStructure t = Ret (Some b) u" "file_ready i u" "b < NFILE"
      "u = set_files ((FileTab t)[b := (FileTab t ! b)\<lparr>ReferenceCount := 1\<rparr>]) (resync i t)"
      "ReferenceCount (FileTab t ! b) = 0" "Type (FileTab t ! b) = FD_NONE"
    using allocate_fresh [OF t(2), of b] by (auto simp: free_slots_findIndex)
  have "FileTab t ! b = FileTab s ! b" unfolding t(4) using ab by simp
  moreover from this have "u = two_taken i a b s"
    unfolding u(4) using ok by (simp add: two_taken_def t(4))
  ultimately show thesis using that t u ab by simp
qed

lemma pipealloc_no_page:
  assumes "file_ready i s" "file_inv s" "free_slots s = a # b # fs" "kmem_ready i s" "free_list s []"
  shows "\<exists>t. pipealloc s = Ret (-1, Some a, Some b) t \<and> FileTab t = FileTab s \<and> pipes t = pipes s \<and> free_list t []"
proof -
  let ?u = "kmem_sync i (two_taken i a b s)"
  obtain t where t: "allocateFileStructure s = Ret (Some a) t" "allocateFileStructure t = Ret (Some b) (two_taken i a b s)"
    "a \<noteq> b" "a < NFILE" "b < NFILE" "file_ready i (two_taken i a b s)"
    "ReferenceCount (FileTab s ! a) = 0" "Type (FileTab s ! a) = FD_NONE"
    "ReferenceCount (FileTab s ! b) = 0" "Type (FileTab s ! b) = FD_NONE"
    using allocate_two [OF assms(1-3)] by blast
  have len: "length (FileTab s) = NFILE" using assms(1) by (simp add: file_ready_def)
  have p: "allocatePhysicalMemoryPage (two_taken i a b s) = Ret 0 ?u"
    using assms(4,5) by (intro free_list_alloc_empty) (simp_all add: two_taken_def)
  have u: "file_ready i ?u" "FileTab ?u = (FileTab s)[a := (FileTab s ! a)\<lparr>ReferenceCount := 1\<rparr>,
     b := (FileTab s ! b)\<lparr>ReferenceCount := 1\<rparr>]"
    using t(6) by (simp add: kmem_sync_def) (simp add: two_taken_def)
  let ?fs = "(FileTab ?u)[a := (FileTab ?u ! a)\<lparr>ReferenceCount := 0\<rparr>]"
  let ?v = "set_files ?fs (resync i ?u)"
  have v: "fileClose a ?u = Ret () ?v"
    using fileClose_fresh [OF u(1) t(4)] u(2) t len by simp
  have fr: "file_ready i ?v" using u(1) len by (simp add: file_ready_def)
  have "fileClose b ?v = Ret () (set_files (?fs[b := (?fs ! b)\<lparr>ReferenceCount := 0\<rparr>]) (resync i ?v))"
    using fileClose_fresh [OF fr t(5)] t(3,5,10) len by (simp add: u(2))
  moreover have "?fs[b := (?fs ! b)\<lparr>ReferenceCount := 0\<rparr>] = FileTab s"
    using t(3,4,5,7,9) len by (intro nth_equalityI) (auto simp: u(2) nth_list_update)
  ultimately show ?thesis
    using t(1,2) p v assms(5)
    by (simp add: pipealloc_def kmonad freepiperesources_def closeIfOpen_def two_taken_def kmem_sync_def)
qed

lemma spinlockInitialise_run:
  "spinlockInitialise l nm s = Ret () (s\<lparr>locks := (locks s)(l := \<lparr>Locked = 0, LockName = nm, Holder = None\<rparr>)\<rparr>)"
  by (simp add: spinlockInitialise_def)

lemma pipealloc_success:
  assumes "file_ready i s" "file_inv s" "free_slots s = a # b # fs" "kmem_ready i s" "free_list s (p # xs)"
  shows "\<exists>t P. pipealloc s = Ret (0, Some a, Some b) t \<and> a \<noteq> b \<and> free_list t xs \<and> lock_free (PipeLock p) t \<and>
    pipes t = (pipes s)(p := Some P) \<and> pipe_ok P \<and> pipe_bytes P = [] \<and> ReadOpen P = 1 \<and> WriteOpen P = 1 \<and>
    FileTab t = (FileTab s)[a := (FileTab s ! a)\<lparr>ReferenceCount := 1, Type := FD_PIPE, Readable := 1, Writable := 0, FilePipe := p\<rparr>,
      b := (FileTab s ! b)\<lparr>ReferenceCount := 1, Type := FD_PIPE, Readable := 0, Writable := 1, FilePipe := p\<rparr>]"
proof -
  let ?w = "two_taken i a b s"
  obtain t where t: "allocateFileStructure s = Ret (Some a) t" "allocateFileStructure t = Ret (Some b) ?w"
    "a \<noteq> b" "a < NFILE" "b < NFILE"
    using allocate_two [OF assms(1-3)] by blast
  have len: "length (FileTab s) = NFILE" using assms(1) by (simp add: file_ready_def)
  have p: "p \<noteq> 0" "FreeList s = p" using assms(5) by (auto simp: free_list_def)
  let ?x = "(kmem_sync i ?w)\<lparr>FreeList := load32 (mem s) p\<rparr>"
  have al: "allocatePhysicalMemoryPage ?w = Ret p ?x"
    using assms(4) p allocatePhysicalMemoryPage_run [of i ?w] by (simp add: two_taken_def)
  have xs: "free_list ?x xs"
    using assms(5) p by (simp add: free_list_def two_taken_def)
  let ?P = "newPipe (mem s) p"
  have P: "pipe_ok ?P" "pipe_bytes ?P = []" "ReadOpen ?P = 1" "WriteOpen ?P = 1"
    by (simp_all add: newPipe_def pipe_ok_def pipe_len_def pipe_bytes_def)
  have x: "FileTab ?x = (FileTab s)[a := (FileTab s ! a)\<lparr>ReferenceCount := 1\<rparr>, b := (FileTab s ! b)\<lparr>ReferenceCount := 1\<rparr>]"
      "pipes ?x = pipes s" "mem ?x = mem s"
    by (simp_all add: two_taken_def kmem_sync_def)
  let ?z = "(?x\<lparr>pipes := (pipes s)(p := Some ?P)\<rparr>)\<lparr>locks := (locks ?x)(PipeLock p := \<lparr>Locked = 0, LockName = ''Pipe'', Holder = None\<rparr>)\<rparr>"
  let ?fs = "(FileTab ?x)[a := pipeFile p 1 0 (FileTab ?x ! a)]"
  let ?T = "set_files (?fs[b := pipeFile p 0 1 (?fs ! b)]) ?z"
  have r: "pipealloc s = Ret (0, Some a, Some b) ?T"
    using t(1,2) al p(1) x(2,3) by (simp add: pipealloc_def kmonad spinlockInitialise_run)
  have ft: "FileTab ?T = (FileTab s)[a := (FileTab s ! a)\<lparr>ReferenceCount := 1, Type := FD_PIPE, Readable := 1, Writable := 0, FilePipe := p\<rparr>,
      b := (FileTab s ! b)\<lparr>ReferenceCount := 1, Type := FD_PIPE, Readable := 0, Writable := 1, FilePipe := p\<rparr>]"
    unfolding x(1) set_files_sel
    using t(3-5) len by (intro nth_equalityI) (auto simp: nth_list_update pipeFile_def)
  have "free_list ?T xs" "lock_free (PipeLock p) ?T" "pipes ?T = (pipes s)(p := Some ?P)"
    unfolding set_files_kmem set_files_sel set_files_lock using xs by (simp_all add: free_list_def lock_free_def)
  with r ft P t(3) show ?thesis by blast
qed

section \<open>Properties\<close>

definition blank_entry :: DirectoryEntry where
  "blank_entry = \<lparr>Filename = replicate 8 0, Ext = replicate 3 0, Attrib = 0, Reserved = 0, TimeCreatedMs = 0,
     TimeCreated = 0, DateCreated = 0, DateLastAccessed = 0, FirstClusterHiBytes = 0, LastModTime = 0,
     LastModDate = 0, FirstCluster = 0, FileSize = 0\<rparr>"

definition blank_file :: File where
  "blank_file = \<lparr>Type = FD_NONE, ReferenceCount = 0, Readable = 0, Writable = 0, FilePipe = 0,
     DirEntry = blank_entry, FileName = [], Eof = 0, Position = 0, Size = 0, DeviceID = 0\<rparr>"

definition file_boot :: kfile where
  "file_boot = kpipe.extend pipe_boot \<lparr>FileTab = replicate NFILE blank_file\<rparr>"

lemma file_boot_sel [simp]:
  "FileTab file_boot = replicate NFILE blank_file" "pipes file_boot = pipes pipe_boot"
  "processTable file_boot = processTable pipe_boot" "cpus file_boot = cpus pipe_boot"
  "FreeList file_boot = FreeList pipe_boot" "UseLock file_boot = UseLock pipe_boot" "mem file_boot = mem pipe_boot"
  "kernelEnd file_boot = kernelEnd pipe_boot" "locks file_boot = locks pipe_boot"
  "ncpu file_boot = ncpu pipe_boot" "eflags file_boot = eflags pipe_boot" "localApicId file_boot = localApicId pipe_boot"
  by (simp_all add: file_boot_def kpipe.defs)

lemma file_boot_ready: "file_ready 0 file_boot" "lock_free l file_boot" "cpu_ok 0 file_boot" "depth 0 file_boot = 0"
    "curproc 0 file_boot = Some 0" "proc_ready 0 file_boot"
proof -
  have p: "cpu_ok 0 pipe_boot" "depth 0 pipe_boot = 0" "curproc 0 pipe_boot = Some 0"
      "length (procs pipe_boot) = NPROC"
    using pipe_boot_idle(1) by (simp_all add: pipe_idle_def proc_ready_def)
  then show ok: "cpu_ok 0 file_boot" "depth 0 file_boot = 0" "curproc 0 file_boot = Some 0"
    by (simp_all add: cpu_ok_def cpu_index_def depth_def curproc_def)
  have lf: "lock_free l pipe_boot" for l by (simp add: pipe_boot_def)
  then show l: "lock_free l file_boot" for l by (simp add: lock_free_def)
  show "file_ready 0 file_boot" "proc_ready 0 file_boot"
    using ok l p(4) by (simp_all add: file_ready_def proc_ready_def)
qed

text \<open>
  C16: reference counts of open files.  The table holds no ends of pipes.  For any sequence of allocations, duplications and
  closings by users who close and duplicate only references they own, with fewer than \<open>2 ^ 31\<close> calls and references at the
  start together, no call panics, the 32-bit counts do not overflow, and every structure's \<^verbatim>\<open>ReferenceCount\<close> is the number of references owned, so a
  structure is reused only when nobody has it.
\<close>

theorem file_references_exact:
  assumes "plain_files i s" "\<forall>f. file_refs s f = int (count_list own f)" "length own + length cs < 2 ^ 31"
  shows "\<exists>own' t. files.run_cmds cs own s = Ret own' t \<and> plain_files i t \<and>
    (\<forall>f. file_refs t f = int (count_list own' f))"
  using files.run_cmds_exact [of i own s cs] assms by (simp add: files.exact_def)

theorem file_references_exact_witness:
  "\<exists>own' t. files.run_cmds [Allocate, Duplicate 0, Close 1] [] file_boot = Ret own' t \<and>
    file_refs t 0 = int (count_list own' 0)"
proof -
  have "plain_files 0 file_boot"
    using file_boot_ready(1) by (simp add: plain_files_def blank_file_def)
  moreover have "\<forall>f. file_refs file_boot f = int (count_list [] f)"
    by (simp add: file_refs_def blank_file_def)
  moreover have "length ([] :: nat list) + length [Allocate, Duplicate 0, Close 1] < 2 ^ 31" by simp
  ultimately show ?thesis
    using file_references_exact [of 0 file_boot "[]" "[Allocate, Duplicate 0, Close 1]"] by blast
qed

text \<open>
  C18: \<^verbatim>\<open>pipealloc\<close> succeeds or changes nothing.  With two free file structures and a free page it returns 0
  with two distinct structures, one readable and one writable, that share a new empty pipe in that
  page.  Otherwise it returns -1 and the file table, the pipes and the free pages are as before.
\<close>

theorem pipealloc_all_or_nothing:
  assumes "file_ready i s" "file_inv s" "kmem_ready i s" "free_list s xs"
  shows "(2 \<le> length (free_slots s) \<and> xs \<noteq> [] \<longrightarrow>
      (\<exists>a b t P. pipealloc s = Ret (0, Some a, Some b) t \<and> a \<noteq> b \<and> free_list t (tl xs) \<and>
        pipes t = (pipes s)(hd xs := Some P) \<and> pipe_ok P \<and> pipe_bytes P = [] \<and>
        FileTab t = (FileTab s)[
          a := (FileTab s ! a)\<lparr>ReferenceCount := 1, Type := FD_PIPE, Readable := 1, Writable := 0, FilePipe := hd xs\<rparr>,
          b := (FileTab s ! b)\<lparr>ReferenceCount := 1, Type := FD_PIPE, Readable := 0, Writable := 1, FilePipe := hd xs\<rparr>])) \<and>
    (\<not> (2 \<le> length (free_slots s) \<and> xs \<noteq> []) \<longrightarrow>
      (\<exists>f0 f1 t. pipealloc s = Ret (-1, f0, f1) t \<and> FileTab t = FileTab s \<and> pipes t = pipes s \<and> free_list t xs))"
proof (cases "free_slots s")
  case Nil
  then show ?thesis using pipealloc_none [OF assms(1) Nil] assms(4) by simp
next
  case (Cons a fs)
  show ?thesis
  proof (cases fs)
    case Nil
    with Cons have "free_slots s = [a]" by simp
    from pipealloc_one [OF assms(1,2) this] this show ?thesis
      using assms(4) by (auto simp: free_list_def)
  next
    case (Cons b gs)
    with \<open>free_slots s = a # fs\<close> have two: "free_slots s = a # b # gs" by simp
    show ?thesis
    proof (cases xs)
      case Nil
      then show ?thesis using pipealloc_no_page [OF assms(1,2) two assms(3)] assms(4) two by auto
    next
      case (Cons p ys)
      then show ?thesis
        using pipealloc_success [OF assms(1,2) two assms(3), of p ys] assms(4) two by (simp, blast)
    qed
  qed
qed

theorem pipealloc_all_or_nothing_witness:
  "\<exists>f0 f1 t. pipealloc file_boot = Ret (-1, f0, f1) t \<and> FileTab t = FileTab file_boot"
proof -
  have "free_list file_boot []" "kmem_ready 0 file_boot"
    using file_boot_ready(2,3)
    by (simp_all add: free_list_def kmem_ready_def pipe_boot_def boot_kpipe_def set_current_def kproc.defs boot_kproc_def
        vm.defs console.defs boot_console_def kalloc.defs boot_kalloc_def)
  moreover have "file_inv file_boot" by (simp add: file_inv_def blank_file_def)
  ultimately show ?thesis
    using pipealloc_all_or_nothing [OF file_boot_ready(1), of "[]"] by auto
qed

text \<open>
  References to unused structures are caught.  Duplicating or closing a file structure whose count is not
  positive, such as closing it once more than it was opened, panics.
\<close>

theorem unreferenced_file_panics:
  assumes "file_ready i s" "ReferenceCount (FileTab s ! f) < 1"
  shows "fileDup f s = Panic ''fileDup'' \<and> fileClose f s = Panic ''fileClose''"
  using assms
  by (simp add: fileDup_def fileClose_def kmonad file_ready_def spinlockAcquire_ok [of i])

theorem unreferenced_file_panics_witness: "fileClose 0 file_boot = Panic ''fileClose''"
  using unreferenced_file_panics [OF file_boot_ready(1), of 0] by (simp add: blank_file_def NFILE_def)

end
