(* ===== verification/Disk.thy ===== *)
theory Disk
  imports FileTable Frame
begin

text \<open>
  Sleep locks and the disk driver (\<^verbatim>\<open>sleeplock.c\<close>, \<^verbatim>\<open>ide.c\<close>, \<^verbatim>\<open>buf.h\<close>).
  The buffers and the list head of the cache are entries of one list, the head at index \<open>NBUF\<close>; the
  pointers \<^verbatim>\<open>Previous\<close>, \<^verbatim>\<open>Next\<close> and \<^verbatim>\<open>QueueNext\<close> are indices.  The only sleep locks of the kernel are those of
  the buffers, so a sleep lock is named by its buffer.

  The disk controller is its task-file registers, the status it shows when polled, and the contents of
  two drives.  A poll that would never end is a \<open>Hang\<close>.

  The operations here describe one process on a processor that has nothing else to run.  Waiting for the
  disk is modelled in full: \<^verbatim>\<open>sleep\<close> switches to the scheduler, which finds nothing to run and goes idle,
  the disk raises its interrupt, the handler wakes the process and the scheduler switches back to it.
  Waiting for a buffer that another process holds does not end in such a run: \<open>unblocked\<close> makes it a \<open>Hang\<close>.
\<close>

unbundle bit_operations_syntax

section \<open>Definitions\<close>

definition BSIZE :: nat where [const_defs]: "BSIZE = 512"
definition B_VALID :: u32 where [const_defs]: "B_VALID = 0x2"
definition B_DIRTY :: u32 where [const_defs]: "B_DIRTY = 0x4"
definition IDE_BUSY :: byte where [const_defs]: "IDE_BUSY = 0x80"
definition IDE_READY :: byte where [const_defs]: "IDE_READY = 0x40"
definition IDE_DRIVEFAULT :: byte where [const_defs]: "IDE_DRIVEFAULT = 0x20"
definition IDE_ERROR :: byte where [const_defs]: "IDE_ERROR = 0x01"
definition IDE_CMD_READ :: byte where [const_defs]: "IDE_CMD_READ = 0x20"
definition IDE_CMD_WRITE :: byte where [const_defs]: "IDE_CMD_WRITE = 0x30"

record Sleeplock =
  SLocked :: u32
  SName :: string
  Pid :: int

record DiskBuffer =
  Flags :: u32
  Device :: u32
  SectorNumber :: u32
  BufLock :: Sleeplock
  BufRefs :: u32
  Previous :: nat
  Next :: nat
  QueueNext :: "nat option"
  BufData :: "byte list"

record IdeController =
  taskFile :: "u16 \<Rightarrow> byte"
  ideStatus :: byte
  ideCommand :: byte
  drives :: "bool \<Rightarrow> u32 \<Rightarrow> byte list"

record DiskState =
  Buffers :: "DiskBuffer list"
  idequeue :: "nat option"
  havedisk1 :: int
  controller :: IdeController

record kdisk = kfile +
  disk :: DiskState

interpretation disk_field: hw_field disk disk_update by unfold_locales simp_all

definition getBuf :: "nat \<Rightarrow> ('a kdisk_scheme, DiskBuffer) op" where
  "getBuf b = getK (\<lambda>s. Buffers (disk s) ! b)"

definition updBuf :: "nat \<Rightarrow> (DiskBuffer \<Rightarrow> DiskBuffer) \<Rightarrow> ('a kdisk_scheme, unit) op" where
  "updBuf b f = modifyK (\<lambda>s. s\<lparr>disk := (disk s)\<lparr>Buffers := (Buffers (disk s))[b := f (Buffers (disk s) ! b)]\<rparr>\<rparr>)"

definition updIde :: "(IdeController \<Rightarrow> IdeController) \<Rightarrow> ('a kdisk_scheme, unit) op" where
  "updIde f = modifyK (\<lambda>s. s\<lparr>disk := (disk s)\<lparr>controller := f (controller (disk s))\<rparr>\<rparr>)"

definition setQueue :: "nat option \<Rightarrow> ('a kdisk_scheme, unit) op" where
  "setQueue q = modifyK (\<lambda>s. s\<lparr>disk := (disk s)\<lparr>idequeue := q\<rparr>\<rparr>)"

subsection \<open>Sleep locks\<close>

definition sleeplockInitialise :: "nat \<Rightarrow> string \<Rightarrow> ('a kdisk_scheme, unit) op" where
  "sleeplockInitialise b name =
     bindK (spinlockInitialise (SleeplockSpinlock b) ''sleep lock'') (\<lambda>_.
     updBuf b (\<lambda>x. x\<lparr>BufLock := \<lparr>SLocked = 0, SName = name, Pid = 0\<rparr>\<rparr>))"

text \<open>The loop of \<^verbatim>\<open>sleeplockAcquire\<close>, entered with the spin lock held; after a sleep it starts again.\<close>

definition sleeplockAcquire_loop :: "nat \<Rightarrow> ('a kdisk_scheme, unit progress) op" where
  "sleeplockAcquire_loop b =
     bindK (getBuf b) (\<lambda>x.
     if SLocked (BufLock x) \<noteq> 0
     then bindK (sleep_enter (SleeplockChan b) (Some (SleeplockSpinlock b))) (\<lambda>local. returnK (Asleep local 0))
     else bindK (updBuf b (\<lambda>x. x\<lparr>BufLock := (BufLock x)\<lparr>SLocked := 1\<rparr>\<rparr>)) (\<lambda>_.
       bindK currentProcess (\<lambda>k.
       bindK (getProc k) (\<lambda>p.
       bindK (updBuf b (\<lambda>x. x\<lparr>BufLock := (BufLock x)\<lparr>Pid := ProcessId p\<rparr>\<rparr>)) (\<lambda>_.
       bindK (spinlockRelease (SleeplockSpinlock b)) (\<lambda>_.
       returnK (Returned ())))))))"

definition sleeplockAcquire :: "nat \<Rightarrow> ('a kdisk_scheme, unit progress) op" where
  "sleeplockAcquire b =
     bindK (spinlockAcquire (SleeplockSpinlock b)) (\<lambda>_. sleeplockAcquire_loop b)"

definition sleeplockAcquire_resume :: "nat \<Rightarrow> nat \<times> u32 \<Rightarrow> ('a kdisk_scheme, unit progress) op" where
  "sleeplockAcquire_resume b local =
     bindK (sleep_exit (SleeplockSpinlock b) local) (\<lambda>_. sleeplockAcquire_loop b)"

text \<open>An operation whose process is not woken again in the run.\<close>

definition unblocked :: "('s, 'r progress) op \<Rightarrow> ('s, 'r) op" where
  "unblocked m = bindK m (\<lambda>r. case r of Returned a \<Rightarrow> returnK a | Asleep _ _ \<Rightarrow> hangK)"

definition sleeplockRelease :: "nat \<Rightarrow> ('a kdisk_scheme, unit) op" where
  "sleeplockRelease b =
     bindK (spinlockAcquire (SleeplockSpinlock b)) (\<lambda>_.
     bindK (updBuf b (\<lambda>x. x\<lparr>BufLock := (BufLock x)\<lparr>SLocked := 0, Pid := 0\<rparr>\<rparr>)) (\<lambda>_.
     bindK (wakeup (SleeplockChan b)) (\<lambda>_.
     spinlockRelease (SleeplockSpinlock b))))"

definition isHoldingSleeplock :: "nat \<Rightarrow> ('a kdisk_scheme, bool) op" where
  "isHoldingSleeplock b =
     bindK (spinlockAcquire (SleeplockSpinlock b)) (\<lambda>_.
     bindK (getBuf b) (\<lambda>x.
     bindK (spinlockRelease (SleeplockSpinlock b)) (\<lambda>_.
     returnK (SLocked (BufLock x) \<noteq> 0))))"

subsection \<open>The disk controller\<close>

definition lba :: "IdeController \<Rightarrow> u32" where
  "lba d = ucast (taskFile d 0x1f3) OR push_bit 8 (ucast (taskFile d 0x1f4)) OR
     push_bit 16 (ucast (taskFile d 0x1f5)) OR push_bit 24 (ucast (taskFile d 0x1f6 AND 0x0f))"

definition selected :: "IdeController \<Rightarrow> bool" where
  "selected d = bit (taskFile d 0x1f6) 4"

definition outputByteToIde :: "u16 \<Rightarrow> byte \<Rightarrow> ('a kdisk_scheme, unit) op" where
  "outputByteToIde port v =
     updIde (\<lambda>d. if port = 0x1f7 then d\<lparr>ideCommand := v\<rparr> else d\<lparr>taskFile := (taskFile d)(port := v)\<rparr>)"

definition outputSequenceToIde :: "byte list \<Rightarrow> ('a kdisk_scheme, unit) op" where
  "outputSequenceToIde bs =
     updIde (\<lambda>d. if ideCommand d = IDE_CMD_WRITE
       then d\<lparr>drives := (drives d)(selected d := (drives d (selected d))(lba d := bs))\<rparr> else d)"

definition inputSequenceFromIde :: "('a kdisk_scheme, byte list) op" where
  "inputSequenceFromIde = getK (\<lambda>s. let d = controller (disk s) in drives d (selected d) (lba d))"

definition ideWait :: "bool \<Rightarrow> ('a kdisk_scheme, int) op" where
  "ideWait checkForError =
     bindK (getK (\<lambda>s. ideStatus (controller (disk s)))) (\<lambda>status.
     if status AND (IDE_BUSY OR IDE_READY) \<noteq> IDE_READY then hangK
     else if checkForError \<and> status AND (IDE_DRIVEFAULT OR IDE_ERROR) \<noteq> 0 then returnK (-1)
     else returnK 0)"

definition ideStartRequest :: "nat option \<Rightarrow> ('a kdisk_scheme, unit) op" where
  "ideStartRequest r =
     (case r of None \<Rightarrow> panicK ''ideStartRequest''
      | Some b \<Rightarrow>
          bindK (getBuf b) (\<lambda>x. let sector = SectorNumber x in
          bindK (ideWait False) (\<lambda>_.
          bindK (outputByteToIde 0x3f6 0) (\<lambda>_.
          bindK (outputByteToIde 0x1f2 1) (\<lambda>_.
          bindK (outputByteToIde 0x1f3 (ucast (sector AND 0xff))) (\<lambda>_.
          bindK (outputByteToIde 0x1f4 (ucast (drop_bit 8 sector AND 0xff))) (\<lambda>_.
          bindK (outputByteToIde 0x1f5 (ucast (drop_bit 16 sector AND 0xff))) (\<lambda>_.
          bindK (outputByteToIde 0x1f6
            (0xe0 OR ucast (push_bit 4 (Device x AND 1)) OR ucast (drop_bit 24 sector AND 0x0f))) (\<lambda>_.
          if Flags x AND B_DIRTY \<noteq> 0
          then bindK (outputByteToIde 0x1f7 IDE_CMD_WRITE) (\<lambda>_. outputSequenceToIde (BufData x))
          else outputByteToIde 0x1f7 IDE_CMD_READ)))))))))"

definition ideInterruptHandler :: "('a kdisk_scheme, unit) op" where
  "ideInterruptHandler =
     bindK (spinlockAcquire IdeLock) (\<lambda>_.
     bindK (getK (\<lambda>s. idequeue (disk s))) (\<lambda>q.
     case q of None \<Rightarrow> spinlockRelease IdeLock
     | Some b \<Rightarrow>
         bindK (getBuf b) (\<lambda>x.
         bindK (setQueue (QueueNext x)) (\<lambda>_.
         bindK (if Flags x AND B_DIRTY = 0
                then bindK (ideWait True) (\<lambda>r.
                  whenK (r \<ge> 0) (bindK inputSequenceFromIde (\<lambda>bs. updBuf b (\<lambda>x. x\<lparr>BufData := bs\<rparr>))))
                else returnK ()) (\<lambda>_.
         bindK (updBuf b (\<lambda>x. x\<lparr>Flags := Flags x OR B_VALID\<rparr>)) (\<lambda>_.
         bindK (updBuf b (\<lambda>x. x\<lparr>Flags := Flags x AND NOT B_DIRTY\<rparr>)) (\<lambda>_.
         bindK (wakeup (BufChan b)) (\<lambda>_.
         bindK (getK (\<lambda>s. idequeue (disk s))) (\<lambda>q.
         bindK (whenK (q \<noteq> None) (ideStartRequest q)) (\<lambda>_.
         spinlockRelease IdeLock))))))))))"

text \<open>The walk along \<^verbatim>\<open>QueueNext\<close> to the last element; the queue has at most \<open>NBUF\<close> buffers.\<close>

fun queue_last :: "nat \<Rightarrow> DiskBuffer list \<Rightarrow> nat \<Rightarrow> nat option" where
  "queue_last 0 bs q = None"
| "queue_last (Suc n) bs q = (case QueueNext (bs ! q) of None \<Rightarrow> Some q | Some q' \<Rightarrow> queue_last n bs q')"

definition enqueue :: "nat \<Rightarrow> ('a kdisk_scheme, unit) op" where
  "enqueue b =
     bindK (updBuf b (\<lambda>x. x\<lparr>QueueNext := None\<rparr>)) (\<lambda>_.
     bindK (getK disk) (\<lambda>d.
     case idequeue d of None \<Rightarrow> setQueue (Some b)
     | Some q \<Rightarrow> (case queue_last NBUF (Buffers d) q of None \<Rightarrow> hangK
        | Some e \<Rightarrow> updBuf e (\<lambda>x. x\<lparr>QueueNext := Some b\<rparr>))))"

text \<open>What the processor does between the two halves of \<^verbatim>\<open>sleep\<close> when there is nothing else to run.\<close>

definition idle_until_disk :: "nat \<Rightarrow> ('a kdisk_scheme, unit) op" where
  "idle_until_disk k =
     bindK myCpu (\<lambda>c.
     bindK (scheduler_resume c k) (\<lambda>r.
     if r \<noteq> None then hangK
     else bindK ideInterruptHandler (\<lambda>_.
     bindK (scheduler_round c) (\<lambda>r.
     if r = Some k then returnK () else hangK))))"

fun ideReadWrite_wait :: "nat \<Rightarrow> nat \<Rightarrow> ('a kdisk_scheme, unit) op" where
  "ideReadWrite_wait 0 b = hangK"
| "ideReadWrite_wait (Suc n) b =
     bindK (getBuf b) (\<lambda>x.
     if Flags x AND (B_VALID OR B_DIRTY) \<noteq> B_VALID
     then bindK (sleep_enter (BufChan b) (Some IdeLock)) (\<lambda>local.
          bindK (idle_until_disk (fst local)) (\<lambda>_.
          bindK (sleep_exit IdeLock local) (\<lambda>_.
          ideReadWrite_wait n b)))
     else spinlockRelease IdeLock)"

definition ideReadWrite :: "nat \<Rightarrow> ('a kdisk_scheme, unit) op" where
  "ideReadWrite b =
     bindK (isHoldingSleeplock b) (\<lambda>holding.
     if \<not> holding then panicK ''ideReadWrite: DiskBuffer not locked''
     else bindK (getBuf b) (\<lambda>x.
     if Flags x AND (B_VALID OR B_DIRTY) = B_VALID then panicK ''ideReadWrite: nothing to do''
     else bindK (getK (\<lambda>s. havedisk1 (disk s))) (\<lambda>h.
     if Device x \<noteq> 0 \<and> h = 0 then panicK ''ideReadWrite: ide disk 1 not present''
     else bindK (spinlockAcquire IdeLock) (\<lambda>_.
       bindK (enqueue b) (\<lambda>_.
       bindK (getK (\<lambda>s. idequeue (disk s))) (\<lambda>q.
       bindK (whenK (q = Some b) (ideStartRequest (Some b))) (\<lambda>_.
       ideReadWrite_wait (Suc NBUF) b)))))))"

section \<open>Addresses on the disk\<close>

definition ideRegisters :: "u32 \<Rightarrow> u32 \<Rightarrow> (u16 \<Rightarrow> byte) \<Rightarrow> u16 \<Rightarrow> byte" where
  "ideRegisters dev sector r =
     r(0x3f6 := 0, 0x1f2 := 1, 0x1f3 := ucast (sector AND 0xff), 0x1f4 := ucast (drop_bit 8 sector AND 0xff),
       0x1f5 := ucast (drop_bit 16 sector AND 0xff),
       0x1f6 := 0xe0 OR ucast (push_bit 4 (dev AND 1)) OR ucast (drop_bit 24 sector AND 0x0f))"

lemma lba_registers:
  assumes "sector < 2 ^ 28"
  shows "lba (d\<lparr>taskFile := ideRegisters dev sector r\<rparr>) = sector"
proof -
  have hi: "\<not> bit sector n" if "28 \<le> n" for n
  proof -
    have "unat sector < 2 ^ 28" using assms by (simp add: word_less_nat_alt)
    then have "take_bit 28 (unat sector) = unat sector" by (simp add: take_bit_nat_eq_self_iff)
    then have "\<not> bit (unat sector) n" using that by (metis bit_take_bit_iff linorder_not_less)
    then show ?thesis by (simp add: bit_unsigned_iff)
  qed
  have m: "(0xff :: u32) = mask 8" "(0x0f :: u32) = mask 4" "(0x0f :: byte) = mask 4" "(0xe0 :: byte) = push_bit 5 (mask 3)"
    "(1 :: u32) = mask 1"
    by (simp_all add: mask_eq_exp_minus_1 push_bit_eq_mult)
  show ?thesis
    unfolding lba_def ideRegisters_def m
  proof (rule bit_word_eqI, goal_cases)
    case (1 n)
    consider "n < 8" | "8 \<le> n" "n < 16" | "16 \<le> n" "n < 24" | "24 \<le> n" "n < 28" | "28 \<le> n" "n < 32"
      using 1 by fastforce
    then show ?case by cases (auto simp: bit_simps hi less_diff_conv2)
  qed
qed

lemma selected_registers: "selected (d\<lparr>taskFile := ideRegisters dev sector r\<rparr>) = bit dev 0"
proof -
  have m: "(0x0f :: u32) = mask 4" "(0xe0 :: byte) = push_bit 5 (mask 3)" "(1 :: u32) = mask 1"
    by (simp_all add: mask_eq_exp_minus_1 push_bit_eq_mult)
  show ?thesis unfolding selected_def ideRegisters_def m by (simp add: bit_simps)
qed

section \<open>Running the operations\<close>

definition set_disk :: "DiskState \<Rightarrow> 'a kdisk_scheme \<Rightarrow> 'a kdisk_scheme" where
  "set_disk d s = s\<lparr>disk := d\<rparr>"

abbreviation bufs :: "'a kdisk_scheme \<Rightarrow> DiskBuffer list" where
  "bufs s \<equiv> Buffers (disk s)"

lemma set_disk_alt: "set_disk d s = disk_update (\<lambda>_. d) s"
  by (simp add: set_disk_def)

lemma set_disk_lock [simp]:
  "acquired i l (set_disk d s) = set_disk d (acquired i l s)"
  "released i l (set_disk d s) = set_disk d (released i l s)"
  "resync i (set_disk d s) = set_disk d (resync i s)"
  "cpu_ok i (set_disk d s) = cpu_ok i s" "in_section i (set_disk d s) = in_section i s"
  "lock_free l (set_disk d s) = lock_free l s" "holds i l (set_disk d s) = holds i l s"
  "curproc i (set_disk d s) = curproc i s"
  by (simp_all add: set_disk_alt)

lemma set_disk_sel [simp]:
  "disk (set_disk d s) = d" "set_disk e (set_disk d s) = set_disk e s" "set_disk (disk s) s = s"
  "processTable (set_disk d s) = processTable s" "FileTab (set_disk d s) = FileTab s" "cpus (set_disk d s) = cpus s"
  "depth i (set_disk d s) = depth i s" "eflags (set_disk d s) = eflags s"
  "set_procs ps (set_disk d s) = set_disk d (set_procs ps s)" "disk (set_procs ps s) = disk s"
  by (simp_all add: set_disk_def depth_def set_procs_def)

lemma disk_ops_run [simp]:
  "getBuf b s = Ret (bufs s ! b) s"
  "updBuf b f s = Ret () (set_disk ((disk s)\<lparr>Buffers := (bufs s)[b := f (bufs s ! b)]\<rparr>) s)"
  "updIde g s = Ret () (set_disk ((disk s)\<lparr>controller := g (controller (disk s))\<rparr>) s)"
  "setQueue q s = Ret () (set_disk ((disk s)\<lparr>idequeue := q\<rparr>) s)"
  by (simp_all add: getBuf_def updBuf_def updIde_def setQueue_def set_disk_def kmonad)

text \<open>
  \<open>quiet i k s\<close>: processor \<open>i\<close> runs process \<open>k\<close> outside every lock section, nothing else is runnable and
  nobody else waits for a buffer.
\<close>

definition alone :: "nat \<Rightarrow> Process list \<Rightarrow> bool" where
  "alone k ps \<longleftrightarrow> k < NPROC \<and> length ps = NPROC \<and> State (ps ! k) = RUNNING \<and> Chan (ps ! k) = NullChan \<and>
     KernelStack (ps ! k) \<noteq> 0 \<and> PageTable (ps ! k) \<noteq> 0 \<and>
     (\<forall>m < NPROC. m \<noteq> k \<longrightarrow> State (ps ! m) \<noteq> RUNNABLE \<and>
        (State (ps ! m) = SLEEPING \<longrightarrow> (\<forall>b. Chan (ps ! m) \<noteq> BufChan b \<and> Chan (ps ! m) \<noteq> SleeplockChan b)))"

definition quiet :: "nat \<Rightarrow> nat \<Rightarrow> 'a kdisk_scheme \<Rightarrow> bool" where
  "quiet i k s \<longleftrightarrow> cpu_ok i s \<and> depth i s = 0 \<and> (\<forall>l. lock_free l s) \<and> curproc i s = Some k \<and> alone k (procs s)"

lemma quietD:
  assumes "quiet i k s"
  shows "cpu_ok i s" "depth i s = 0" "lock_free l s" "curproc i s = Some k" "alone k (procs s)"
    "length (procs s) = NPROC" "k < NPROC" "proc_ready i s"
  using assms by (simp_all add: quiet_def alone_def proc_ready_def)

lemma quiet_upd [simp]: "quiet i k s \<Longrightarrow> quiet i k (resync i s)" "quiet i k (set_disk d s) = quiet i k s"
  by (simp_all add: quiet_def)

lemma woken_none:
  assumes "\<forall>m < length ps. State (ps ! m) = SLEEPING \<longrightarrow> Chan (ps ! m) \<noteq> c"
  shows "map (woken c) ps = ps"
  using assms by (intro nth_equalityI) (auto simp: woken_def)

lemma wakeup_quiet:
  assumes "proc_ready i s" "alone k (procs s)" "c = SleeplockChan b \<or> c = BufChan b"
  shows "wakeup c s = Ret () (resync i s)"
proof -
  have "\<forall>m < length (procs s). State (procs s ! m) = SLEEPING \<longrightarrow> Chan (procs s ! m) \<noteq> c"
  proof (intro allI impI)
    fix m assume "m < length (procs s)" "State (procs s ! m) = SLEEPING"
    then show "Chan (procs s ! m) \<noteq> c"
      using assms(2,3) by (cases "m = k") (auto simp: alone_def)
  qed
  then have "map (woken c) (procs s) = procs (resync i s)" by (simp add: woken_none)
  then show ?thesis by (simp only: wakeup_run [OF assms(1)] set_procs_same)
qed

lemma sleeplockAcquire_run:
  assumes "quiet i k s" "SLocked (BufLock (bufs s ! b)) = 0"
  shows "sleeplockAcquire b s = Ret (Returned ()) (set_disk ((disk s)\<lparr>Buffers := (bufs s)[b := (bufs s ! b)\<lparr>BufLock :=
    (BufLock (bufs s ! b))\<lparr>SLocked := 1, Pid := ProcessId (procs s ! k)\<rparr>\<rparr>]\<rparr>) (resync i s))"
proof -
  note q = quietD [OF assms(1)]
  show ?thesis
    using q(1,4) q(3) [of "SleeplockSpinlock b"] assms(2)
    by (cases "b < length (bufs s)")
      (simp_all add: sleeplockAcquire_def sleeplockAcquire_loop_def kmonad spinlockAcquire_ok [of i] spinlockRelease_ok [of i]
      currentProcess_def myProcess_ok [of i] list_update_beyond)
qed

lemma sleeplockRelease_run:
  assumes "quiet i k s"
  shows "sleeplockRelease b s = Ret () (set_disk ((disk s)\<lparr>Buffers := (bufs s)[b := (bufs s ! b)\<lparr>BufLock :=
    (BufLock (bufs s ! b))\<lparr>SLocked := 0, Pid := 0\<rparr>\<rparr>]\<rparr>) (resync i s))"
proof -
  note q = quietD [OF assms(1)]
  let ?a = "set_disk ((disk s)\<lparr>Buffers := (bufs s)[b := (bufs s ! b)\<lparr>BufLock :=
    (BufLock (bufs s ! b))\<lparr>SLocked := 0, Pid := 0\<rparr>\<rparr>]\<rparr>) (acquired i (SleeplockSpinlock b) s)"
  have "wakeup (SleeplockChan b) ?a = Ret () (resync i ?a)"
    using q(1,5,6) q(3) [of ProcessTableLock] by (intro wakeup_quiet [of i _ k _ b]) (simp_all add: proc_ready_def)
  then show ?thesis
    using q(1) q(3) [of "SleeplockSpinlock b"]
    by (simp add: sleeplockRelease_def kmonad spinlockAcquire_ok [of i] spinlockRelease_ok [of i])
qed

lemma isHoldingSleeplock_run:
  assumes "quiet i k s"
  shows "isHoldingSleeplock b s = Ret (SLocked (BufLock (bufs s ! b)) \<noteq> 0) (resync i s)"
  using quietD(1) [OF assms] quietD(3) [OF assms, of "SleeplockSpinlock b"]
  by (simp add: isHoldingSleeplock_def kmonad spinlockAcquire_ok [of i] spinlockRelease_ok [of i])

subsection \<open>A transfer\<close>

definition ide_good :: "DiskState \<Rightarrow> bool" where
  "ide_good d \<longleftrightarrow> idequeue d = None \<and> ideStatus (controller d) AND (IDE_BUSY OR IDE_READY) = IDE_READY \<and>
     ideStatus (controller d) AND (IDE_DRIVEFAULT OR IDE_ERROR) = 0"

definition onDisk :: "IdeController \<Rightarrow> u32 \<Rightarrow> u32 \<Rightarrow> byte list" where
  "onDisk c dev sector = drives c (bit dev 0) sector"

definition ide_started :: "DiskBuffer \<Rightarrow> IdeController \<Rightarrow> IdeController" where
  "ide_started x c =
     (let c' = c\<lparr>taskFile := ideRegisters (Device x) (SectorNumber x) (taskFile c)\<rparr> in
      if Flags x AND B_DIRTY \<noteq> 0
      then c'\<lparr>ideCommand := IDE_CMD_WRITE,
        drives := (drives c)(bit (Device x) 0 := (drives c (bit (Device x) 0))(SectorNumber x := BufData x))\<rparr>
      else c'\<lparr>ideCommand := IDE_CMD_READ\<rparr>)"

lemma ide_started_sel [simp]:
  "ideStatus (ide_started x c) = ideStatus c"
  "SectorNumber x < 2 ^ 28 \<Longrightarrow> lba (ide_started x c) = SectorNumber x"
  "selected (ide_started x c) = bit (Device x) 0"
  using lba_registers [of "SectorNumber x" "Device x" "taskFile c" c]
    selected_registers [of "Device x" "SectorNumber x" "taskFile c" c]
  by (simp_all add: ide_started_def Let_def lba_def selected_def)

lemma drives_ide_started:
  "drives (ide_started x c) = (if Flags x AND B_DIRTY \<noteq> 0
     then (drives c)(bit (Device x) 0 := (drives c (bit (Device x) 0))(SectorNumber x := BufData x)) else drives c)"
  by (simp add: ide_started_def Let_def)

lemma ideStartRequest_run:
  assumes "ideStatus (controller (disk s)) AND (IDE_BUSY OR IDE_READY) = IDE_READY" "SectorNumber (bufs s ! b) < 2 ^ 28"
  shows "ideStartRequest (Some b) s = Ret () (set_disk ((disk s)\<lparr>controller := ide_started (bufs s ! b) (controller (disk s))\<rparr>) s)"
proof -
  let ?x = "bufs s ! b" and ?c = "controller (disk s)"
  let ?R = "ideRegisters (Device ?x) (SectorNumber ?x) (taskFile ?c)"
  have at: "lba (?c\<lparr>taskFile := ?R, ideCommand := w\<rparr>) = SectorNumber ?x"
    "selected (?c\<lparr>taskFile := ?R, ideCommand := w\<rparr>) = bit (Device ?x) 0" for w
    using lba_registers [OF assms(2), of "Device ?x" "taskFile ?c" ?c]
      selected_registers [of "Device ?x" "SectorNumber ?x" "taskFile ?c" ?c]
    by (simp_all add: lba_def selected_def)
  show ?thesis
    using assms(1)
    by (simp add: ideStartRequest_def kmonad ideWait_def outputByteToIde_def outputSequenceToIde_def ide_started_def
        Let_def at [unfolded ideRegisters_def] ideRegisters_def del: push_bit_and)
qed

text \<open>The state of the disk after a transfer of buffer \<open>b\<close>, the only one in the queue.\<close>

definition ide_done :: "nat \<Rightarrow> DiskState \<Rightarrow> DiskState" where
  "ide_done b d = (let x = Buffers d ! b; c = ide_started x (controller d) in
     d\<lparr>Buffers := (Buffers d)[b := x\<lparr>QueueNext := None,
         BufData := (if Flags x AND B_DIRTY = 0 then onDisk (controller d) (Device x) (SectorNumber x) else BufData x),
         Flags := (Flags x OR B_VALID) AND NOT B_DIRTY\<rparr>],
       idequeue := None, controller := c\<rparr>)"

lemma ideInterruptHandler_run:
  assumes "cpu_ok i s" "lock_free IdeLock s" "lock_free ProcessTableLock s" "length (procs s) = NPROC"
    and "idequeue (disk s) = Some b" "QueueNext (bufs s ! b) = None" "b < length (bufs s)"
    and "ideStatus (controller (disk s)) AND (IDE_BUSY OR IDE_READY) = IDE_READY"
    and "ideStatus (controller (disk s)) AND (IDE_DRIVEFAULT OR IDE_ERROR) = 0"
  shows "ideInterruptHandler s = Ret () (set_disk ((disk s)\<lparr>idequeue := None, Buffers := (bufs s)[b := (bufs s ! b)\<lparr>
      BufData := (if Flags (bufs s ! b) AND B_DIRTY = 0
         then drives (controller (disk s)) (selected (controller (disk s))) (lba (controller (disk s)))
         else BufData (bufs s ! b)),
      Flags := (Flags (bufs s ! b) OR B_VALID) AND NOT B_DIRTY\<rparr>]\<rparr>)
    (set_procs (map (woken (BufChan b)) (procs s)) (resync i s)))"
proof -
  have w: "wakeup (BufChan b) (set_disk d (acquired i IdeLock s)) =
      Ret () (set_disk d (set_procs (map (woken (BufChan b)) (procs s)) (acquired i IdeLock s)))" for d
  proof -
    have "proc_ready i (set_disk d (acquired i IdeLock s))" using assms(1,3,4) by (simp add: proc_ready_def)
    then show ?thesis using assms(1) by (simp add: wakeup_run [of i])
  qed
  show ?thesis
    using assms
    by (simp add: ideInterruptHandler_def kmonad spinlockAcquire_ok [of i] spinlockRelease_ok [of i] ideWait_def
        inputSequenceFromIde_def Let_def w)
qed

interpretation disk_keeps: proc_field disk by unfold_locales simp_all

lemma and_FL_IF_cases: "e AND FL_IF \<in> {0, FL_IF}"
proof (cases "bit e 9")
  case True
  then have "e AND FL_IF = FL_IF" by (intro bit_word_eqI) (auto simp: bit_simps)
  then show ?thesis by simp
qed (simp add: and_FL_IF_zero)

lemma ide_started_queue [simp]: "ide_started (x\<lparr>QueueNext := q\<rparr>) c = ide_started x c"
  by (simp add: ide_started_def Let_def)

lemma bit_buffer_flags: "bit B_VALID n \<longleftrightarrow> n = 1" "bit B_DIRTY n \<longleftrightarrow> n = 2"
proof -
  have e: "B_VALID = 2 ^ 1" "B_DIRTY = 2 ^ 2" by (simp_all add: B_VALID_def B_DIRTY_def)
  show "bit B_VALID n \<longleftrightarrow> n = 1" "bit B_DIRTY n \<longleftrightarrow> n = 2"
    unfolding e by (auto simp only: bit_exp_iff possible_bit_word) simp_all
qed

lemma valid_flags [simp]: "((f OR B_VALID) AND NOT B_DIRTY) AND (B_VALID OR B_DIRTY) = B_VALID"
  "((f OR B_VALID) AND NOT B_DIRTY) AND B_VALID = B_VALID" "((f OR B_VALID) AND NOT B_DIRTY) AND B_DIRTY = 0"
  by (rule bit_word_eqI; auto simp: bit_simps bit_buffer_flags)+

text \<open>A sleep of the process that waits for the interrupt of its own transfer.\<close>

lemma sleep_until_disk:
  assumes "in_section i s" "depth i s = 1" "holds i IdeLock s" "\<forall>l. l \<noteq> IdeLock \<longrightarrow> lock_free l s"
    and "curproc i s = Some k" "alone k (procs s)" "InterruptsEnabled (cpus s ! i) \<in> {0, FL_IF}"
    and "idequeue (disk s) = Some b" "QueueNext (bufs s ! b) = None" "b < length (bufs s)"
    and "ideStatus (controller (disk s)) AND (IDE_BUSY OR IDE_READY) = IDE_READY"
    and "ideStatus (controller (disk s)) AND (IDE_DRIVEFAULT OR IDE_ERROR) = 0"
  obtains local t v z where "sleep_enter (BufChan b) (Some IdeLock) s = Ret local t"
    "idle_until_disk (fst local) t = Ret () v" "sleep_exit IdeLock local v = Ret () z"
    "in_section i z" "depth i z = 1" "holds i IdeLock z" "\<forall>l. l \<noteq> IdeLock \<longrightarrow> lock_free l z"
    "curproc i z = Some k" "procs z = procs s"
    "disk z = (disk s)\<lparr>idequeue := None, Buffers := (bufs s)[b := (bufs s ! b)\<lparr>
      BufData := (if Flags (bufs s ! b) AND B_DIRTY = 0
         then drives (controller (disk s)) (selected (controller (disk s))) (lba (controller (disk s)))
         else BufData (bufs s ! b)),
      Flags := (Flags (bufs s ! b) OR B_VALID) AND NOT B_DIRTY\<rparr>]\<rparr>"
proof -
  let ?ps = "procs s" and ?ie = "InterruptsEnabled (cpus s ! i)"
  have al: "k < NPROC" "length ?ps = NPROC" "State (?ps ! k) = RUNNING" "KernelStack (?ps ! k) \<noteq> 0"
      "PageTable (?ps ! k) \<noteq> 0" "Chan (?ps ! k) = NullChan"
      "\<forall>m < NPROC. m \<noteq> k \<longrightarrow> State (?ps ! m) \<noteq> RUNNABLE"
    using assms(6) by (simp_all add: alone_def)
  have free: "lock_free ProcessTableLock s" using assms(4) by simp
  obtain t u where t: "sleep_enter (BufChan b) (Some IdeLock) s = Ret (k, ?ie) t"
      "in_section i t" "scheduler_resume i k t = Ret None u" "cpu_ok i u" "depth i u = 0" "lock_free IdeLock u"
      "lock_free ProcessTableLock u"
      "\<And>l'. l' \<noteq> IdeLock \<Longrightarrow> l' \<noteq> ProcessTableLock \<Longrightarrow> lock_free l' u = lock_free l' s"
      "procs u = ?ps[k := (?ps ! k)\<lparr>Chan := BufChan b, State := SLEEPING\<rparr>]"
    using sleep_to_idle [OF assms(1-3) free assms(5) al(1,2,7), of "BufChan b"] by blast
  have du: "disk u = disk s"
    using keepsD [OF disk_keeps.keeps_sleep(3) t(1)] keepsD [OF disk_keeps.keeps_scheduler(2) t(3)] by simp
  let ?d = "(disk s)\<lparr>idequeue := None, Buffers := (bufs s)[b := (bufs s ! b)\<lparr>
      BufData := (if Flags (bufs s ! b) AND B_DIRTY = 0
         then drives (controller (disk s)) (selected (controller (disk s))) (lba (controller (disk s)))
         else BufData (bufs s ! b)),
      Flags := (Flags (bufs s ! b) OR B_VALID) AND NOT B_DIRTY\<rparr>]\<rparr>"
  let ?v = "set_disk ?d (set_procs (map (woken (BufChan b)) (procs u)) (resync i u))"
  have h: "ideInterruptHandler u = Ret () ?v"
    using ideInterruptHandler_run [OF t(4,6,7), of b] assms(8-12) al(2) t(9) du by simp
  have "map (woken (BufChan b)) (procs u) = ?ps[k := (?ps ! k)\<lparr>Chan := BufChan b, State := RUNNABLE\<rparr>]"
    unfolding t(9) using assms(6) by (intro nth_equalityI) (auto simp: nth_list_update woken_def alone_def)
  then have v: "proc_ready i ?v" "depth i ?v = 0" "lock_free IdeLock ?v" "IdeLock \<noteq> ProcessTableLock"
      "procs ?v = ?ps[k := (?ps ! k)\<lparr>Chan := BufChan b, State := RUNNABLE\<rparr>]"
    using t al(2) by (simp_all add: proc_ready_def)
  obtain w z where z: "scheduler_round i ?v = Ret (Some k) w" "sleep_exit IdeLock (k, ?ie) w = Ret () z"
      "in_section i z" "holds i IdeLock z" "depth i z = 1" "curproc i z = Some k" "lock_free ProcessTableLock z"
      "procs z = ?ps[k := (?ps ! k)\<lparr>Chan := NullChan\<rparr>]"
      "\<And>l'. l' \<noteq> IdeLock \<Longrightarrow> l' \<noteq> ProcessTableLock \<Longrightarrow> lock_free l' z = lock_free l' ?v"
    using wake_to_run [OF v(1-5) al(1,3-5,7) assms(7)] by blast
  have "idle_until_disk k t = Ret () w"
    using t(2,3) h z(1) by (simp add: idle_until_disk_def kmonad myCpu_ok [of i])
  moreover have "disk z = ?d"
    using keepsD [OF disk_keeps.keeps_scheduler(1) z(1)] keepsD [OF disk_keeps.keeps_sleep(4) z(2)] by simp
  moreover have "procs z = ?ps"
  proof -
    have "(?ps ! k)\<lparr>Chan := NullChan\<rparr> = ?ps ! k" using al(6) by (intro Process.equality) simp_all
    then show ?thesis using z(8) by simp
  qed
  moreover have "\<forall>l. l \<noteq> IdeLock \<longrightarrow> lock_free l z"
    using z(7,9) t(4,8) assms(4) by (metis lock_free_resync set_disk_lock(6) set_procs_lock(6))
  ultimately show thesis using that [OF t(1) _ _ z(3,5,4)] z(2,6) by simp
qed

lemma ideReadWrite_run:
  assumes "quiet i k s" "ide_good (disk s)" "b < length (bufs s)" "SLocked (BufLock (bufs s ! b)) \<noteq> 0"
    and "Flags (bufs s ! b) AND (B_VALID OR B_DIRTY) \<noteq> B_VALID" "Device (bufs s ! b) = 0 \<or> havedisk1 (disk s) \<noteq> 0"
    and "SectorNumber (bufs s ! b) < 2 ^ 28"
  obtains t where "ideReadWrite b s = Ret () t" "quiet i k t" "procs t = procs s" "disk t = ide_done b (disk s)"
proof -
  note q = quietD [OF assms(1)]
  let ?x = "bufs s ! b" and ?c = "controller (disk s)"
  let ?d = "(disk s)\<lparr>Buffers := (bufs s)[b := ?x\<lparr>QueueNext := None\<rparr>], idequeue := Some b, controller := ide_started ?x ?c\<rparr>"
  let ?a = "set_disk ?d (acquired i IdeLock s)"
  have good: "idequeue (disk s) = None" "ideStatus ?c AND (IDE_BUSY OR IDE_READY) = IDE_READY"
      "ideStatus ?c AND (IDE_DRIVEFAULT OR IDE_ERROR) = 0"
    using assms(2) by (simp_all add: ide_good_def)
  have e: "ideReadWrite b s = ideReadWrite_wait (Suc NBUF) b ?a"
    using q(1) q(3) [of IdeLock] good(1,2) assms
    by (auto simp: ideReadWrite_def kmonad isHoldingSleeplock_run [OF assms(1)] spinlockAcquire_ok [of i] enqueue_def
        ideStartRequest_run)
  have a: "in_section i ?a" "depth i ?a = 1" "holds i IdeLock ?a" "\<forall>l. l \<noteq> IdeLock \<longrightarrow> lock_free l ?a"
      "curproc i ?a = Some k" "alone k (procs ?a)" "InterruptsEnabled (cpus ?a ! i) \<in> {0, FL_IF}"
      "idequeue (disk ?a) = Some b" "QueueNext (bufs ?a ! b) = None" "b < length (bufs ?a)"
      "ideStatus (controller (disk ?a)) AND (IDE_BUSY OR IDE_READY) = IDE_READY"
      "ideStatus (controller (disk ?a)) AND (IDE_DRIVEFAULT OR IDE_ERROR) = 0"
  proof -
    have "CliDepth (cpus s ! i) = 0" using q(2) by (simp add: depth_def)
    then show "InterruptsEnabled (cpus ?a ! i) \<in> {0, FL_IF}"
      using cpu_ok_bound [OF q(1)] and_FL_IF_cases by (simp add: acquired_def pushed_InterruptsEnabled)
  qed (use q(1-5) good assms(3) in simp_all)
  obtain local t v z where z: "sleep_enter (BufChan b) (Some IdeLock) ?a = Ret local t"
      "idle_until_disk (fst local) t = Ret () v" "sleep_exit IdeLock local v = Ret () z"
      "in_section i z" "depth i z = 1" "holds i IdeLock z" "\<forall>l. l \<noteq> IdeLock \<longrightarrow> lock_free l z"
      "curproc i z = Some k" "procs z = procs ?a"
      "disk z = (disk ?a)\<lparr>idequeue := None, Buffers := (bufs ?a)[b := (bufs ?a ! b)\<lparr>
        BufData := (if Flags (bufs ?a ! b) AND B_DIRTY = 0
           then drives (controller (disk ?a)) (selected (controller (disk ?a))) (lba (controller (disk ?a)))
           else BufData (bufs ?a ! b)),
        Flags := (Flags (bufs ?a ! b) OR B_VALID) AND NOT B_DIRTY\<rparr>]\<rparr>"
    by (rule sleep_until_disk [OF a])
  have dz: "disk z = ide_done b (disk s)"
    unfolding z(10) using assms(3,7) by (simp add: ide_done_def Let_def onDisk_def drives_ide_started)
  have f: "Flags (bufs z ! b) AND (B_VALID OR B_DIRTY) = B_VALID"
    unfolding dz using assms(3) by (simp add: ide_done_def Let_def)
  obtain n where n: "NBUF = Suc n" by (cases NBUF) (simp_all add: NBUF_def)
  have "ideReadWrite b s = spinlockRelease IdeLock z"
    unfolding e n using z(1-3) f assms(3,5) by (simp add: kmonad)
  then have "ideReadWrite b s = Ret () (released i IdeLock z)"
    using spinlockRelease_ok [OF z(4,6)] by simp
  moreover have "quiet i k (released i IdeLock z)"
    using released_ok [OF z(4), of IdeLock] z(5,7-9) q(5)
    by (auto simp: quiet_def) (metis lock_free_released released_lock_free)
  ultimately show thesis using that z(9) dz by simp
qed

end
