(* ===== verification/Bio.thy ===== *)
theory Bio
  imports Disk
begin

text \<open>
  The cache of disk buffers (\<^verbatim>\<open>bio.c\<close>): a circular doubly linked list of \<open>NBUF\<close> buffers, most recently used
  first.  The list is refined by the sequence of its buffers, and the cache by the contents of the disk:
  a buffer that a process reads holds the bytes of its sector.
\<close>

unbundle bit_operations_syntax

section \<open>Definitions\<close>

definition HEAD :: nat where "HEAD = NBUF"

definition insertAtHead :: "nat \<Rightarrow> ('a kdisk_scheme, unit) op" where
  "insertAtHead b =
     bindK (getBuf HEAD) (\<lambda>h.
     bindK (updBuf (Next h) (\<lambda>x. x\<lparr>Previous := b\<rparr>)) (\<lambda>_.
     updBuf HEAD (\<lambda>x. x\<lparr>Next := b\<rparr>)))"

definition diskBufferCacheInitialise :: "('a kdisk_scheme, unit) op" where
  "diskBufferCacheInitialise =
     bindK (spinlockInitialise DiskBufferCacheLock ''diskBufferCache'') (\<lambda>_.
     bindK (updBuf HEAD (\<lambda>x. x\<lparr>Previous := HEAD\<rparr>)) (\<lambda>_.
     bindK (updBuf HEAD (\<lambda>x. x\<lparr>Next := HEAD\<rparr>)) (\<lambda>_.
     foreachK [0..<NBUF] (\<lambda>b.
       bindK (getBuf HEAD) (\<lambda>h.
       bindK (updBuf b (\<lambda>x. x\<lparr>Next := Next h, Previous := HEAD\<rparr>)) (\<lambda>_.
       bindK (sleeplockInitialise b ''buffer'') (\<lambda>_.
       insertAtHead b)))))))"

text \<open>The two searches of \<^verbatim>\<open>diskBufferGet\<close> along the links; a correct list has at most \<open>NBUF\<close> buffers.\<close>

fun searchNext :: "nat \<Rightarrow> DiskBuffer list \<Rightarrow> (DiskBuffer \<Rightarrow> bool) \<Rightarrow> nat \<Rightarrow> nat option option" where
  "searchNext 0 bs P b = (if b = HEAD then Some None else None)"
| "searchNext (Suc n) bs P b =
     (if b = HEAD then Some None else if P (bs ! b) then Some (Some b) else searchNext n bs P (Next (bs ! b)))"

fun searchPrevious :: "nat \<Rightarrow> DiskBuffer list \<Rightarrow> (DiskBuffer \<Rightarrow> bool) \<Rightarrow> nat \<Rightarrow> nat option option" where
  "searchPrevious 0 bs P b = (if b = HEAD then Some None else None)"
| "searchPrevious (Suc n) bs P b =
     (if b = HEAD then Some None else if P (bs ! b) then Some (Some b) else searchPrevious n bs P (Previous (bs ! b)))"

definition diskBufferGet :: "u32 \<Rightarrow> u32 \<Rightarrow> ('a kdisk_scheme, nat) op" where
  "diskBufferGet dev sectorNumber =
     bindK (spinlockAcquire DiskBufferCacheLock) (\<lambda>_.
     bindK (getK (\<lambda>s. Buffers (disk s))) (\<lambda>bs.
     case searchNext NBUF bs (\<lambda>x. Device x = dev \<and> SectorNumber x = sectorNumber) (Next (bs ! HEAD)) of
       None \<Rightarrow> hangK
     | Some (Some b) \<Rightarrow>
         bindK (updBuf b (\<lambda>x. x\<lparr>BufRefs := BufRefs x + 1\<rparr>)) (\<lambda>_.
         bindK (spinlockRelease DiskBufferCacheLock) (\<lambda>_.
         bindK (unblocked (sleeplockAcquire b)) (\<lambda>_.
         returnK b)))
     | Some None \<Rightarrow>
         (case searchPrevious NBUF bs (\<lambda>x. BufRefs x = 0 \<and> Flags x AND B_DIRTY = 0) (Previous (bs ! HEAD)) of
            None \<Rightarrow> hangK
          | Some (Some b) \<Rightarrow>
              bindK (updBuf b (\<lambda>x. x\<lparr>Device := dev, SectorNumber := sectorNumber, Flags := 0, BufRefs := 1\<rparr>)) (\<lambda>_.
              bindK (spinlockRelease DiskBufferCacheLock) (\<lambda>_.
              bindK (unblocked (sleeplockAcquire b)) (\<lambda>_.
              returnK b)))
          | Some None \<Rightarrow> panicK ''diskBufferGet: no buffers'')))"

definition diskBufferRead :: "u32 \<Rightarrow> u32 \<Rightarrow> ('a kdisk_scheme, nat) op" where
  "diskBufferRead dev sectorNumber =
     bindK (diskBufferGet dev sectorNumber) (\<lambda>b.
     bindK (getBuf b) (\<lambda>x.
     bindK (whenK (Flags x AND B_VALID = 0) (ideReadWrite b)) (\<lambda>_.
     returnK b)))"

definition diskBufferWrite :: "nat \<Rightarrow> ('a kdisk_scheme, unit) op" where
  "diskBufferWrite b =
     bindK (isHoldingSleeplock b) (\<lambda>holding.
     if \<not> holding then panicK ''diskBufferWrite''
     else bindK (updBuf b (\<lambda>x. x\<lparr>Flags := Flags x OR B_DIRTY\<rparr>)) (\<lambda>_. ideReadWrite b))"

definition diskBufferRelease :: "nat \<Rightarrow> ('a kdisk_scheme, unit) op" where
  "diskBufferRelease b =
     bindK (isHoldingSleeplock b) (\<lambda>holding.
     if \<not> holding then panicK ''diskBufferRelease''
     else bindK (sleeplockRelease b) (\<lambda>_.
     bindK (spinlockAcquire DiskBufferCacheLock) (\<lambda>_.
     bindK (updBuf b (\<lambda>x. x\<lparr>BufRefs := BufRefs x - 1\<rparr>)) (\<lambda>_.
     bindK (getBuf b) (\<lambda>x.
     bindK (if BufRefs x = 0
            then bindK (updBuf (Next x) (\<lambda>y. y\<lparr>Previous := Previous x\<rparr>)) (\<lambda>_.
                 bindK (getBuf b) (\<lambda>x.
                 bindK (updBuf (Previous x) (\<lambda>y. y\<lparr>Next := Next x\<rparr>)) (\<lambda>_.
                 bindK (getBuf HEAD) (\<lambda>h.
                 bindK (updBuf b (\<lambda>y. y\<lparr>Next := Next h\<rparr>)) (\<lambda>_.
                 bindK (updBuf b (\<lambda>y. y\<lparr>Previous := HEAD\<rparr>)) (\<lambda>_.
                 insertAtHead b))))))
            else returnK ()) (\<lambda>_.
     spinlockRelease DiskBufferCacheLock))))))"

section \<open>The list of buffers\<close>

text \<open>
  \<open>chain nx pv cs\<close>: the pointers \<open>nx\<close> lead from every entry of \<open>cs\<close> to the one after it, and \<open>pv\<close> back.
  \<open>links bs xs\<close>: the circular list of the cache holds the buffers \<open>xs\<close>, each of the \<open>NBUF\<close> once.
\<close>

fun chain :: "(nat \<Rightarrow> nat) \<Rightarrow> (nat \<Rightarrow> nat) \<Rightarrow> nat list \<Rightarrow> bool" where
  "chain nx pv (a # b # cs) \<longleftrightarrow> nx a = b \<and> pv b = a \<and> chain nx pv (b # cs)"
| "chain nx pv cs \<longleftrightarrow> True"

definition links :: "DiskBuffer list \<Rightarrow> nat list \<Rightarrow> bool" where
  "links bs xs \<longleftrightarrow> length bs = Suc NBUF \<and> distinct xs \<and> set xs = {..<NBUF} \<and>
     chain (\<lambda>b. Next (bs ! b)) (\<lambda>b. Previous (bs ! b)) (HEAD # xs @ [HEAD])"

lemma chain_append: "chain nx pv (us @ c # vs) \<longleftrightarrow> chain nx pv (us @ [c]) \<and> chain nx pv (c # vs)"
proof (induction us)
  case (Cons a us)
  then show ?case by (cases us) auto
qed simp

lemma chain_last: "chain nx pv (a # ys @ [y]) \<longleftrightarrow> chain nx pv (a # ys) \<and> nx (last (a # ys)) = y \<and> pv y = last (a # ys)"
  by (induction ys arbitrary: a) auto

lemma chain_cong:
  "\<forall>x \<in> set (butlast cs). nx' x = nx x \<Longrightarrow> \<forall>x \<in> set (tl cs). pv' x = pv x \<Longrightarrow> chain nx' pv' cs = chain nx pv cs"
proof (induction nx pv cs rule: chain.induct)
  case (1 nx pv a b cs)
  then show ?case by (cases cs) auto
qed simp_all

lemma chain_unlink:
  assumes "chain nx pv (us @ p # b # n # vs)" "p \<notin> set us" "n \<notin> set vs" "n \<notin> set (tl (us @ [p]))" "p \<notin> set (butlast (n # vs))"
  shows "chain (nx(p := n)) (pv(n := p)) (us @ p # n # vs)"
proof -
  have c: "chain nx pv (us @ [p])" "chain nx pv (n # vs)"
    using assms(1) chain_append [of nx pv us p "b # n # vs"] by auto
  have "chain (nx(p := n)) (pv(n := p)) (us @ [p]) = chain nx pv (us @ [p])"
    using assms(2,4) by (intro chain_cong) auto
  moreover have "chain (nx(p := n)) (pv(n := p)) (n # vs) = chain nx pv (n # vs)"
    using assms(3,5) by (intro chain_cong) auto
  ultimately show ?thesis using c chain_append [of "nx(p := n)" "pv(n := p)" us p "n # vs"] by simp
qed

lemma chain_insert:
  assumes "chain nx pv (h # n # vs)" "b \<notin> set (n # vs)" "b \<noteq> h" "h \<notin> set (butlast (n # vs))" "n \<notin> set vs"
  shows "chain (nx(b := n, h := b)) (pv(b := h, n := b)) (h # b # n # vs)"
proof -
  have "chain (nx(b := n, h := b)) (pv(b := h, n := b)) (n # vs) = chain nx pv (n # vs)"
    using assms(2-5) by (intro chain_cong) (auto dest: in_set_butlastD)
  then show ?thesis using assms by auto
qed

text \<open>Moving \<open>b\<close> to the front, as the end of \<^verbatim>\<open>diskBufferRelease\<close> does.\<close>

lemma chain_to_front:
  assumes "chain nx pv (h # us @ b # vs @ [h])" "distinct (h # us @ b # vs)"
  defines "p \<equiv> last (h # us)" and "n \<equiv> hd (vs @ [h])"
  shows "nx b = n" "pv b = p"
    "chain ((nx(p := n))(b := (nx(p := n)) h, h := b))
       ((pv(n := p))(b := h, (nx(p := n)) h := b)) (h # b # us @ vs @ [h])"
    "(nx(p := n)) h = hd (us @ vs @ [h])"
proof -
  obtain us' where u: "h # us = us' @ [p]"
  proof
    show "h # us = butlast (h # us) @ [p]" unfolding p_def by simp
  qed
  obtain vs' where v: "vs @ [h] = n # vs'"
  proof
    show "vs @ [h] = n # tl (vs @ [h])" unfolding n_def by (cases vs) simp_all
  qed
  have cs: "h # us @ b # vs @ [h] = us' @ p # b # n # vs'"
  proof -
    have "h # us @ b # vs @ [h] = (h # us) @ b # (vs @ [h])" by simp
    then show ?thesis unfolding u v by simp
  qed
  have hv: "butlast (n # vs') = vs" unfolding v [symmetric] by simp
  have tu: "tl (us' @ [p]) = us" unfolding u [symmetric] by simp
  have c: "chain nx pv (us' @ p # b # n # vs')" using assms(1) cs by simp
  then have "chain nx pv (p # b # n # vs')" using chain_append [of nx pv us' p "b # n # vs'"] by blast
  then show "nx b = n" "pv b = p" by simp_all
  have d: "p \<notin> set us'" "n \<notin> set vs'" "n \<notin> set us" "p \<notin> set vs"
  proof -
    have "distinct (us' @ [p])" unfolding u [symmetric] using assms(2) by simp
    then show "p \<notin> set us'" by simp
    have "distinct (vs @ [h])" using assms(2) by auto
    then show "n \<notin> set vs'" unfolding v by simp
    have "n \<in> set (vs @ [h])" "p \<in> set (h # us)" unfolding u v by simp_all
    then show "n \<notin> set us" "p \<notin> set vs" using assms(2) by auto
  qed
  have "chain (nx(p := n)) (pv(n := p)) (us' @ p # n # vs')"
    using chain_unlink [OF c] d hv tu by simp
  moreover have "us' @ p # n # vs' = h # us @ vs @ [h]"
  proof -
    have "h # us @ vs @ [h] = (h # us) @ (vs @ [h])" by simp
    then show ?thesis unfolding u v by simp
  qed
  ultimately have c2: "chain (nx(p := n)) (pv(n := p)) (h # us @ vs @ [h])" by simp
  obtain m ws where w: "us @ vs @ [h] = m # ws" by (cases "us @ vs @ [h]") auto
  have bl: "butlast (m # ws) = us @ vs" unfolding w [symmetric] by (simp add: butlast_append)
  have m: "(nx(p := n)) h = m" using c2 w by simp
  then show "(nx(p := n)) h = hd (us @ vs @ [h])" using w by simp
  have "distinct (us @ vs @ [h])" using assms(2) by auto
  then have "m \<notin> set ws" unfolding w by simp
  moreover have "b \<notin> set (m # ws)" "b \<noteq> h" using assms(2) unfolding w [symmetric] by auto
  moreover have "h \<notin> set (butlast (m # ws))" using assms(2) unfolding bl by auto
  moreover have "chain (nx(p := n)) (pv(n := p)) (h # m # ws)" using c2 unfolding w .
  ultimately have "chain ((nx(p := n))(b := m, h := b)) ((pv(n := p))(b := h, m := b)) (h # b # m # ws)"
    by (intro chain_insert)
  then show "chain ((nx(p := n))(b := (nx(p := n)) h, h := b))
       ((pv(n := p))(b := h, (nx(p := n)) h := b)) (h # b # us @ vs @ [h])"
    unfolding m w .
qed

lemma HEAD_less [simp]: "b < NBUF \<Longrightarrow> b \<noteq> HEAD" "\<not> HEAD < NBUF" "HEAD < Suc NBUF"
  by (simp_all add: HEAD_def)

lemma linksD:
  assumes "links bs xs"
  shows "length bs = Suc NBUF" "distinct xs" "set xs = {..<NBUF}" "length xs = NBUF"
  using assms distinct_card [of xs] by (simp_all add: links_def)

lemma search_HEAD [simp]: "searchNext n bs P HEAD = Some None" "searchPrevious n bs P HEAD = Some None"
  by (cases n; simp)+

lemma searchNext_chain:
  "chain (\<lambda>b. Next (bs ! b)) pv (ys @ [HEAD]) \<Longrightarrow> HEAD \<notin> set ys \<Longrightarrow> length ys \<le> n \<Longrightarrow>
   searchNext n bs P (hd (ys @ [HEAD])) = Some (List.find (\<lambda>b. P (bs ! b)) ys)"
proof (induction ys arbitrary: n)
  case (Cons y ys)
  then obtain m where n: "n = Suc m" by (cases n) auto
  have "Next (bs ! y) = hd (ys @ [HEAD])" "chain (\<lambda>b. Next (bs ! b)) pv (ys @ [HEAD])"
    using Cons.prems(1) by (cases ys; simp)+
  then show ?case using Cons n by simp
qed simp

lemma searchPrevious_chain:
  "chain nx (\<lambda>b. Previous (bs ! b)) (HEAD # ys) \<Longrightarrow> HEAD \<notin> set ys \<Longrightarrow> length ys \<le> n \<Longrightarrow>
   searchPrevious n bs P (last (HEAD # ys)) = Some (List.find (\<lambda>b. P (bs ! b)) (rev ys))"
proof (induction ys arbitrary: n rule: rev_induct)
  case (snoc y ys)
  then obtain m where n: "n = Suc m" by (cases n) auto
  have "Previous (bs ! y) = last (HEAD # ys)" "chain nx (\<lambda>b. Previous (bs ! b)) (HEAD # ys)"
    using snoc.prems(1) chain_last [of nx _ HEAD ys y] by simp_all
  then show ?case using snoc n by simp
qed simp

lemma search_links:
  assumes "links bs xs"
  shows "searchNext NBUF bs P (Next (bs ! HEAD)) = Some (List.find (\<lambda>b. P (bs ! b)) xs)"
    "searchPrevious NBUF bs P (Previous (bs ! HEAD)) = Some (List.find (\<lambda>b. P (bs ! b)) (rev xs))"
proof -
  let ?nx = "\<lambda>b. Next (bs ! b)" and ?pv = "\<lambda>b. Previous (bs ! b)"
  have c: "chain ?nx ?pv (HEAD # xs @ [HEAD])" using assms by (simp add: links_def)
  have h: "HEAD \<notin> set xs" "length xs \<le> NBUF" using linksD [OF assms] by simp_all
  have "Next (bs ! HEAD) = hd (xs @ [HEAD])" "chain ?nx ?pv (xs @ [HEAD])" using c by (cases xs; simp)+
  then show "searchNext NBUF bs P (Next (bs ! HEAD)) = Some (List.find (\<lambda>b. P (bs ! b)) xs)"
    using searchNext_chain [OF _ h] by (metis (no_types))
  have "Previous (bs ! HEAD) = last (HEAD # xs)" "chain ?nx ?pv (HEAD # xs)"
    using c chain_last [of ?nx ?pv HEAD xs HEAD] by simp_all
  then show "searchPrevious NBUF bs P (Previous (bs ! HEAD)) = Some (List.find (\<lambda>b. P (bs ! b)) (rev xs))"
    using searchPrevious_chain [OF _ h] by (metis (no_types))
qed

lemma links_upd:
  assumes "links bs xs" "Next x = Next (bs ! b)" "Previous x = Previous (bs ! b)"
  shows "links (bs[b := x]) xs"
proof -
  have n: "(\<lambda>y. Next (bs[b := x] ! y)) = (\<lambda>y. Next (bs ! y))"
    using assms(2) by (cases "b < length bs") (auto simp: nth_list_update fun_eq_iff list_update_beyond)
  have p: "(\<lambda>y. Previous (bs[b := x] ! y)) = (\<lambda>y. Previous (bs ! y))"
    using assms(3) by (cases "b < length bs") (auto simp: nth_list_update fun_eq_iff list_update_beyond)
  show ?thesis using assms(1) unfolding links_def n p by simp
qed

section \<open>The cache\<close>

text \<open>
  \<open>cache_inv H d xs\<close>: the list of the cache is \<open>xs\<close>, most recently used first; exactly the buffers in \<open>H\<close> are
  held; every valid buffer agrees with the disk; and the search finds a held or valid buffer first
  among all that carry the same sector.
\<close>

definition key :: "DiskBuffer \<Rightarrow> u32 \<times> u32" where
  "key x = (Device x, SectorNumber x)"

definition buf_ok :: "IdeController \<Rightarrow> nat set \<Rightarrow> nat \<Rightarrow> DiskBuffer \<Rightarrow> bool" where
  "buf_ok c H b x \<longleftrightarrow> Flags x \<in> {0, B_VALID} \<and> (SLocked (BufLock x) \<noteq> 0 \<longleftrightarrow> b \<in> H) \<and> BufRefs x = (if b \<in> H then 1 else 0) \<and>
     (Flags x = B_VALID \<longrightarrow> Device x < 2 \<and> SectorNumber x < 2 ^ 28 \<and> BufData x = onDisk c (Device x) (SectorNumber x))"

definition found :: "DiskBuffer list \<Rightarrow> nat list \<Rightarrow> u32 \<times> u32 \<Rightarrow> nat option" where
  "found bs xs y = List.find (\<lambda>b. key (bs ! b) = y) xs"

definition cache_inv :: "nat set \<Rightarrow> DiskState \<Rightarrow> nat list \<Rightarrow> bool" where
  "cache_inv H d xs \<longleftrightarrow> links (Buffers d) xs \<and> ide_good d \<and>
     (\<forall>b < NBUF. buf_ok (controller d) H b (Buffers d ! b) \<and>
        (b \<in> H \<or> Flags (Buffers d ! b) = B_VALID \<longrightarrow> found (Buffers d) xs (key (Buffers d ! b)) = Some b))"

lemma find_weaken:
  "List.find P xs = Some b \<Longrightarrow> Q b \<Longrightarrow> \<forall>x \<in> set xs. Q x \<longrightarrow> P x \<Longrightarrow> List.find Q xs = Some b"
proof (induction xs)
  case (Cons a xs)
  then show ?case by (cases "P a"; cases "Q a"; simp)
qed simp

lemma find_unique:
  assumes "b \<in> set xs" "P b" "\<And>x. x \<in> set xs \<Longrightarrow> P x \<Longrightarrow> x = b"
  shows "List.find P xs = Some b"
proof (cases "List.find P xs")
  case None
  then show ?thesis using assms(1,2) by (simp add: find_None_iff)
next
  case (Some c)
  then have "c \<in> set xs" "P c" by (auto simp: find_Some_iff)
  then show ?thesis using Some assms(3) by simp
qed

lemma find_holds: "List.find P xs = Some b \<Longrightarrow> b \<in> set xs \<and> P b"
  by (induction xs) (auto split: if_splits)

lemma found_bound: "found bs xs y = Some b \<Longrightarrow> set xs = {..<NBUF} \<Longrightarrow> b < NBUF \<and> key (bs ! b) = y"
  unfolding found_def by (drule find_holds) auto

lemma buf_ok_insert: "b' \<noteq> b \<Longrightarrow> buf_ok c (insert b H) b' x = buf_ok c H b' x"
  by (simp add: buf_ok_def)

lemma cache_invD:
  assumes "cache_inv H d xs"
  shows "links (Buffers d) xs" "ide_good d" "\<And>b. b < NBUF \<Longrightarrow> buf_ok (controller d) H b (Buffers d ! b)"
    "\<And>b. b < NBUF \<Longrightarrow> b \<in> H \<or> Flags (Buffers d ! b) = B_VALID \<Longrightarrow> found (Buffers d) xs (key (Buffers d ! b)) = Some b"
    "length (Buffers d) = Suc NBUF" "set xs = {..<NBUF}"
  using assms linksD [of "Buffers d" xs] by (auto simp: cache_inv_def)

text \<open>Replacing buffer \<open>b\<close>, which is then held.\<close>

lemma cache_upd:
  assumes "cache_inv H d xs" "b < NBUF" "Next x = Next (Buffers d ! b)" "Previous x = Previous (Buffers d ! b)"
    and "\<And>c. c < NBUF \<Longrightarrow> c \<noteq> b \<Longrightarrow> c \<in> H \<or> Flags (Buffers d ! c) = B_VALID \<Longrightarrow> key (Buffers d ! c) \<noteq> key x"
    and "buf_ok (controller e) (insert b H) b x" "found ((Buffers d)[b := x]) xs (key x) = Some b"
    and "\<And>c. c < NBUF \<Longrightarrow> c \<noteq> b \<Longrightarrow> buf_ok (controller e) H c (Buffers d ! c)"
    and "ide_good e" "Buffers e = (Buffers d)[b := x]"
  shows "cache_inv (insert b H) e xs"
proof -
  note D = cache_invD [OF assms(1)]
  have "found ((Buffers d)[b := x]) xs (key (Buffers d ! c)) = Some c"
    if "c \<noteq> b" "c < NBUF" "c \<in> H \<or> Flags (Buffers d ! c) = B_VALID" for c
  proof -
    have f: "List.find (\<lambda>c'. key (Buffers d ! c') = key (Buffers d ! c)) xs = Some c"
      using D(4) that by (simp add: found_def)
    show ?thesis
      unfolding found_def using assms(2) assms(5) [OF that(2,1,3)] that(1) D(5)
      by (intro find_weaken [OF f]) (auto simp: nth_list_update)
  qed
  then show ?thesis
    using assms(6-10) links_upd [OF D(1) assms(3,4)] assms(2) D(5)
    by (simp add: cache_inv_def nth_list_update buf_ok_insert)
qed

definition got :: "int \<Rightarrow> DiskBuffer \<Rightarrow> DiskBuffer" where
  "got pid x = x\<lparr>BufRefs := 1, BufLock := (BufLock x)\<lparr>SLocked := 1, Pid := pid\<rparr>\<rparr>"

lemma got_sel [simp]:
  "Flags (got p x) = Flags x" "Device (got p x) = Device x" "SectorNumber (got p x) = SectorNumber x"
  "BufData (got p x) = BufData x" "key (got p x) = key x" "Next (got p x) = Next x" "Previous (got p x) = Previous x"
  "SLocked (BufLock (got p x)) = 1" "BufRefs (got p x) = 1"
  by (simp_all add: got_def key_def)

lemma diskBufferGet_hit:
  assumes "quiet i k s" "cache_inv H (disk s) xs" "found (bufs s) xs (dev, sec) = Some b" "b \<notin> H"
  shows "diskBufferGet dev sec s =
    Ret b (set_disk ((disk s)\<lparr>Buffers := (bufs s)[b := got (ProcessId (procs s ! k)) (bufs s ! b)]\<rparr>) (resync i s))"
proof -
  have l: "links (bufs s) xs" using assms(2) by (simp add: cache_inv_def)
  have b: "b < NBUF" "b < length (bufs s)" using found_bound [OF assms(3) linksD(3) [OF l]] linksD(1) [OF l] by simp_all
  then have ok: "SLocked (BufLock (bufs s ! b)) = 0" "BufRefs (bufs s ! b) = 0"
    using assms(2,4) by (auto simp: cache_inv_def buf_ok_def)
  have s: "searchNext NBUF (bufs s) (\<lambda>x. Device x = dev \<and> SectorNumber x = sec) (Next (bufs s ! HEAD)) = Some (Some b)"
    using assms(3) by (simp add: search_links(1) [OF l] found_def key_def)
  let ?t = "set_disk ((disk s)\<lparr>Buffers := (bufs s)[b := (bufs s ! b)\<lparr>BufRefs := 1\<rparr>]\<rparr>) (resync i s)"
  have q: "quiet i k ?t" using assms(1) by simp
  have "sleeplockAcquire b ?t = Ret (Returned ()) (set_disk ((disk s)\<lparr>Buffers := (bufs s)[b := got (ProcessId (procs s ! k)) (bufs s ! b)]\<rparr>) (resync i s))"
    using ok b quietD(1) [OF assms(1)] by (simp add: sleeplockAcquire_run [OF q] got_def)
  then show ?thesis
    using quietD(1) [OF assms(1)] quietD(3) [OF assms(1), of DiskBufferCacheLock] s ok
    by (simp add: diskBufferGet_def kmonad spinlockAcquire_ok [of i] spinlockRelease_ok [of i] unblocked_def)
qed

lemma diskBufferGet_miss:
  assumes "quiet i k s" "cache_inv H (disk s) xs" "found (bufs s) xs (dev, sec) = None" "H \<subset> {..<NBUF}"
  obtains b where "b < NBUF" "b \<notin> H" "diskBufferGet dev sec s = Ret b (set_disk ((disk s)\<lparr>Buffers := (bufs s)[b :=
    got (ProcessId (procs s ! k)) ((bufs s ! b)\<lparr>Device := dev, SectorNumber := sec, Flags := 0\<rparr>)]\<rparr>) (resync i s))"
proof -
  have l: "links (bufs s) xs" using assms(2) by (simp add: cache_inv_def)
  have s: "searchNext NBUF (bufs s) (\<lambda>x. Device x = dev \<and> SectorNumber x = sec) (Next (bufs s ! HEAD)) = Some None"
    using assms(3) by (simp add: search_links(1) [OF l] found_def key_def)
  let ?P = "\<lambda>b. BufRefs (bufs s ! b) = 0 \<and> Flags (bufs s ! b) AND B_DIRTY = 0"
  have clean: "B_VALID AND B_DIRTY = 0" by (simp add: B_VALID_def B_DIRTY_def)
  have P: "?P b \<longleftrightarrow> b \<notin> H" if "b < NBUF" for b
    using that assms(2) clean by (auto simp: cache_inv_def buf_ok_def split: if_splits)
  obtain b where f: "List.find ?P (rev xs) = Some b"
  proof (cases "List.find ?P (rev xs)")
    case None
    then have "{..<NBUF} \<subseteq> H" using P linksD(3) [OF l] by (auto simp: find_None_iff)
    then show ?thesis using assms(4) by blast
  qed
  then have "b \<in> set (rev xs)" "?P b" using find_holds [OF f] by blast+
  then have b: "b < NBUF" "b < length (bufs s)" "b \<notin> H"
    using P linksD [OF l] by auto
  then have ok: "SLocked (BufLock (bufs s ! b)) = 0" using assms(2) by (auto simp: cache_inv_def buf_ok_def)
  have p: "searchPrevious NBUF (bufs s) (\<lambda>x. BufRefs x = 0 \<and> Flags x AND B_DIRTY = 0) (Previous (bufs s ! HEAD)) = Some (Some b)"
    using f by (simp add: search_links(2) [OF l])
  let ?x = "(bufs s ! b)\<lparr>Device := dev, SectorNumber := sec, Flags := 0\<rparr>"
  let ?t = "set_disk ((disk s)\<lparr>Buffers := (bufs s)[b := ?x\<lparr>BufRefs := 1\<rparr>]\<rparr>) (resync i s)"
  have q: "quiet i k ?t" using assms(1) by simp
  have "sleeplockAcquire b ?t = Ret (Returned ()) (set_disk ((disk s)\<lparr>Buffers := (bufs s)[b := got (ProcessId (procs s ! k)) ?x]\<rparr>) (resync i s))"
    using ok b quietD(1) [OF assms(1)] by (simp add: sleeplockAcquire_run [OF q] got_def)
  moreover have "(bufs s ! b)\<lparr>Device := dev, SectorNumber := sec, Flags := 0, BufRefs := 1\<rparr> = ?x\<lparr>BufRefs := 1\<rparr>"
    by simp
  ultimately have "diskBufferGet dev sec s = Ret b (set_disk ((disk s)\<lparr>Buffers := (bufs s)[b := got (ProcessId (procs s ! k)) ?x]\<rparr>) (resync i s))"
    using quietD(1) [OF assms(1)] quietD(3) [OF assms(1), of DiskBufferCacheLock] s p
    by (simp add: diskBufferGet_def kmonad spinlockAcquire_ok [of i] spinlockRelease_ok [of i] unblocked_def)
  then show thesis using that b by blast
qed

lemma buf_ok_drives: "drives c = drives c' \<Longrightarrow> buf_ok c H b x = buf_ok c' H b x"
  by (simp add: buf_ok_def onDisk_def)

lemma buf_ok_got:
  assumes "buf_ok c H b x" shows "buf_ok c (insert b H) b (got p x)"
  using assms by (simp add: buf_ok_def)

lemma ide_good_upd [simp]: "ide_good (d\<lparr>Buffers := bs\<rparr>) = ide_good d"
  by (simp add: ide_good_def)

lemma diskBufferGet_ok:
  assumes "quiet i k s" "cache_inv H (disk s) xs" "\<forall>b \<in> H. key (bufs s ! b) \<noteq> (dev, sec)" "H \<subset> {..<NBUF}"
  obtains b t where "diskBufferGet dev sec s = Ret b t" "quiet i k t" "procs t = procs s" "b < NBUF" "b \<notin> H"
    "cache_inv (insert b H) (disk t) xs" "key (bufs t ! b) = (dev, sec)"
    "\<And>c. c \<noteq> b \<Longrightarrow> bufs t ! c = bufs s ! c" "disk t = (disk s)\<lparr>Buffers := bufs t\<rparr>"
proof (cases "found (bufs s) xs (dev, sec)")
  case (Some b)
  note D = cache_invD [OF assms(2)]
  have b: "b < NBUF" "key (bufs s ! b) = (dev, sec)" "b < length (bufs s)"
    using found_bound [OF Some D(6)] D(5) by simp_all
  then have nh: "b \<notin> H" using assms(3) by blast
  let ?x = "got (ProcessId (procs s ! k)) (bufs s ! b)"
  let ?t = "set_disk ((disk s)\<lparr>Buffers := (bufs s)[b := ?x]\<rparr>) (resync i s)"
  have "key (bufs s ! c) \<noteq> (dev, sec)" if "c < NBUF" "c \<noteq> b" "c \<in> H \<or> Flags (bufs s ! c) = B_VALID" for c
    using D(4) [OF that(1,3)] Some that(2) by auto
  moreover have "found ((bufs s)[b := ?x]) xs (dev, sec) = Some b"
    unfolding found_def using b by (intro find_weaken [OF Some [unfolded found_def]]) (auto simp: nth_list_update)
  ultimately have "cache_inv (insert b H) (disk ?t) xs"
    using D b buf_ok_got by (intro cache_upd [OF assms(2) b(1), of ?x]) simp_all
  then show thesis
    using that [OF diskBufferGet_hit [OF assms(1,2) Some nh]] assms(1) b nh by simp
next
  case None
  note D = cache_invD [OF assms(2)]
  obtain b where b: "b < NBUF" "b \<notin> H" "diskBufferGet dev sec s = Ret b (set_disk ((disk s)\<lparr>Buffers := (bufs s)[b :=
      got (ProcessId (procs s ! k)) ((bufs s ! b)\<lparr>Device := dev, SectorNumber := sec, Flags := 0\<rparr>)]\<rparr>) (resync i s))"
    using diskBufferGet_miss [OF assms(1,2) None assms(4)] .
  let ?x = "got (ProcessId (procs s ! k)) ((bufs s ! b)\<lparr>Device := dev, SectorNumber := sec, Flags := 0\<rparr>)"
  let ?t = "set_disk ((disk s)\<lparr>Buffers := (bufs s)[b := ?x]\<rparr>) (resync i s)"
  have x: "key ?x = (dev, sec)" "Flags ?x = 0" "Next ?x = Next (bufs s ! b)" "Previous ?x = Previous (bufs s ! b)"
    by (simp_all add: key_def)
  have none: "key (bufs s ! c) \<noteq> (dev, sec)" if "c < NBUF" for c
    using None that D(6) by (auto simp: found_def find_None_iff)
  have "found ((bufs s)[b := ?x]) xs (key ?x) = Some b"
    unfolding found_def x(1) using b(1) none D(5,6) x(1)
    by (intro find_unique) (auto simp: nth_list_update split: if_splits)
  moreover have "B_VALID \<noteq> 0" by (simp add: B_VALID_def)
  then have "buf_ok (controller (disk s)) (insert b H) b ?x"
    by (simp add: buf_ok_def)
  ultimately have "cache_inv (insert b H) (disk ?t) xs"
    using D b x none by (intro cache_upd [OF assms(2) b(1) x(3,4)]) simp_all
  then show thesis
    using that [OF b(3)] assms(1) b(1,2) x(1) D(5) by simp
qed

lemma diskBufferRead_ok:
  assumes "quiet i k s" "cache_inv H (disk s) xs" "\<forall>b \<in> H. key (bufs s ! b) \<noteq> (dev, sec)" "H \<subset> {..<NBUF}"
    and "dev < 2" "sec < 2 ^ 28" "dev = 0 \<or> havedisk1 (disk s) \<noteq> 0"
  obtains b t where "diskBufferRead dev sec s = Ret b t" "quiet i k t" "procs t = procs s" "b < NBUF" "b \<notin> H"
    "cache_inv (insert b H) (disk t) xs" "key (bufs t ! b) = (dev, sec)" "Flags (bufs t ! b) = B_VALID"
    "BufData (bufs t ! b) = onDisk (controller (disk s)) dev sec"
    "\<And>c. c \<noteq> b \<Longrightarrow> bufs t ! c = bufs s ! c" "drives (controller (disk t)) = drives (controller (disk s))"
    "havedisk1 (disk t) = havedisk1 (disk s)"
proof -
  obtain b t where t: "diskBufferGet dev sec s = Ret b t" "quiet i k t" "procs t = procs s" "b < NBUF" "b \<notin> H"
    "cache_inv (insert b H) (disk t) xs" "key (bufs t ! b) = (dev, sec)"
    "\<And>c. c \<noteq> b \<Longrightarrow> bufs t ! c = bufs s ! c" "disk t = (disk s)\<lparr>Buffers := bufs t\<rparr>"
    using diskBufferGet_ok [OF assms(1-4)] by blast
  note D = cache_invD [OF t(6)]
  have same: "controller (disk t) = controller (disk s)" "havedisk1 (disk t) = havedisk1 (disk s)"
    by (subst t(9), simp)+
  let ?x = "bufs t ! b"
  have x: "Device ?x = dev" "SectorNumber ?x = sec" "SLocked (BufLock ?x) \<noteq> 0" "Flags ?x \<in> {0, B_VALID}"
    using t(7) D(3) [OF t(4)] by (simp_all add: key_def buf_ok_def)
  show thesis
  proof (cases "Flags ?x = B_VALID")
    case True
    then have "Flags ?x AND B_VALID \<noteq> 0" by (simp add: B_VALID_def)
    then have "diskBufferRead dev sec s = Ret b t"
      using t(1) by (simp add: diskBufferRead_def kmonad)
    moreover have "BufData ?x = onDisk (controller (disk s)) dev sec"
      using D(3) [OF t(4)] True x same(1) by (simp add: buf_ok_def)
    ultimately show ?thesis using that [OF _ t(2-7) True _ t(8)] same by simp
  next
    case False
    then have f: "Flags ?x = 0" using x(4) by simp
    have v: "B_VALID \<noteq> 0" by (simp add: B_VALID_def)
    have b: "b < length (bufs t)" using t(4) D(5) by simp
    obtain u where u: "ideReadWrite b t = Ret () u" "quiet i k u" "procs u = procs t" "disk u = ide_done b (disk t)"
      by (rule ideReadWrite_run [OF t(2) D(2) b x(3)]) (use f v x assms(6,7) same in auto)
    let ?y = "bufs u ! b"
    have y: "Flags ?y = B_VALID" "key ?y = (dev, sec)" "BufData ?y = onDisk (controller (disk s)) dev sec"
      "bufs u = (bufs t)[b := ?y]" "Next ?y = Next ?x" "Previous ?y = Previous ?x" "BufLock ?y = BufLock ?x" "BufRefs ?y = BufRefs ?x"
      "Device ?y = dev" "SectorNumber ?y = sec"
      unfolding u(4) using b f x same(1) by (simp_all add: ide_done_def Let_def key_def) (simp add: B_VALID_def B_DIRTY_def)
    have dr: "drives (controller (disk u)) = drives (controller (disk s))" "ide_good (disk u)"
        "havedisk1 (disk u) = havedisk1 (disk s)"
      unfolding u(4) using f same D(2) by (simp_all add: ide_done_def Let_def drives_ide_started ide_good_def)
    have first: "List.find (\<lambda>c. key (bufs t ! c) = (dev, sec)) xs = Some b"
      using D(4) [OF t(4)] t(7) by (simp add: found_def)
    have "diskBufferRead dev sec s = Ret b u"
      using t(1) u(1) f by (simp add: diskBufferRead_def kmonad)
    moreover have "cache_inv (insert b (insert b H)) (disk u) xs"
    proof (rule cache_upd [OF t(6) t(4) y(5,6)])
      show "Buffers (disk u) = (bufs t)[b := ?y]" by (rule y(4))
      show "key (bufs t ! c) \<noteq> key ?y" if "c < NBUF" "c \<noteq> b" "c \<in> insert b H \<or> Flags (bufs t ! c) = B_VALID" for c
        using D(4) [OF that(1,3)] D(4) [OF t(4)] that(2) t(7) y(2) by auto
      show "buf_ok (controller (disk u)) (insert b (insert b H)) b ?y"
        using D(3) [OF t(4)] y(1-3,7-10) assms(5,6) dr(1) by (simp add: buf_ok_def onDisk_def)
      show "found ((bufs t)[b := ?y]) xs (key ?y) = Some b"
        unfolding found_def y(2) by (rule find_weaken [OF first]) (use b y(2) t(7) in \<open>auto simp: nth_list_update\<close>)
      show "buf_ok (controller (disk u)) (insert b H) c (bufs t ! c)" if "c < NBUF" "c \<noteq> b" for c
        using D(3) [OF that(1)] dr(1) same(1) buf_ok_drives by metis
    qed (rule dr(2))
    moreover have "bufs u ! c = bufs s ! c" if "c \<noteq> b" for c
      using t(8) [OF that] that by (subst y(4)) simp
    ultimately show ?thesis using that u(2,3) t(3-5) y(1-3) dr by simp
  qed
qed

text \<open>The pointer assignments of \<^verbatim>\<open>diskBufferRelease\<close> as one function on the buffers.\<close>

definition set_Previous :: "nat \<Rightarrow> nat \<Rightarrow> DiskBuffer list \<Rightarrow> DiskBuffer list" where
  "set_Previous n v bs = bs[n := (bs ! n)\<lparr>Previous := v\<rparr>]"

definition set_Next :: "nat \<Rightarrow> nat \<Rightarrow> DiskBuffer list \<Rightarrow> DiskBuffer list" where
  "set_Next n v bs = bs[n := (bs ! n)\<lparr>Next := v\<rparr>]"

definition relink :: "nat \<Rightarrow> DiskBuffer list \<Rightarrow> DiskBuffer list" where
  "relink b bs =
     (let bs = set_Previous (Next (bs ! b)) (Previous (bs ! b)) bs;
          bs = set_Next (Previous (bs ! b)) (Next (bs ! b)) bs;
          bs = set_Next b (Next (bs ! HEAD)) bs;
          bs = set_Previous b HEAD bs;
          bs = set_Previous (Next (bs ! HEAD)) b bs
      in set_Next HEAD b bs)"

lemma set_links:
  assumes "n < length bs"
  shows "(\<lambda>x. Next (set_Previous n v bs ! x)) = (\<lambda>x. Next (bs ! x))"
    "(\<lambda>x. Previous (set_Previous n v bs ! x)) = (\<lambda>x. Previous (bs ! x))(n := v)"
    "(\<lambda>x. Next (set_Next n v bs ! x)) = (\<lambda>x. Next (bs ! x))(n := v)"
    "(\<lambda>x. Previous (set_Next n v bs ! x)) = (\<lambda>x. Previous (bs ! x))"
  using assms by (auto simp: fun_eq_iff nth_list_update set_Previous_def set_Next_def)

definition linked :: "DiskBuffer list \<Rightarrow> (nat \<Rightarrow> nat) \<Rightarrow> (nat \<Rightarrow> nat) \<Rightarrow> bool" where
  "linked bs nx pv \<longleftrightarrow> (\<lambda>x. Next (bs ! x)) = nx \<and> (\<lambda>x. Previous (bs ! x)) = pv"

lemma linked_set:
  "linked bs nx pv \<Longrightarrow> n < length bs \<Longrightarrow> linked (set_Previous n v bs) nx (pv(n := v))"
  "linked bs nx pv \<Longrightarrow> n < length bs \<Longrightarrow> linked (set_Next n v bs) (nx(n := v)) pv"
  by (simp_all add: linked_def set_links)

lemma linked_get: "linked bs nx pv \<Longrightarrow> Next (bs ! x) = nx x" "linked bs nx pv \<Longrightarrow> Previous (bs ! x) = pv x"
  by (auto simp: linked_def)

lemma set_links_length [simp]: "length (set_Previous n v bs) = length bs" "length (set_Next n v bs) = length bs"
  by (simp_all add: set_Previous_def set_Next_def)

definition core :: "DiskBuffer \<Rightarrow> DiskBuffer" where
  "core x = x\<lparr>Next := 0, Previous := 0\<rparr>"

lemma core_set [simp]:
  "core (set_Previous n v bs ! x) = core (bs ! x)" "core (set_Next n v bs ! x) = core (bs ! x)"
  by (cases "n < length bs"; auto simp: nth_list_update core_def list_update_beyond set_Previous_def set_Next_def)+

lemma core_relink: "core (relink b bs ! x) = core (bs ! x)"
  by (simp add: relink_def Let_def)

lemma coreD:
  assumes "core x = core y"
  shows "Flags x = Flags y" "key x = key y" "BufLock x = BufLock y" "BufRefs x = BufRefs y" "BufData x = BufData y"
    "Device x = Device y" "SectorNumber x = SectorNumber y"
proof -
  have "Flags (core x) = Flags (core y)" "Device (core x) = Device (core y)" "SectorNumber (core x) = SectorNumber (core y)"
    "BufLock (core x) = BufLock (core y)" "BufRefs (core x) = BufRefs (core y)" "BufData (core x) = BufData (core y)"
    using assms by simp_all
  then show "Flags x = Flags y" "key x = key y" "BufLock x = BufLock y" "BufRefs x = BufRefs y" "BufData x = BufData y"
      "Device x = Device y" "SectorNumber x = SectorNumber y"
    by (simp_all add: core_def key_def)
qed

lemma links_relink:
  assumes "links bs (us @ b # vs)"
  shows "links (relink b bs) (b # us @ vs)"
proof -
  let ?nx = "\<lambda>x. Next (bs ! x)" and ?pv = "\<lambda>x. Previous (bs ! x)"
  let ?p = "last (HEAD # us)" and ?n = "hd (vs @ [HEAD])"
  note L = linksD [OF assms]
  have c: "chain ?nx ?pv (HEAD # us @ b # vs @ [HEAD])" using assms by (simp add: links_def)
  have d: "distinct (HEAD # us @ b # vs)" using L(2,3) by auto
  note F = chain_to_front [OF c d]
  have mem: "x \<in> set (us @ b # vs) \<Longrightarrow> x < NBUF" for x using L(3) by (auto simp only: lessThan_iff)
  have b: "b < NBUF" using mem [of b] by simp
  have "?p \<in> set (HEAD # us)" "?n \<in> set (vs @ [HEAD])" by (rule last_in_set hd_in_set, simp)+
  then have le: "?p < length bs" "?n < length bs" "?n \<noteq> b" "?p \<noteq> b"
    using mem [of ?p] mem [of ?n] d b L(1) by (auto simp: HEAD_def)
  have "(?nx(?p := ?n)) HEAD \<in> set (us @ vs @ [HEAD])" unfolding F(4) by (rule hd_in_set) simp
  moreover have "x \<in> set (us @ vs @ [HEAD]) \<Longrightarrow> x < length bs" for x
    using mem [of x] L(1) by (auto simp: HEAD_def)
  ultimately have h: "(?nx(?p := ?n)) HEAD < length bs" "b < length bs" "HEAD < length bs" "b \<noteq> HEAD"
    using b L(1) by (blast, simp_all add: HEAD_def)
  let ?N = "?nx(?p := ?n)" and ?P = "?pv(?n := ?p)"
  define b1 where "b1 = set_Previous (Next (bs ! b)) (Previous (bs ! b)) bs"
  define b2 where "b2 = set_Next (Previous (b1 ! b)) (Next (b1 ! b)) b1"
  define b3 where "b3 = set_Next b (Next (b2 ! HEAD)) b2"
  define b4 where "b4 = set_Previous b HEAD b3"
  define b5 where "b5 = set_Previous (Next (b4 ! HEAD)) b b4"
  have r: "relink b bs = set_Next HEAD b b5"
    by (simp add: relink_def Let_def b1_def b2_def b3_def b4_def b5_def)
  have n: "length b1 = length bs" "length b2 = length bs" "length b3 = length bs" "length b4 = length bs" "length b5 = length bs"
    by (simp_all add: b1_def b2_def b3_def b4_def b5_def)
  have l1: "linked b1 ?nx ?P" using linked_set(1) [of bs ?nx ?pv ?n ?p] le(2) F(1,2) by (simp add: b1_def linked_def)
  have "Previous (b1 ! b) = ?p" "Next (b1 ! b) = ?n" using linked_get [OF l1, of b] F(1,2) le(3) by simp_all
  then have l2: "linked b2 ?N ?P" using linked_set(2) [OF l1, of ?p ?n] le(1) n by (simp add: b2_def)
  have l3: "linked b3 (?N(b := ?N HEAD)) ?P"
    unfolding b3_def linked_get(1) [OF l2] using n h(2) by (intro linked_set l2) simp
  have l4: "linked b4 (?N(b := ?N HEAD)) (?P(b := HEAD))"
    unfolding b4_def using n h(2) by (intro linked_set l3) simp
  have "Next (b4 ! HEAD) = ?N HEAD" using linked_get(1) [OF l4, of HEAD] h(4) by simp
  then have l5: "linked b5 (?N(b := ?N HEAD)) (?P(b := HEAD, ?N HEAD := b))"
    unfolding b5_def using linked_set(1) [OF l4, of "?N HEAD" b] n h(1) by simp
  have l6: "linked (relink b bs) (?N(b := ?N HEAD, HEAD := b)) (?P(b := HEAD, ?N HEAD := b))"
    unfolding r using n h(3) by (intro linked_set l5) simp
  have "length (relink b bs) = Suc NBUF" by (simp add: r n L(1))
  moreover have "distinct (b # us @ vs)" "set (b # us @ vs) = {..<NBUF}" using d L(3) by auto
  moreover have "chain (\<lambda>x. Next (relink b bs ! x)) (\<lambda>x. Previous (relink b bs ! x)) (HEAD # (b # us @ vs) @ [HEAD])"
    using F(3) l6 by (simp only: linked_def append_Cons append_assoc)
  ultimately show ?thesis unfolding links_def by blast
qed

definition ungot :: "DiskBuffer \<Rightarrow> DiskBuffer" where
  "ungot x = x\<lparr>BufLock := (BufLock x)\<lparr>SLocked := 0, Pid := 0\<rparr>, BufRefs := BufRefs x - 1\<rparr>"

lemma ungot_sel [simp]:
  "Flags (ungot x) = Flags x" "Device (ungot x) = Device x" "SectorNumber (ungot x) = SectorNumber x"
  "BufData (ungot x) = BufData x" "key (ungot x) = key x" "Next (ungot x) = Next x" "Previous (ungot x) = Previous x"
  "SLocked (BufLock (ungot x)) = 0" "BufRefs (ungot x) = BufRefs x - 1"
  by (simp_all add: ungot_def key_def)

lemma updBuf_links:
  "updBuf n (\<lambda>x. x\<lparr>Previous := v\<rparr>) s = Ret () (set_disk ((disk s)\<lparr>Buffers := set_Previous n v (bufs s)\<rparr>) s)"
  "updBuf n (\<lambda>x. x\<lparr>Next := v\<rparr>) s = Ret () (set_disk ((disk s)\<lparr>Buffers := set_Next n v (bufs s)\<rparr>) s)"
  by (simp_all add: set_Previous_def set_Next_def)

lemma diskBufferRelease_run:
  assumes "quiet i k s" "SLocked (BufLock (bufs s ! b)) \<noteq> 0" "BufRefs (bufs s ! b) = 1" "b < length (bufs s)"
  shows "diskBufferRelease b s =
    Ret () (set_disk ((disk s)\<lparr>Buffers := relink b ((bufs s)[b := ungot (bufs s ! b)])\<rparr>) (resync i s))"
proof -
  have q: "cpu_ok i s" "lock_free DiskBufferCacheLock s" "quiet i k (resync i s)" using quietD [OF assms(1)] assms(1) by simp_all
  let ?x = "bufs s ! b"
  have u: "?x\<lparr>BufLock := (BufLock ?x)\<lparr>SLocked := 0, Pid := 0\<rparr>, BufRefs := 0\<rparr> = ungot ?x"
    using assms(3) by (simp add: ungot_def)
  show ?thesis
    using q assms(2-4)
    by (simp add: diskBufferRelease_def kmonad isHoldingSleeplock_run [OF assms(1)] sleeplockRelease_run [OF q(3)]
        spinlockAcquire_ok [of i] spinlockRelease_ok [of i] u insertAtHead_def relink_def Let_def updBuf_links
        disk_ops_run(2) [of b "\<lambda>x. x\<lparr>BufRefs := BufRefs x - 1\<rparr>"] del: disk_ops_run(2))
qed

lemma find_drop: "\<not> P b \<Longrightarrow> List.find P (us @ b # vs) = List.find P (b # us @ vs)"
  by (induction us) auto

lemma diskBufferRelease_ok:
  assumes "quiet i k s" "cache_inv H (disk s) (us @ b # vs)" "b \<in> H"
  obtains t where "diskBufferRelease b s = Ret () t" "quiet i k t" "procs t = procs s"
    "cache_inv (H - {b}) (disk t) (b # us @ vs)" "controller (disk t) = controller (disk s)"
    "havedisk1 (disk t) = havedisk1 (disk s)" "\<And>c. c \<noteq> b \<Longrightarrow> core (bufs t ! c) = core (bufs s ! c)"
proof -
  note D = cache_invD [OF assms(2)]
  have "b \<in> set (us @ b # vs)" by simp
  then have b: "b < NBUF" "b < length (bufs s)" unfolding D(6) D(5) by simp_all
  let ?bs = "(bufs s)[b := ungot (bufs s ! b)]"
  let ?t = "set_disk ((disk s)\<lparr>Buffers := relink b ?bs\<rparr>) (resync i s)"
  have ok: "SLocked (BufLock (bufs s ! b)) \<noteq> 0" "BufRefs (bufs s ! b) = 1"
    using D(3) [OF b(1)] assms(3) by (simp_all add: buf_ok_def)
  have run: "diskBufferRelease b s = Ret () ?t" by (rule diskBufferRelease_run [OF assms(1) ok b(2)])
  note core = core_relink [of b ?bs]
  have keys: "key (relink b ?bs ! c) = key (bufs s ! c)" for c
    using coreD(2) [OF core, of c] b by (simp add: nth_list_update split: if_splits)
  have other: "core (relink b ?bs ! c) = core (bufs s ! c)" if "c \<noteq> b" for c
    using core [of c] that by simp
  have found: "found (relink b ?bs) (b # us @ vs) (key (relink b ?bs ! c)) = Some c"
    if "c < NBUF" "c \<in> H - {b} \<or> Flags (relink b ?bs ! c) = B_VALID" for c
  proof (cases "c = b")
    case True
    then show ?thesis by (simp add: found_def)
  next
    case False
    then have "c \<in> H \<or> Flags (bufs s ! c) = B_VALID" using that(2) coreD(1) [OF other] by auto
    then have f: "found (bufs s) (us @ b # vs) (key (bufs s ! c)) = Some c" using D(4) that(1) by blast
    moreover have "found (bufs s) (us @ b # vs) (key (bufs s ! b)) = Some b" using D(4) b(1) assms(3) by blast
    ultimately have "key (bufs s ! b) \<noteq> key (bufs s ! c)" using False by auto
    then show ?thesis using f unfolding found_def keys by (simp add: find_drop del: find.simps)
  qed
  have "buf_ok (controller (disk s)) (H - {b}) c (relink b ?bs ! c)" if "c < NBUF" for c
  proof (cases "c = b")
    case True
    then show ?thesis
      using D(3) [OF b(1)] assms(3) coreD [OF core, of b] b(2) by (simp add: buf_ok_def)
  next
    case False
    then show ?thesis using D(3) [OF that] coreD [OF other [OF False]] by (simp add: buf_ok_def)
  qed
  moreover have "links (relink b ?bs) (b # us @ vs)"
    by (rule links_relink, rule links_upd [OF D(1)]) simp_all
  ultimately have "cache_inv (H - {b}) (disk ?t) (b # us @ vs)"
    using found D(2) by (simp add: cache_inv_def)
  then show thesis using that [OF run] assms(1) other by simp
qed

text \<open>Writing: the process stores \<open>bs\<close> in the buffer it holds and calls \<^verbatim>\<open>diskBufferWrite\<close>.\<close>

lemma dirty_flags: "(f OR B_DIRTY) AND B_DIRTY \<noteq> 0" "(f OR B_DIRTY) AND (B_VALID OR B_DIRTY) \<noteq> B_VALID"
proof -
  have "bit ((f OR B_DIRTY) AND B_DIRTY) 2" "bit ((f OR B_DIRTY) AND (B_VALID OR B_DIRTY)) 2" "\<not> bit B_VALID 2"
    by (simp_all add: bit_simps bit_buffer_flags)
  then show "(f OR B_DIRTY) AND B_DIRTY \<noteq> 0" "(f OR B_DIRTY) AND (B_VALID OR B_DIRTY) \<noteq> B_VALID"
    by (metis bit_0_eq bot_apply bot_bool_def, metis)
qed

lemma word_less_2: "(d :: u32) < 2 \<Longrightarrow> d = 0 \<or> d = 1"
proof -
  assume "d < 2"
  then have "unat d = 0 \<or> unat d = 1" by (simp add: word_less_nat_alt) linarith
  then show "d = 0 \<or> d = 1" by (metis unat_0 unat_1 word_unat_eq_iff)
qed

lemma low_bit_device: "(d :: u32) < 2 \<Longrightarrow> e < 2 \<Longrightarrow> bit d 0 = bit e 0 \<Longrightarrow> d = e"
  by (drule word_less_2)+ auto

definition storeAndWrite :: "nat \<Rightarrow> byte list \<Rightarrow> ('a kdisk_scheme, unit) op" where
  "storeAndWrite b bs = bindK (updBuf b (\<lambda>x. x\<lparr>BufData := bs\<rparr>)) (\<lambda>_. diskBufferWrite b)"

lemma diskBufferWrite_ok:
  assumes "quiet i k s" "cache_inv H (disk s) xs" "b \<in> H" "b < NBUF" "Flags (bufs s ! b) = B_VALID"
    and "Device (bufs s ! b) = 0 \<or> havedisk1 (disk s) \<noteq> 0"
  obtains t where "storeAndWrite b bs s = Ret () t" "quiet i k t" "procs t = procs s" "cache_inv H (disk t) xs"
    "drives (controller (disk t)) = (drives (controller (disk s)))(bit (Device (bufs s ! b)) 0 :=
       (drives (controller (disk s)) (bit (Device (bufs s ! b)) 0))(SectorNumber (bufs s ! b) := bs))"
    "havedisk1 (disk t) = havedisk1 (disk s)" "\<And>c. c \<noteq> b \<Longrightarrow> bufs t ! c = bufs s ! c"
proof -
  note D = cache_invD [OF assms(2)]
  let ?x = "bufs s ! b" and ?c = "controller (disk s)"
  let ?y = "?x\<lparr>BufData := bs, Flags := Flags ?x OR B_DIRTY\<rparr>"
  let ?s = "set_disk ((disk s)\<lparr>Buffers := (bufs s)[b := ?y]\<rparr>) (resync i s)"
  have b: "b < length (bufs s)" using assms(4) D(5) by simp
  have x: "SLocked (BufLock ?x) \<noteq> 0" "BufRefs ?x = 1" "Device ?x < 2" "SectorNumber ?x < 2 ^ 28"
    using D(3) [OF assms(4)] assms(3,5) by (auto simp: buf_ok_def)
  have s: "quiet i k ?s" "ide_good (disk ?s)" "b < length (bufs ?s)" "SLocked (BufLock (bufs ?s ! b)) \<noteq> 0"
      "Flags (bufs ?s ! b) AND (B_VALID OR B_DIRTY) \<noteq> B_VALID" "Device (bufs ?s ! b) = 0 \<or> havedisk1 (disk ?s) \<noteq> 0"
      "SectorNumber (bufs ?s ! b) < 2 ^ 28"
    using assms(1,6) D(2) b x dirty_flags(2) by simp_all
  obtain t where t: "ideReadWrite b ?s = Ret () t" "quiet i k t" "procs t = procs ?s" "disk t = ide_done b (disk ?s)"
    by (rule ideReadWrite_run [OF s])
  have q: "quiet i k (set_disk ((disk s)\<lparr>Buffers := (bufs s)[b := ?x\<lparr>BufData := bs\<rparr>]\<rparr>) s)" using assms(1) by simp
  have "storeAndWrite b bs s = Ret () t"
    using x(1) b t(1) by (simp add: storeAndWrite_def kmonad diskBufferWrite_def isHoldingSleeplock_run [OF q])
  moreover have d: "bufs t ! b = ?x\<lparr>BufData := bs, Flags := B_VALID, QueueNext := None\<rparr>"
      "bufs t = (bufs s)[b := bufs t ! b]" "ide_good (disk t)" "havedisk1 (disk t) = havedisk1 (disk s)"
      "drives (controller (disk t)) = (drives ?c)(bit (Device ?x) 0 := (drives ?c (bit (Device ?x) 0))(SectorNumber ?x := bs))"
  proof -
    have "((B_VALID OR B_DIRTY) OR B_VALID) AND NOT B_DIRTY = B_VALID"
      by (rule bit_word_eqI) (auto simp: bit_simps bit_buffer_flags)
    then show "bufs t ! b = ?x\<lparr>BufData := bs, Flags := B_VALID, QueueNext := None\<rparr>"
      unfolding t(4) using b assms(5) dirty_flags(1) by (simp add: ide_done_def Let_def)
    show "bufs t = (bufs s)[b := bufs t ! b]" "ide_good (disk t)" "havedisk1 (disk t) = havedisk1 (disk s)"
      unfolding t(4) using b D(2) by (simp_all add: ide_done_def Let_def ide_good_def)
    show "drives (controller (disk t)) = (drives ?c)(bit (Device ?x) 0 := (drives ?c (bit (Device ?x) 0))(SectorNumber ?x := bs))"
      unfolding t(4) using b dirty_flags(1) by (simp add: ide_done_def Let_def drives_ide_started)
  qed
  moreover have "cache_inv (insert b H) (disk t) xs"
  proof (rule cache_upd [OF assms(2,4)])
    have first: "List.find (\<lambda>c. key (bufs s ! c) = key ?x) xs = Some b"
      using D(4) [OF assms(4)] assms(3) by (simp add: found_def)
    have k: "key (bufs t ! b) = key ?x" "Flags (bufs t ! b) = B_VALID" "BufLock (bufs t ! b) = BufLock ?x"
        "BufRefs (bufs t ! b) = BufRefs ?x" "Device (bufs t ! b) = Device ?x" "SectorNumber (bufs t ! b) = SectorNumber ?x"
        "BufData (bufs t ! b) = bs"
      unfolding d(1) by (simp_all add: key_def)
    show "Buffers (disk t) = (bufs s)[b := bufs t ! b]" by (rule d(2))
    show "Next (bufs t ! b) = Next ?x" "Previous (bufs t ! b) = Previous ?x" unfolding d(1) by simp_all
    show other: "key (bufs s ! c) \<noteq> key (bufs t ! b)"
      if "c < NBUF" "c \<noteq> b" "c \<in> H \<or> Flags (bufs s ! c) = B_VALID" for c
      using D(4) [OF that(1,3)] first that(2) unfolding k(1) found_def by auto
    show "found ((bufs s)[b := bufs t ! b]) xs (key (bufs t ! b)) = Some b"
      unfolding found_def k(1) by (rule find_weaken [OF first]) (use b k(1) in \<open>auto simp: nth_list_update\<close>)
    show "buf_ok (controller (disk t)) (insert b H) b (bufs t ! b)"
      using x k by (simp add: buf_ok_def onDisk_def d(5))
    show "buf_ok (controller (disk t)) H c (bufs s ! c)" if "c < NBUF" "c \<noteq> b" for c
    proof (cases "Flags (bufs s ! c) = B_VALID")
      case True
      have c: "buf_ok ?c H c (bufs s ! c)" by (rule D(3) [OF that(1)])
      then have "Device (bufs s ! c) < 2" using True by (simp add: buf_ok_def)
      then have "bit (Device (bufs s ! c)) 0 = bit (Device ?x) 0 \<Longrightarrow> Device (bufs s ! c) = Device ?x"
        using x(3) by (rule low_bit_device)
      moreover have "key (bufs s ! c) \<noteq> key ?x" using other [OF that] True k(1) by simp
      ultimately show ?thesis using c by (auto simp: buf_ok_def onDisk_def d(5) key_def)
    qed (use D(3) [OF that(1)] in \<open>simp add: buf_ok_def\<close>)
  qed (rule d(3))
  moreover have "insert b H = H" using assms(3) by blast
  moreover have "bufs t ! c = bufs s ! c" if "c \<noteq> b" for c using that by (subst d(2)) simp
  ultimately show thesis using that t(2,3) by simp
qed

section \<open>Initialisation\<close>

definition fresh :: "nat \<Rightarrow> DiskBuffer \<Rightarrow> bool" where
  "fresh b x \<longleftrightarrow> Flags x = 0 \<and> BufRefs x = 0"

definition listed :: "nat \<Rightarrow> 'a kdisk_scheme \<Rightarrow> 'a kdisk_scheme \<Rightarrow> bool" where
  "listed n s t \<longleftrightarrow> length (bufs t) = Suc NBUF \<and>
     chain (\<lambda>b. Next (bufs t ! b)) (\<lambda>b. Previous (bufs t ! b)) (HEAD # rev [0..<n] @ [HEAD]) \<and>
     (\<forall>b < n. SLocked (BufLock (bufs t ! b)) = 0) \<and>
     (\<forall>b. Flags (bufs t ! b) = Flags (bufs s ! b) \<and> BufRefs (bufs t ! b) = BufRefs (bufs s ! b)) \<and>
     disk t = (disk s)\<lparr>Buffers := bufs t\<rparr> \<and> (\<forall>i k. quiet i k s \<longrightarrow> quiet i k t)"

definition add_buffer :: "nat \<Rightarrow> DiskBuffer list \<Rightarrow> DiskBuffer list" where
  "add_buffer b bs =
     (let h = Next (bs ! HEAD);
          bs = bs[b := (bs ! b)\<lparr>Next := h, Previous := HEAD, BufLock := \<lparr>SLocked = 0, SName = ''buffer'', Pid = 0\<rparr>\<rparr>];
          bs = set_Previous (Next (bs ! HEAD)) b bs
      in set_Next HEAD b bs)"

lemma core_fields:
  "Flags (core x) = Flags x" "BufRefs (core x) = BufRefs x" "BufLock (core x) = BufLock x"
  by (simp_all add: core_def)

lemma add_buffer_chain:
  assumes "chain (\<lambda>x. Next (bs ! x)) (\<lambda>x. Previous (bs ! x)) (HEAD # xs @ [HEAD])" "b \<notin> set xs" "distinct xs"
    and "b < NBUF" "set xs \<subseteq> {..<NBUF}" "length bs = Suc NBUF"
  shows "chain (\<lambda>x. Next (add_buffer b bs ! x)) (\<lambda>x. Previous (add_buffer b bs ! x)) (HEAD # (b # xs) @ [HEAD])"
proof -
  let ?nx = "\<lambda>x. Next (bs ! x)" and ?pv = "\<lambda>x. Previous (bs ! x)"
  obtain m ws where w: "xs @ [HEAD] = m # ws" by (cases "xs @ [HEAD]") auto
  have c: "chain ?nx ?pv (HEAD # m # ws)" using assms(1) w by simp
  then have h: "Next (bs ! HEAD) = m" by simp
  have mem: "x < length bs" if "x \<in> set (m # ws)" for x
    using that assms(5,6) unfolding w [symmetric] by (auto simp: HEAD_def)
  let ?b1 = "bs[b := (bs ! b)\<lparr>Next := m, Previous := HEAD, BufLock := \<lparr>SLocked = 0, SName = ''buffer'', Pid = 0\<rparr>\<rparr>]"
  have l1: "linked ?b1 (?nx(b := m)) (?pv(b := HEAD))"
    using assms(4,6) by (auto simp: linked_def fun_eq_iff nth_list_update)
  have h1: "Next (?b1 ! HEAD) = m" using linked_get(1) [OF l1, of HEAD] h assms(4) by auto
  have l3: "linked (set_Next HEAD b (set_Previous m b ?b1)) (?nx(b := m, HEAD := b)) (?pv(b := HEAD, m := b))"
    using mem [of m] assms(6) by (intro linked_set l1) (simp_all add: HEAD_def)
  have a: "add_buffer b bs = set_Next HEAD b (set_Previous m b ?b1)"
    unfolding add_buffer_def Let_def h h1 ..
  have "distinct (m # ws)" "b \<notin> set (m # ws)" "b \<noteq> HEAD" "HEAD \<notin> set (butlast (m # ws))"
    unfolding w [symmetric] using assms(2-5) by (auto simp: butlast_append)
  then have "chain (?nx(b := m, HEAD := b)) (?pv(b := HEAD, m := b)) (HEAD # b # m # ws)"
    by (intro chain_insert c) simp_all
  then show ?thesis
    unfolding a using l3 w by (simp add: linked_def)
qed

lemma add_buffer_fields:
  assumes "length bs = Suc NBUF"
  shows "length (add_buffer b bs) = Suc NBUF" "Flags (add_buffer b bs ! x) = Flags (bs ! x)"
    "BufRefs (add_buffer b bs ! x) = BufRefs (bs ! x)"
    "b < NBUF \<Longrightarrow> SLocked (BufLock (add_buffer b bs ! x)) = (if x = b then 0 else SLocked (BufLock (bs ! x)))"
proof -
  let ?b1 = "bs[b := (bs ! b)\<lparr>Next := Next (bs ! HEAD), Previous := HEAD, BufLock := \<lparr>SLocked = 0, SName = ''buffer'', Pid = 0\<rparr>\<rparr>]"
  have c: "core (add_buffer b bs ! x) = core (?b1 ! x)" by (simp add: add_buffer_def Let_def)
  show "length (add_buffer b bs) = Suc NBUF" using assms by (simp add: add_buffer_def Let_def)
  show "Flags (add_buffer b bs ! x) = Flags (bs ! x)" "BufRefs (add_buffer b bs ! x) = BufRefs (bs ! x)"
    unfolding coreD [OF c] by (cases "b < length bs"; auto simp: nth_list_update list_update_beyond)+
  show "b < NBUF \<Longrightarrow> SLocked (BufLock (add_buffer b bs ! x)) = (if x = b then 0 else SLocked (BufLock (bs ! x)))"
    unfolding coreD [OF c] using assms by (auto simp: nth_list_update)
qed

lemma quiet_lock_init:
  "quiet i k s \<Longrightarrow> quiet i k (s\<lparr>locks := (locks s)(l := \<lparr>Locked = 0, LockName = n, Holder = None\<rparr>)\<rparr>)"
  by (simp add: quiet_def lock_free_def depth_def curproc_def)

lemma add_buffer_step:
  "\<exists>u. (bindK (getBuf HEAD) (\<lambda>h. bindK (updBuf b (\<lambda>x. x\<lparr>Next := Next h, Previous := HEAD\<rparr>)) (\<lambda>_.
      bindK (sleeplockInitialise b ''buffer'') (\<lambda>_. insertAtHead b)))) t = Ret () u \<and>
     disk u = (disk t)\<lparr>Buffers := add_buffer b (bufs t)\<rparr> \<and> (\<forall>i k. quiet i k t \<longrightarrow> quiet i k u)"
proof (cases "b < length (bufs t)")
  case True
  have l: "disk (locks_update f s) = disk s" "locks_update f (set_disk d s) = set_disk d (locks_update f s)" "locks (set_disk d s) = locks s"
    for f d and s :: "'a kdisk_scheme" by (simp_all add: set_disk_def)
  show ?thesis
    using True quiet_lock_init [of _ _ t "SleeplockSpinlock b" "''sleep lock''"] by (simp add: kmonad sleeplockInitialise_def spinlockInitialise_def insertAtHead_def add_buffer_def Let_def
        set_Previous_def set_Next_def l)
next
  case False
  have l: "disk (locks_update f s) = disk s" "locks_update f (set_disk d s) = set_disk d (locks_update f s)" "locks (set_disk d s) = locks s"
    for f d and s :: "'a kdisk_scheme" by (simp_all add: set_disk_def)
  show ?thesis
    using False quiet_lock_init [of _ _ t "SleeplockSpinlock b" "''sleep lock''"]
    by (simp add: kmonad sleeplockInitialise_def spinlockInitialise_def insertAtHead_def add_buffer_def Let_def
        set_Previous_def set_Next_def list_update_beyond l)
qed

lemma listed_step:
  assumes "listed n s t" "n < NBUF" "disk u = (disk t)\<lparr>Buffers := add_buffer n (bufs t)\<rparr>"
    and "\<forall>i k. quiet i k t \<longrightarrow> quiet i k u"
  shows "listed (Suc n) s u"
proof -
  have t: "length (bufs t) = Suc NBUF" using assms(1) by (simp add: listed_def)
  have b: "bufs u = add_buffer n (bufs t)" using assms(3) by simp
  have c: "chain (\<lambda>x. Next (bufs u ! x)) (\<lambda>x. Previous (bufs u ! x)) (HEAD # (n # rev [0..<n]) @ [HEAD])"
    unfolding b using assms(1,2) by (intro add_buffer_chain) (auto simp: listed_def)
  have d: "disk t = (disk s)\<lparr>Buffers := bufs t\<rparr>" using assms(1) by (simp add: listed_def)
  have "disk u = (disk s)\<lparr>Buffers := bufs u\<rparr>"
    unfolding b assms(3) by (subst d) simp
  then show ?thesis
    using c assms(1,2,4) add_buffer_fields [OF t] unfolding listed_def b by (simp add: less_Suc_eq)
qed

lemma diskBufferCacheInitialise_listed:
  assumes "length (bufs s) = Suc NBUF"
  obtains t where "diskBufferCacheInitialise s = Ret () t" "listed NBUF s t"
proof -
  let ?body = "\<lambda>b. bindK (getBuf HEAD) (\<lambda>h. bindK (updBuf b (\<lambda>x. x\<lparr>Next := Next h, Previous := HEAD\<rparr>)) (\<lambda>_.
      bindK (sleeplockInitialise b ''buffer'') (\<lambda>_. insertAtHead b)))"
  let ?s = "s\<lparr>locks := (locks s)(DiskBufferCacheLock := \<lparr>Locked = 0, LockName = ''diskBufferCache'', Holder = None\<rparr>)\<rparr>"
  let ?t = "set_disk ((disk s)\<lparr>Buffers := (bufs s)[HEAD := (bufs s ! HEAD)\<lparr>Previous := HEAD, Next := HEAD\<rparr>]\<rparr>) ?s"
  have run: "diskBufferCacheInitialise s = foreachK [0..<NBUF] ?body ?t"
    using assms by (simp add: diskBufferCacheInitialise_def kmonad spinlockInitialise_def set_disk_def)
  have "n \<le> NBUF \<Longrightarrow> \<exists>t. foreachK [0..<n] ?body ?t = Ret () t \<and> listed n s t" for n
  proof (induction n)
    case 0
    then show ?case using assms quiet_lock_init [of _ _ s, unfolded fun_upd_def] by (auto simp: kmonad fun_upd_def listed_def nth_list_update HEAD_def)
  next
    case (Suc n)
    from Suc.IH [OF Suc_leD [OF Suc.prems]]
    obtain t where t: "foreachK [0..<n] ?body ?t = Ret () t" "listed n s t" by blast
    obtain u where u: "?body n t = Ret () u" "disk u = (disk t)\<lparr>Buffers := add_buffer n (bufs t)\<rparr>"
        "\<forall>i k. quiet i k t \<longrightarrow> quiet i k u"
      using add_buffer_step [of n t] by blast
    have "foreachK [0..<Suc n] ?body ?t = Ret () u"
      using t(1) u(1) by (simp add: foreachK_append kmonad)
    then show ?case using listed_step [OF t(2) Suc_le_lessD [OF Suc.prems] u(2,3)] by blast
  qed
  from this [OF order_refl] obtain t where t: "foreachK [0..<NBUF] ?body ?t = Ret () t" "listed NBUF s t" by blast
  show thesis by (rule that [OF _ t(2)]) (simp only: run t(1))
qed

lemma fresh_cache:
  assumes "listed NBUF s t" "\<forall>b < NBUF. Flags (bufs s ! b) = 0 \<and> BufRefs (bufs s ! b) = 0" "ide_good (disk s)"
  shows "cache_inv {} (disk t) (rev [0..<NBUF])"
proof -
  have d: "disk t = (disk s)\<lparr>Buffers := bufs t\<rparr>" using assms(1) by (simp add: listed_def)
  have "ide_good (disk t)" by (subst d) (simp add: assms(3))
  moreover have "B_VALID \<noteq> 0" by (simp add: B_VALID_def)
  ultimately show ?thesis
    using assms(1,2) by (auto simp: cache_inv_def links_def listed_def buf_ok_def)
qed

section \<open>The cache as a block device\<close>

text \<open>
  \<open>above_disk\<close>: a field above the disk is kept by every operation on it.  \<open>block_device\<close> is the contract that
  the file system relies on: a sector that was read is the one on the disk, until it is released.
\<close>

locale above_disk = proc_field sel
  for sel :: "'a kdisk_scheme \<Rightarrow> 'f" +
  assumes sel_disk: "sel (s\<lparr>disk := d\<rparr>) = sel s"
begin

lemma keeps_disk_ops [keep_rules]:
  "keeps sel (getBuf b)" "keeps sel (updBuf b f)" "keeps sel (updIde g)" "keeps sel (setQueue q)"
  "keeps sel (ideWait c)" "keeps sel (outputByteToIde p v)" "keeps sel (outputSequenceToIde bs)"
  "keeps sel inputSequenceFromIde"
  by (auto simp: getBuf_def updBuf_def updIde_def setQueue_def ideWait_def outputByteToIde_def outputSequenceToIde_def
      inputSequenceFromIde_def sel_disk intro!: keep_rules keeps_modifyK)

lemma keeps_unblocked [keep_rules]: "keeps sel m \<Longrightarrow> keeps sel (unblocked m)"
  unfolding unblocked_def by (rule keeps_bindK) (auto intro!: keep_rules split: progress.split)

lemma keeps_sleeplock [keep_rules]:
  "keeps sel (sleeplockAcquire b)" "keeps sel (sleeplockRelease b)" "keeps sel (isHoldingSleeplock b)"
  by (auto simp: sleeplockAcquire_def sleeplockAcquire_loop_def sleeplockRelease_def isHoldingSleeplock_def
      intro!: keep_rules)

lemma keeps_start [keep_rules]: "keeps sel (ideStartRequest r)"
  by (auto simp: ideStartRequest_def intro!: keep_rules)

lemma keeps_handler [keep_rules]: "keeps sel ideInterruptHandler" "keeps sel (enqueue b)"
  by (auto simp: ideInterruptHandler_def enqueue_def intro!: keep_rules)

lemma keeps_idle [keep_rules]: "keeps sel (idle_until_disk k)"
  by (auto simp: idle_until_disk_def intro!: keep_rules)

lemma keeps_wait [keep_rules]: "keeps sel (ideReadWrite_wait n b)"
proof (induction n)
  case (Suc n)
  then show ?case by (auto intro!: keep_rules)
qed (simp add: keeps_def)

lemma keeps_ideReadWrite [keep_rules]: "keeps sel (ideReadWrite b)"
  by (auto simp: ideReadWrite_def intro!: keep_rules)

lemma keeps_bio [keep_rules]:
  "keeps sel (diskBufferGet dev sec)" "keeps sel (diskBufferRead dev sec)" "keeps sel (diskBufferWrite b)"
  "keeps sel (diskBufferRelease b)"
  by (auto simp: diskBufferGet_def diskBufferRead_def diskBufferWrite_def diskBufferRelease_def insertAtHead_def
      intro!: keep_rules)

end

interpretation FileTab_keeps: above_disk FileTab by unfold_locales simp_all

locale block_device =
  fixes ready :: "'s \<Rightarrow> bool" and holding :: "nat \<Rightarrow> 's \<Rightarrow> bool" and image :: "'s \<Rightarrow> u32 \<Rightarrow> byte list"
    and rest :: "'s \<Rightarrow> 'r" and contents :: "'s \<Rightarrow> nat \<Rightarrow> byte list"
    and rd :: "u32 \<Rightarrow> ('s, nat) op" and rel :: "nat \<Rightarrow> ('s, unit) op"
  assumes rd: "ready s \<Longrightarrow> sec < 2 ^ 28 \<Longrightarrow> \<exists>b t. rd sec s = Ret b t \<and> holding b t \<and> contents t b = image s sec \<and>
      image t = image s \<and> rest t = rest s"
    and rel: "holding b s \<Longrightarrow> \<exists>t. rel b s = Ret () t \<and> ready t \<and> image t = image s \<and> rest t = rest s"
begin

text \<open>Reading a sector, using its contents and releasing the buffer, the pattern of every use.\<close>

lemma use_sector:
  assumes "ready s" "sec < 2 ^ 28"
  obtains t where "\<And>f. bindK (rd sec) (\<lambda>b. bindK (getK (\<lambda>s. contents s b)) (\<lambda>d. bindK (rel b) (\<lambda>_. f d))) s = f (image s sec) t"
    "ready t" "image t = image s" "rest t = rest s"
proof -
  obtain b t where t: "rd sec s = Ret b t" "holding b t" "contents t b = image s sec" "image t = image s" "rest t = rest s"
    using rd [OF assms] by blast
  obtain u where u: "rel b t = Ret () u" "ready u" "image u = image t" "rest u = rest t"
    using rel [OF t(2)] by blast
  show thesis
    by (rule that [of u]) (use t u in \<open>simp_all add: kmonad\<close>)
qed

fun fetch_all :: "u32 list \<Rightarrow> ('s, byte list list) op" where
  "fetch_all [] = returnK []"
| "fetch_all (sec # secs) =
     bindK (rd sec) (\<lambda>b. bindK (getK (\<lambda>s. contents s b)) (\<lambda>d. bindK (rel b) (\<lambda>_.
     bindK (fetch_all secs) (\<lambda>ds. returnK (d # ds)))))"

lemma fetch_all_ok:
  "ready s \<Longrightarrow> \<forall>sec \<in> set secs. sec < 2 ^ 28 \<Longrightarrow>
   \<exists>t. fetch_all secs s = Ret (map (image s) secs) t \<and> ready t \<and> image t = image s \<and> rest t = rest s"
proof (induction secs arbitrary: s)
  case (Cons sec secs)
  obtain t where t: "\<And>f :: byte list \<Rightarrow> ('s, byte list list) op. bindK (rd sec) (\<lambda>b. bindK (getK (\<lambda>s. contents s b)) (\<lambda>d. bindK (rel b) (\<lambda>_. f d))) s = f (image s sec) t"
      "ready t" "image t = image s" "rest t = rest s"
    using use_sector [of s sec] Cons.prems by auto
  have step: "fetch_all (sec # secs) s = bindK (fetch_all secs) (\<lambda>ds. returnK (image s sec # ds)) t"
    unfolding fetch_all.simps by (rule t(1))
  obtain u where "fetch_all secs t = Ret (map (image t) secs) u" "ready u" "image u = image t" "rest u = rest t"
    using Cons.IH [OF t(2)] Cons.prems(2) by auto
  then show ?case unfolding step using t(2-4) by (simp add: kmonad)
qed (simp add: kmonad)

end

definition disk_ready :: "nat \<Rightarrow> nat \<Rightarrow> 'a kdisk_scheme \<Rightarrow> bool" where
  "disk_ready i k s \<longleftrightarrow> quiet i k s \<and> (\<exists>xs. cache_inv {} (disk s) xs)"

definition buf_held :: "nat \<Rightarrow> nat \<Rightarrow> nat \<Rightarrow> 'a kdisk_scheme \<Rightarrow> bool" where
  "buf_held i k b s \<longleftrightarrow> quiet i k s \<and> b < NBUF \<and> (\<exists>xs. cache_inv {b} (disk s) xs)"

definition sector0 :: "'a kdisk_scheme \<Rightarrow> u32 \<Rightarrow> byte list" where
  "sector0 s sec = onDisk (controller (disk s)) 0 sec"

lemma disk_read0:
  assumes "disk_ready i k s" "sec < 2 ^ 28"
  obtains b t where "diskBufferRead 0 sec s = Ret b t" "buf_held i k b t" "BufData (bufs t ! b) = sector0 s sec"
    "sector0 t = sector0 s" "procs t = procs s"
proof -
  obtain xs where xs: "quiet i k s" "cache_inv {} (disk s) xs" using assms(1) by (auto simp: disk_ready_def)
  have "0 \<in> {..<NBUF}" by (simp add: NBUF_def)
  then have n: "{} \<subset> {..<NBUF}" by blast
  obtain b t where t: "diskBufferRead 0 sec s = Ret b t" "quiet i k t" "procs t = procs s" "b < NBUF"
      "cache_inv (insert b {}) (disk t) xs" "BufData (bufs t ! b) = onDisk (controller (disk s)) 0 sec"
      "drives (controller (disk t)) = drives (controller (disk s))"
    by (rule diskBufferRead_ok [OF xs _ n, of 0 sec]) (use assms(2) in simp_all)
  show thesis
    using that [OF t(1)] t by (auto simp: buf_held_def sector0_def onDisk_def fun_eq_iff)
qed

lemma disk_release0:
  assumes "buf_held i k b s"
  obtains t where "diskBufferRelease b s = Ret () t" "disk_ready i k t" "sector0 t = sector0 s" "procs t = procs s"
proof -
  obtain xs where xs: "quiet i k s" "b < NBUF" "cache_inv {b} (disk s) xs" using assms by (auto simp: buf_held_def)
  then have "b \<in> set xs" using cache_invD(6) by blast
  then obtain us vs where "xs = us @ b # vs" by (meson split_list)
  then obtain t where "diskBufferRelease b s = Ret () t" "quiet i k t" "procs t = procs s"
      "cache_inv {} (disk t) (b # us @ vs)" "controller (disk t) = controller (disk s)"
    using diskBufferRelease_ok [of i k s "{b}" us b vs] xs by auto
  then show thesis using that by (auto simp: disk_ready_def sector0_def fun_eq_iff)
qed

interpretation bio: block_device "disk_ready i k" "buf_held i k" sector0 "\<lambda>s. (procs s, FileTab s)" "\<lambda>s b. BufData (bufs s ! b)"
  "diskBufferRead 0" diskBufferRelease for i k
proof
  fix s :: "'a kdisk_scheme" and sec :: u32 and b
  show "\<exists>b t. diskBufferRead 0 sec s = Ret b t \<and> buf_held i k b t \<and> BufData (bufs t ! b) = sector0 s sec \<and>
      sector0 t = sector0 s \<and> (procs t, FileTab t) = (procs s, FileTab s)" if "disk_ready i k s" "sec < 2 ^ 28"
    using disk_read0 [OF that] keepsD [OF FileTab_keeps.keeps_bio(2)] by (metis (no_types, lifting))
  show "\<exists>t. diskBufferRelease b s = Ret () t \<and> disk_ready i k t \<and> sector0 t = sector0 s \<and>
      (procs t, FileTab t) = (procs s, FileTab s)" if "buf_held i k b s"
    using disk_release0 [OF that] keepsD [OF FileTab_keeps.keeps_bio(4)] by (metis (no_types, lifting))
qed

section \<open>Properties\<close>

definition blank_buffer :: DiskBuffer where
  "blank_buffer = \<lparr>Flags = 0, Device = 0, SectorNumber = 0, BufLock = \<lparr>SLocked = 0, SName = [], Pid = 0\<rparr>, BufRefs = 0,
     Previous = 0, Next = 0, QueueNext = None, BufData = replicate 512 0\<rparr>"

definition blank_disk :: "(u32 \<Rightarrow> byte list) \<Rightarrow> DiskState" where
  "blank_disk img = \<lparr>Buffers = replicate (Suc NBUF) blank_buffer, idequeue = None, havedisk1 = 0,
     controller = \<lparr>taskFile = (\<lambda>_. 0), ideStatus = 0x40, ideCommand = 0, drives = (\<lambda>_. img)\<rparr>\<rparr>"

definition disk_boot :: "(u32 \<Rightarrow> byte list) \<Rightarrow> kdisk" where
  "disk_boot img = kfile.extend file_boot \<lparr>disk = blank_disk img\<rparr>"

lemma disk_boot_quiet: "quiet 0 0 (disk_boot img)" "disk (disk_boot img) = blank_disk img"
proof -
  show "disk (disk_boot img) = blank_disk img" by (simp add: disk_boot_def kfile.defs)
  have sel: "cpus (disk_boot img) = cpus file_boot" "ncpu (disk_boot img) = ncpu file_boot" "localApicId (disk_boot img) = localApicId file_boot"
    "eflags (disk_boot img) = eflags file_boot" "locks (disk_boot img) = locks file_boot" "processTable (disk_boot img) = processTable file_boot"
    by (simp_all add: disk_boot_def kfile.defs)
  have ps: "procs (disk_boot img) = live_process RUNNING 1 # replicate (NPROC - 1) blank_process"
    unfolding sel by (simp add: pipe_boot_def)
  have "State ((live_process RUNNING 1 # replicate (NPROC - 1) blank_process) ! m) = UNUSED" if "m < NPROC" "m \<noteq> 0" for m
    using that by (cases m) (simp_all add: blank_process_def)
  then have "alone 0 (procs (disk_boot img))"
    unfolding ps by (simp add: alone_def NPROC_def live_process_def blank_process_def)
  then show "quiet 0 0 (disk_boot img)"
    using file_boot_ready(2-5) sel by (simp add: quiet_def cpu_ok_def cpu_index_def depth_def lock_free_def curproc_def)
qed

lemma blank_disk_sel [simp]:
  "length (Buffers (blank_disk img)) = Suc NBUF" "b < NBUF \<Longrightarrow> Buffers (blank_disk img) ! b = blank_buffer"
  "Flags blank_buffer = 0" "BufRefs blank_buffer = 0" "onDisk (controller (blank_disk img)) dev sec = img sec"
  "ide_good (blank_disk img)"
  by (simp_all add: blank_disk_def blank_buffer_def onDisk_def ide_good_def IDE_BUSY_def IDE_READY_def IDE_DRIVEFAULT_def
      IDE_ERROR_def del: replicate.simps)

text \<open>The boot state with the cache initialised.\<close>

lemma cache_boot:
  obtains t where "diskBufferCacheInitialise (disk_boot img) = Ret () t" "quiet 0 0 t" "cache_inv {} (disk t) (rev [0..<NBUF])"
    "drives (controller (disk t)) = (\<lambda>_. img)"
proof -
  have z: "\<forall>b < NBUF. Flags (bufs (disk_boot img) ! b) = 0 \<and> BufRefs (bufs (disk_boot img) ! b) = 0"
    unfolding disk_boot_quiet(2) by simp
  have n: "length (bufs (disk_boot img)) = Suc NBUF" "ide_good (disk (disk_boot img))"
    unfolding disk_boot_quiet(2) by simp_all
  obtain t where t: "diskBufferCacheInitialise (disk_boot img) = Ret () t" "listed NBUF (disk_boot img) t"
    by (rule diskBufferCacheInitialise_listed [OF n(1)])
  have "controller (disk t) = controller (disk (disk_boot img))"
    using t(2) by (simp add: listed_def) (metis DiskState.select_convs(4) DiskState.surjective DiskState.update_convs(1))
  then have "drives (controller (disk t)) = (\<lambda>_. img)"
    unfolding disk_boot_quiet(2) by (simp add: blank_disk_def)
  then show thesis
    using that [OF t(1) _ fresh_cache [OF t(2) z n(2)]] t(2) disk_boot_quiet(1) by (simp add: listed_def)
qed

text \<open>
  C5: the cache returns the disk.  The drive reports no error.  A process alone on its processor that reads a sector it does not already hold,
  while it holds fewer buffers than there are, gets a buffer that it did not hold, locked, with
  exactly the bytes of the sector on the disk, whether the sector was cached or had to be fetched with
  a sleep and a disk interrupt.  The cache stays coherent and the disk is unchanged.
\<close>

theorem cached_read_is_disk:
  assumes "quiet i k s" "cache_inv H (disk s) xs" "H \<subset> {..<NBUF}" "\<forall>b \<in> H. key (bufs s ! b) \<noteq> (dev, sec)"
    and "dev < 2" "sec < 2 ^ 28" "dev = 0 \<or> havedisk1 (disk s) \<noteq> 0"
  shows "\<exists>b t. diskBufferRead dev sec s = Ret b t \<and> b \<notin> H \<and> SLocked (BufLock (bufs t ! b)) \<noteq> 0 \<and>
    BufData (bufs t ! b) = onDisk (controller (disk s)) dev sec \<and> cache_inv (insert b H) (disk t) xs \<and>
    drives (controller (disk t)) = drives (controller (disk s)) \<and> quiet i k t \<and> procs t = procs s"
proof -
  obtain b t where t: "diskBufferRead dev sec s = Ret b t" "quiet i k t" "procs t = procs s" "b < NBUF" "b \<notin> H"
    "cache_inv (insert b H) (disk t) xs" "BufData (bufs t ! b) = onDisk (controller (disk s)) dev sec"
    "drives (controller (disk t)) = drives (controller (disk s))"
    by (rule diskBufferRead_ok [OF assms(1,2,4,3,5-7)])
  moreover have "SLocked (BufLock (bufs t ! b)) \<noteq> 0"
    using cache_invD(3) [OF t(6,4)] by (simp add: buf_ok_def)
  ultimately show ?thesis by blast
qed

theorem cached_read_is_disk_witness:
  "\<exists>s b t. diskBufferCacheInitialise (disk_boot (\<lambda>sec. [ucast sec])) = Ret () s \<and> diskBufferRead 0 7 s = Ret b t \<and>
    BufData (bufs t ! b) = [7]"
proof -
  obtain s where s: "diskBufferCacheInitialise (disk_boot (\<lambda>sec. [ucast sec])) = Ret () s" "quiet 0 0 s"
      "cache_inv {} (disk s) (rev [0..<NBUF])" "drives (controller (disk s)) = (\<lambda>_ sec. [ucast sec])"
    by (rule cache_boot)
  have "0 \<in> {..<NBUF}" by (simp add: NBUF_def)
  then have n: "{} \<subset> {..<NBUF}" by blast
  have "\<exists>b t. diskBufferRead 0 7 s = Ret b t \<and> BufData (bufs t ! b) = onDisk (controller (disk s)) 0 7"
    using cached_read_is_disk [OF s(2,3) n, of 0 7] by auto
  then show ?thesis using s(1,4) by (auto simp: onDisk_def)
qed

text \<open>
  C25: writing and reading back.  The drive reports no error.  A process alone on its processor reads a sector, stores new contents in the buffer, writes it and
  releases it.  Reading the sector again returns the new contents, they are on the disk, and no other
  sector of either drive changed.
\<close>

theorem write_back_roundtrip:
  assumes "quiet i k s" "cache_inv {} (disk s) xs" "dev < 2" "sec < 2 ^ 28" "dev = 0 \<or> havedisk1 (disk s) \<noteq> 0"
  shows "\<exists>b t u v b' w. diskBufferRead dev sec s = Ret b t \<and> storeAndWrite b bs t = Ret () u \<and>
    diskBufferRelease b u = Ret () v \<and> diskBufferRead dev sec v = Ret b' w \<and> BufData (bufs w ! b') = bs \<and>
    (\<forall>dev' sec'. dev' < 2 \<longrightarrow> onDisk (controller (disk w)) dev' sec' =
       (if dev' = dev \<and> sec' = sec then bs else onDisk (controller (disk s)) dev' sec'))"
proof -
  have "0 \<in> {..<NBUF}" by (simp add: NBUF_def)
  then have n: "{} \<subset> {..<NBUF}" by blast
  obtain b t where t: "diskBufferRead dev sec s = Ret b t" "quiet i k t" "b < NBUF" "cache_inv (insert b {}) (disk t) xs"
      "key (bufs t ! b) = (dev, sec)" "Flags (bufs t ! b) = B_VALID" "havedisk1 (disk t) = havedisk1 (disk s)"
      "drives (controller (disk t)) = drives (controller (disk s))"
    by (rule diskBufferRead_ok [OF assms(1,2) _ n assms(3-5)]) simp_all
  have k: "Device (bufs t ! b) = dev" "SectorNumber (bufs t ! b) = sec" "b \<in> {b}" using t(5) by (simp_all add: key_def)
  obtain u where u: "storeAndWrite b bs t = Ret () u" "quiet i k u" "cache_inv (insert b {}) (disk u) xs"
      "drives (controller (disk u)) = (drives (controller (disk t)))(bit dev 0 := (drives (controller (disk t)) (bit dev 0))(sec := bs))"
      "havedisk1 (disk u) = havedisk1 (disk t)"
    using diskBufferWrite_ok [OF t(2,4) k(3) t(3,6), of bs] assms(5) k(1,2) t(7) by metis
  have "b \<in> set xs" using cache_invD(6) [OF u(3)] t(3) by blast
  then obtain us vs where "xs = us @ b # vs" by (meson split_list)
  then obtain v where v: "diskBufferRelease b u = Ret () v" "quiet i k v" "cache_inv ({b} - {b}) (disk v) (b # us @ vs)"
      "controller (disk v) = controller (disk u)" "havedisk1 (disk v) = havedisk1 (disk u)"
    using diskBufferRelease_ok [OF u(2), of "{b}" us b vs] u(3) by blast
  have h: "cache_inv {} (disk v) (b # us @ vs)" "dev = 0 \<or> havedisk1 (disk v) \<noteq> 0" using v(3,5) u(5) t(7) assms(5) by simp_all
  obtain b' w where w: "diskBufferRead dev sec v = Ret b' w" "BufData (bufs w ! b') = onDisk (controller (disk v)) dev sec"
      "drives (controller (disk w)) = drives (controller (disk v))"
    by (rule diskBufferRead_ok [OF v(2) h(1) _ n assms(3,4) h(2)]) simp_all
  have "onDisk (controller (disk w)) dev' sec' = (if dev' = dev \<and> sec' = sec then bs else onDisk (controller (disk s)) dev' sec')"
    if "dev' < 2" for dev' sec'
    using low_bit_device [OF that assms(3)] by (auto simp: onDisk_def w(3) v(4) u(4) t(8))
  then show ?thesis
    using t(1) u(1) v(1) w(1,2) by (fastforce simp: onDisk_def v(4) u(4))
qed

theorem write_back_roundtrip_witness:
  "\<exists>s b t u v b' w. diskBufferCacheInitialise (disk_boot (\<lambda>_. [])) = Ret () s \<and> diskBufferRead 0 5 s = Ret b t \<and>
    storeAndWrite b [1, 2, 3] t = Ret () u \<and> diskBufferRelease b u = Ret () v \<and> diskBufferRead 0 5 v = Ret b' w \<and>
    BufData (bufs w ! b') = [1, 2, 3]"
proof -
  obtain s where s: "diskBufferCacheInitialise (disk_boot (\<lambda>_. [])) = Ret () s" "quiet 0 0 s"
      "cache_inv {} (disk s) (rev [0..<NBUF])"
    by (rule cache_boot)
  have "(0 :: u32) < 2" "(5 :: u32) < 2 ^ 28" "(0 :: u32) = 0 \<or> havedisk1 (disk s) \<noteq> 0" by simp_all
  from write_back_roundtrip [OF s(2,3) this, of "[1, 2, 3]"] s(1) show ?thesis by blast
qed

text \<open>
  C26: the list of the cache.  Initialisation links the buffers into one circular list, and releasing a buffer that
  the process holds and nobody else waits for moves it to the front of the list and leaves the order of the others; every
  buffer stays in the list exactly once and the buffer counts as unused afterwards.
\<close>

theorem release_moves_to_front:
  assumes "quiet i k s" "cache_inv H (disk s) xs" "b \<in> H" "b < NBUF"
  shows "\<exists>t. diskBufferRelease b s = Ret () t \<and> links (bufs t) (b # remove1 b xs) \<and>
    cache_inv (H - {b}) (disk t) (b # remove1 b xs) \<and> BufRefs (bufs t ! b) = 0 \<and> SLocked (BufLock (bufs t ! b)) = 0"
proof -
  have "b \<in> set xs" using cache_invD(6) [OF assms(2)] assms(4) by blast
  then obtain us vs where x: "xs = us @ b # vs" "b \<notin> set us" by (meson split_list_first)
  then have r: "us @ vs = remove1 b xs" by (simp add: remove1_append)
  obtain t where t: "diskBufferRelease b s = Ret () t" "cache_inv (H - {b}) (disk t) (b # us @ vs)"
    by (rule diskBufferRelease_ok [OF assms(1) assms(2) [unfolded x(1)] assms(3)])
  then show ?thesis
    using cache_invD(1) [OF t(2)] cache_invD(3) [OF t(2) assms(4)] unfolding r by (auto simp: buf_ok_def)
qed

theorem release_moves_to_front_witness:
  "\<exists>s b t u. diskBufferCacheInitialise (disk_boot (\<lambda>_. [])) = Ret () s \<and> diskBufferRead 0 5 s = Ret b t \<and>
    diskBufferRelease b t = Ret () u \<and> links (bufs u) (b # remove1 b (rev [0..<NBUF]))"
proof -
  obtain s where s: "diskBufferCacheInitialise (disk_boot (\<lambda>_. [])) = Ret () s" "quiet 0 0 s"
      "cache_inv {} (disk s) (rev [0..<NBUF])"
    by (rule cache_boot)
  have "0 \<in> {..<NBUF}" by (simp add: NBUF_def)
  then have n: "{} \<subset> {..<NBUF}" by blast
  obtain b t where t: "diskBufferRead 0 5 s = Ret b t" "quiet 0 0 t" "b < NBUF" "cache_inv (insert b {}) (disk t) (rev [0..<NBUF])"
    by (rule diskBufferRead_ok [OF s(2,3) _ n, of 0 5]) simp_all
  have "b \<in> insert b {}" by simp
  from release_moves_to_front [OF t(2,4) this t(3)] s(1) t(1) show ?thesis by blast
qed

text \<open>
  C39: a failed read.  When the drive reports a fault or an error at the end of a read, the interrupt handler
  leaves the data of the buffer as it was but marks the buffer valid, so the reader takes the old
  bytes for the contents of the sector.
\<close>

theorem failed_read_marked_valid:
  assumes "cpu_ok i s" "lock_free IdeLock s" "lock_free ProcessTableLock s" "length (procs s) = NPROC"
    and "idequeue (disk s) = Some b" "QueueNext (bufs s ! b) = None" "b < length (bufs s)" "Flags (bufs s ! b) = 0"
    and "ideStatus (controller (disk s)) AND (IDE_BUSY OR IDE_READY) = IDE_READY"
    and "ideStatus (controller (disk s)) AND (IDE_DRIVEFAULT OR IDE_ERROR) \<noteq> 0"
  shows "\<exists>t. ideInterruptHandler s = Ret () t \<and> Flags (bufs t ! b) = B_VALID \<and> BufData (bufs t ! b) = BufData (bufs s ! b)"
proof -
  have w: "wakeup (BufChan b) (set_disk d (acquired i IdeLock s)) =
      Ret () (set_disk d (set_procs (map (woken (BufChan b)) (procs s)) (acquired i IdeLock s)))" for d
  proof -
    have "proc_ready i (set_disk d (acquired i IdeLock s))" using assms(1,3,4) by (simp add: proc_ready_def)
    then show ?thesis using assms(1) by (simp add: wakeup_run [of i])
  qed
  have v: "B_VALID AND NOT B_DIRTY = B_VALID" by (rule bit_word_eqI) (auto simp: bit_simps bit_buffer_flags)
  show ?thesis
    using assms v
    by (simp add: ideInterruptHandler_def kmonad spinlockAcquire_ok [of i] spinlockRelease_ok [of i] ideWait_def w)
qed

theorem failed_read_marked_valid_witness:
  "\<exists>(s :: kdisk) t. ideStatus (controller (disk s)) = IDE_READY OR IDE_ERROR \<and> ideInterruptHandler s = Ret () t \<and>
    Flags (bufs t ! 3) = B_VALID \<and> BufData (bufs t ! 3) = replicate 512 (0 :: byte)"
proof -
  let ?d = "(blank_disk (\<lambda>_. []))\<lparr>idequeue := Some 3, controller := (controller (blank_disk (\<lambda>_. [])))\<lparr>ideStatus := IDE_READY OR IDE_ERROR\<rparr>\<rparr>"
  let ?s = "set_disk ?d (disk_boot (\<lambda>_. []))"
  note q = quietD [OF disk_boot_quiet(1) [of "\<lambda>_. []"]]
  have b: "bufs ?s ! 3 = blank_buffer" "(3 :: nat) < length (bufs ?s)" by (simp_all add: NBUF_def)
  have "\<exists>t. ideInterruptHandler ?s = Ret () t \<and> Flags (bufs t ! 3) = B_VALID \<and> BufData (bufs t ! 3) = BufData (bufs ?s ! 3)"
    by (rule failed_read_marked_valid [of 0])
      (use q(1,3,6) b in \<open>simp_all add: blank_buffer_def IDE_BUSY_def IDE_READY_def IDE_ERROR_def IDE_DRIVEFAULT_def\<close>)
  then obtain t where "ideInterruptHandler ?s = Ret () t" "Flags (bufs t ! 3) = B_VALID"
      "BufData (bufs t ! 3) = replicate 512 (0 :: byte)"
    unfolding b(1) by (auto simp: blank_buffer_def)
  then show ?thesis by (intro exI [of _ ?s] exI [of _ t]) simp
qed

end
