(* ===== verification/Fat.thy ===== *)
theory Fat
  imports Bio
begin

text \<open>
  The FAT12 file system (\<^verbatim>\<open>fs.c\<close>, \<^verbatim>\<open>fs.h\<close>, \<^verbatim>\<open>bpb.h\<close>), read only as in the code.  Sectors come from the buffer cache.
  The file allocation table is an array in kernel memory at the address \<open>fatArray\<close>, so reads and writes
  outside it are reads and writes of other memory.  Local character arrays are functions from indices to
  bytes whose initial values are arguments, because the code reads some of them uninitialised; writing
  past the end of an array and reading past the end of a sector buffer is a \<open>Fault\<close>.
\<close>

unbundle bit_operations_syntax

section \<open>Definitions\<close>

record BIOSParameterBlock =
  OEMName :: "byte list"
  BytesPerSector :: u16
  SectorsPerCluster :: byte
  ReservedSectors :: u16
  NumberOfFats :: byte
  NumDirEntries :: u16
  NumSectors :: u16
  Media :: byte
  SectorsPerFat :: u16
  SectorsPerTrack :: u16
  HeadsPerCyl :: u16
  HiddenSectors :: u32
  LongSectors :: u32

record MountInfo =
  MountNumSectors :: u32
  FatOffset :: u32
  NumRootEntries :: u32
  RootOffset :: u32
  RootSize :: u32
  FatSize :: u32
  ClusterSize :: u32

record FatState =
  bootSector :: BIOSParameterBlock
  mountInfo :: MountInfo
  fatArray :: u32

record kfat = kdisk +
  fatfs :: FatState

interpretation fatfs_field: hw_field fatfs fatfs_update by unfold_locales simp_all

definition le16 :: "byte list \<Rightarrow> nat \<Rightarrow> u16" where
  "le16 d k = ucast (d ! k) OR push_bit 8 (ucast (d ! (k + 1)))"

definition le32 :: "byte list \<Rightarrow> nat \<Rightarrow> u32" where
  "le32 d k = ucast (le16 d k) OR push_bit 16 (ucast (le16 d (k + 2)))"

definition parseBpb :: "byte list \<Rightarrow> BIOSParameterBlock" where
  "parseBpb d = \<lparr>OEMName = take 8 (drop 3 d), BytesPerSector = le16 d 11, SectorsPerCluster = d ! 13,
     ReservedSectors = le16 d 14, NumberOfFats = d ! 16, NumDirEntries = le16 d 17, NumSectors = le16 d 19,
     Media = d ! 21, SectorsPerFat = le16 d 22, SectorsPerTrack = le16 d 24, HeadsPerCyl = le16 d 26,
     HiddenSectors = le32 d 28, LongSectors = le32 d 32\<rparr>"

definition parseDirectoryEntry :: "byte list \<Rightarrow> nat \<Rightarrow> DirectoryEntry" where
  "parseDirectoryEntry d k = \<lparr>Filename = take 8 (drop k d), Ext = take 3 (drop (k + 8) d), Attrib = d ! (k + 11),
     Reserved = d ! (k + 12), TimeCreatedMs = d ! (k + 13), TimeCreated = le16 d (k + 14),
     DateCreated = le16 d (k + 16), DateLastAccessed = le16 d (k + 18), FirstClusterHiBytes = le16 d (k + 20),
     LastModTime = le16 d (k + 22), LastModDate = le16 d (k + 24), FirstCluster = le16 d (k + 26),
     FileSize = le32 d (k + 28)\<rparr>"

definition updFat :: "(FatState \<Rightarrow> FatState) \<Rightarrow> ('a kfat_scheme, unit) op" where
  "updFat g = modifyK (\<lambda>s. s\<lparr>fatfs := g (fatfs s)\<rparr>)"

definition bpb :: "'a kfat_scheme \<Rightarrow> BIOSParameterBlock" where "bpb s = bootSector (fatfs s)"
definition mnt :: "'a kfat_scheme \<Rightarrow> MountInfo" where "mnt s = mountInfo (fatfs s)"

definition mountInfoOf :: "BIOSParameterBlock \<Rightarrow> MountInfo" where
  "mountInfoOf b = \<lparr>MountNumSectors = ucast (NumSectors b), FatOffset = ucast (ReservedSectors b),
     NumRootEntries = ucast (NumDirEntries b),
     RootOffset = ucast (NumberOfFats b) * ucast (SectorsPerFat b) + ucast (ReservedSectors b),
     RootSize = (ucast (NumDirEntries b) * 32) div ucast (BytesPerSector b),
     FatSize = ucast (SectorsPerFat b), ClusterSize = ucast (SectorsPerCluster b) * ucast (BytesPerSector b)\<rparr>"

text \<open>
  The loop that loads the table.  \<^verbatim>\<open>&fat\<close> has the type of a pointer to the whole array, so adding \<^verbatim>\<open>fatOffset\<close>
  to it moves by that many arrays of \<^verbatim>\<open>512 * MAXFATSIZE\<close> bytes.
\<close>

fun loadFat :: "nat list \<Rightarrow> u32 \<Rightarrow> ('a kfat_scheme, unit) op" where
  "loadFat [] fatOffset = returnK ()"
| "loadFat (fatSector # ks) fatOffset =
     bindK (getK mnt) (\<lambda>m.
     bindK (diskBufferRead 0 (of_nat fatSector + FatOffset m)) (\<lambda>b.
     bindK (getK (\<lambda>s. BufData (bufs s ! b))) (\<lambda>d.
     bindK (diskBufferRelease b) (\<lambda>_.
     bindK (modifyK (\<lambda>s. s\<lparr>mem := write_bytes (mem s) (fatArray (fatfs s) + fatOffset * (512 * of_nat MAXFATSIZE)) (take 512 d)\<rparr>)) (\<lambda>_.
     loadFat ks (fatOffset + 512))))))"

definition fsFat12Initialise :: "('a kfat_scheme, unit) op" where
  "fsFat12Initialise =
     bindK (diskBufferRead 0 0) (\<lambda>b.
     bindK (getK (\<lambda>s. BufData (bufs s ! b))) (\<lambda>d.
     bindK (diskBufferRelease b) (\<lambda>_.
     bindK (updFat (\<lambda>x. x\<lparr>bootSector := parseBpb d\<rparr>)) (\<lambda>_.
     bindK (getK bpb) (\<lambda>p.
     if BytesPerSector p \<noteq> 512 then panicK ''Sector size != 512''
     else bindK (updFat (\<lambda>x. x\<lparr>mountInfo := mountInfoOf p\<rparr>)) (\<lambda>_.
       if of_nat MAXFATSIZE < FatSize (mountInfoOf p) then panicK ''FAT too large''
       else loadFat [0..<unat (FatSize (mountInfoOf p))] 0))))))"

subsection \<open>File names\<close>

definition toupper :: "byte \<Rightarrow> byte" where
  "toupper c = (if 0x61 \<le> c \<and> c \<le> 0x7A then c + 0x41 - 0x61 else c)"

text \<open>The length of a string in a local array, the longest of which has 255 characters.\<close>

definition strlenAt :: "(nat \<Rightarrow> byte) \<Rightarrow> nat" where
  "strlenAt f = length (takeWhile (\<lambda>j. f j \<noteq> 0) [0..<255])"

function dosBase :: "(nat \<Rightarrow> byte) \<Rightarrow> nat \<Rightarrow> nat \<Rightarrow> byte list \<Rightarrow> nat \<times> byte list" where
  "dosBase filename n i converted =
     (if i < strlenAt filename \<and> i < n
      then if filename i = 0x2E \<or> i = 8 then (i, converted)
           else dosBase filename n (Suc i) (converted[i := toupper (filename i)])
      else (i, converted))"
  by pat_completeness auto
termination by (relation "measure (\<lambda>(f, n, i, c). n - i)") auto

declare dosBase.simps [simp del]

definition dosExt :: "(nat \<Rightarrow> byte) \<Rightarrow> nat \<Rightarrow> byte list \<Rightarrow> byte list" where
  "dosExt filename i converted =
     fold (\<lambda>k c. if filename (i + 1 + k) \<noteq> 0 then c[k + 8 := toupper (filename (i + 1 + k))] else c) [0, 1, 2] converted"

definition toDosFileName :: "(nat \<Rightarrow> byte) \<Rightarrow> byte list \<Rightarrow> nat \<Rightarrow> byte list" where
  "toDosFileName filename converted n =
     (if 11 < n then converted
      else let converted = replicate n 0x20 @ drop n converted in
        if strlenAt filename = 1 \<and> filename 0 = 0x2E then converted[0 := 0x2E]
        else if strlenAt filename = 2 \<and> filename 0 = 0x2E \<and> filename 1 = 0x2E then converted[0 := 0x2E, 1 := 0x2E]
        else case dosBase filename n 0 converted of (i, converted) \<Rightarrow>
          if filename i = 0x2E then dosExt filename i converted else converted)"

subsection \<open>Reading clusters\<close>

fun readSectors :: "nat \<Rightarrow> u32 \<Rightarrow> u32 \<Rightarrow> u32 \<Rightarrow> byte list \<Rightarrow> ('a kfat_scheme, byte list) op" where
  "readSectors 0 sector offset sz buffer = (if sz = 0 then returnK buffer else hangK)"
| "readSectors (Suc n) sector offset sz buffer =
     (if sz = 0 then returnK buffer
      else bindK (getK bpb) (\<lambda>p.
        let sectorContentsSize = if sz < ucast (BytesPerSector p) then sz else ucast (BytesPerSector p) in
        bindK (diskBufferRead 0 sector) (\<lambda>b.
        bindK (getK (\<lambda>s. BufData (bufs s ! b))) (\<lambda>d.
        if BSIZE < unat offset + unat sectorContentsSize then faultK
        else bindK (diskBufferRelease b) (\<lambda>_.
          readSectors n (sector + 1) 0 (sz - sectorContentsSize)
            (buffer @ take (unat sectorContentsSize) (drop (unat offset) d)))))))"

definition fsFat12ReadCluster :: "u32 \<Rightarrow> u32 \<Rightarrow> u32 \<Rightarrow> u32 \<Rightarrow> ('a kfat_scheme, u32 \<times> byte list) op" where
  "fsFat12ReadCluster deviceNumber clusterNumber offset sz =
     bindK (getK (\<lambda>s. (bpb s, mnt s))) (\<lambda>(p, m).
     let sz = (if ClusterSize m < sz then ClusterSize m else sz);
         offset = (if ClusterSize m \<le> offset then 0 else offset);
         sz = (if ClusterSize m < offset + sz then ClusterSize m - offset else sz);
         sector = RootOffset m + RootSize m + (clusterNumber - 2) * ucast (SectorsPerCluster p);
         bps = ucast (BytesPerSector p) :: u32 in
     if 0 < offset \<and> bps = 0 then faultK
     else let sectorOffset = (if 0 < offset then offset div bps else 0);
              inSector = (if 0 < offset then offset mod bps else offset);
              left = ClusterSize m - (sectorOffset * bps + inSector);
              sz = (if 0 < offset \<and> left < sz then left else sz) in
       bindK (readSectors (unat sz) (sector + sectorOffset) inSector sz []) (\<lambda>buffer. returnK (sz, buffer)))"

definition fsFat12GetNextCluster :: "u32 \<Rightarrow> ('a kfat_scheme, u32) op" where
  "fsFat12GetNextCluster cluster =
     bindK (getK (\<lambda>s. (mem s, fatArray (fatfs s)))) (\<lambda>(m, a).
     let fatOffset = cluster + cluster div 2;
         entry = (ucast (m (a + fatOffset)) OR push_bit 8 (ucast (m (a + fatOffset + 1)))) :: u16;
         nextCluster = (if cluster AND 1 \<noteq> 0 then drop_bit 4 entry else entry AND 0x0FFF) in
     returnK (if 0xff8 \<le> nextCluster \<or> nextCluster = 0 then 0 else ucast nextCluster))"

subsection \<open>Reading files\<close>

fun followClusters :: "nat \<Rightarrow> u32 \<Rightarrow> ('a kfat_scheme, u32) op" where
  "followClusters 0 c = returnK c"
| "followClusters (Suc clusterHops) c = bindK (fsFat12GetNextCluster c) (followClusters clusterHops)"

fun readClusters :: "nat \<Rightarrow> nat \<Rightarrow> u32 \<Rightarrow> u32 \<Rightarrow> u32 \<Rightarrow> u32 \<Rightarrow> byte list \<Rightarrow> ('a kfat_scheme, u32 \<times> byte list) op" where
  "readClusters 0 f currentCluster clusterOffset len totalRead buffer =
     (if len = 0 then returnK (totalRead, buffer) else hangK)"
| "readClusters (Suc n) f currentCluster clusterOffset len totalRead buffer =
     (if len = 0 then returnK (totalRead, buffer)
      else bindK (fsFat12ReadCluster 0 currentCluster clusterOffset len) (\<lambda>(readLength, bs).
        bindK (updFile f (\<lambda>x. x\<lparr>Position := Position x + readLength\<rparr>)) (\<lambda>_.
        bindK (getFile f) (\<lambda>x.
        if Size x \<le> Position x \<and> Type x = FD_FILE
        then bindK (updFile f (\<lambda>x. x\<lparr>Eof := 1\<rparr>)) (\<lambda>_. returnK (totalRead + readLength, buffer @ bs))
        else bindK (getK mnt) (\<lambda>m.
          bindK (if clusterOffset + readLength = ClusterSize m then fsFat12GetNextCluster currentCluster
                 else returnK currentCluster) (\<lambda>currentCluster.
          if currentCluster = 0
          then bindK (updFile f (\<lambda>x. x\<lparr>Eof := 1\<rparr>)) (\<lambda>_. returnK (totalRead + readLength, buffer @ bs))
          else readClusters n f currentCluster 0 (len - readLength) (totalRead + readLength) (buffer @ bs)))))))"

definition fsFat12Read :: "nat option \<Rightarrow> u32 \<Rightarrow> ('a kfat_scheme, u32 \<times> byte list) op" where
  "fsFat12Read file len =
     (case file of None \<Rightarrow> returnK (0, [])
      | Some f \<Rightarrow>
          bindK (getFile f) (\<lambda>x.
          if (Type x = FD_FILE \<or> Type x = FD_DIR) \<and> Eof x = 0
          then bindK (getK mnt) (\<lambda>m.
            if ClusterSize m = 0 then faultK
            else bindK (followClusters (unat (Position x div ClusterSize m)) (ucast (FirstCluster (DirEntry x)))) (\<lambda>c.
              readClusters (unat len) f c (Position x mod ClusterSize m) len 0 []))
          else returnK (0, [])))"

definition byteString :: "byte list \<Rightarrow> string" where
  "byteString bs = map (\<lambda>b. char_of (unat b)) bs"

definition fsFat12CreateFileStructure :: "DirectoryEntry \<Rightarrow> byte list \<Rightarrow> ('a kfat_scheme, nat option) op" where
  "fsFat12CreateFileStructure directoryEntry filename =
     bindK allocateFileStructure (\<lambda>file.
     case file of None \<Rightarrow> returnK None
     | Some f \<Rightarrow>
         if 256 \<le> length filename then faultK
         else bindK (updFile f (\<lambda>x. x\<lparr>FileName := byteString filename, DirEntry := directoryEntry,
             Size := FileSize directoryEntry, Position := 0, Eof := 0, Type := FD_FILE\<rparr>)) (\<lambda>_.
           returnK (Some f)))"

subsection \<open>Searching directories\<close>

definition entryName :: "byte list \<Rightarrow> nat \<Rightarrow> byte list" where
  "entryName d i = take 11 (drop (32 * i) d)"

definition cString :: "byte list \<Rightarrow> byte list" where
  "cString bs = takeWhile (\<lambda>c. c \<noteq> 0) bs"

definition dosNameOf :: "(nat \<Rightarrow> byte) \<Rightarrow> byte list \<Rightarrow> byte list" where
  "dosNameOf nameToFind junk = (toDosFileName nameToFind (take 12 junk) 11)[11 := 0]"

definition searchRootSector :: "byte list \<Rightarrow> byte list \<Rightarrow> DirectoryEntry option" where
  "searchRootSector dosFileName d =
     map_option (\<lambda>i. parseDirectoryEntry d (32 * i))
       (List.find (\<lambda>i. d ! (32 * i) \<noteq> 0 \<and> cString dosFileName = cString (entryName d i @ [0])) [0..<16])"

fun findRootLoop :: "byte list \<Rightarrow> nat list \<Rightarrow> ('a kfat_scheme, DirectoryEntry option) op" where
  "findRootLoop dosFileName [] = returnK None"
| "findRootLoop dosFileName (sector # sectors) =
     bindK (getK mnt) (\<lambda>m.
     bindK (diskBufferRead 0 (RootOffset m + of_nat sector)) (\<lambda>b.
     bindK (getK (\<lambda>s. BufData (bufs s ! b))) (\<lambda>d.
     bindK (diskBufferRelease b) (\<lambda>_.
     case searchRootSector dosFileName d of
       Some e \<Rightarrow> returnK (Some e)
     | None \<Rightarrow> findRootLoop dosFileName sectors))))"

definition fsFat12FindInRootDirectory :: "(nat \<Rightarrow> byte) \<Rightarrow> byte list \<Rightarrow> ('a kfat_scheme, DirectoryEntry option) op" where
  "fsFat12FindInRootDirectory nameToFind junk =
     bindK (getK mnt) (\<lambda>m.
     findRootLoop (dosNameOf nameToFind junk) [0..<unat (NumRootEntries m div 16)])"

definition searchSubSector :: "byte list \<Rightarrow> byte list \<Rightarrow> DirectoryEntry option" where
  "searchSubSector dosFileName d =
     map_option (\<lambda>i. parseDirectoryEntry d (32 * i))
       (List.find (\<lambda>i. cString (entryName d i @ [0]) = cString dosFileName) [0..<16])"

text \<open>
  The loop over a sub-directory.  Every round reads at least one byte or sets \<^verbatim>\<open>Eof\<close>; \<open>2 ^ 32\<close> rounds cover every
  file size.
\<close>

fun findSubLoop :: "nat \<Rightarrow> nat \<Rightarrow> byte list \<Rightarrow> byte list \<Rightarrow> ('a kfat_scheme, DirectoryEntry option) op" where
  "findSubLoop 0 f dosFileName buf = hangK"
| "findSubLoop (Suc n) f dosFileName buf =
     bindK (getFile f) (\<lambda>x.
     if Eof x \<noteq> 0 then bindK (fileClose f) (\<lambda>_. returnK None)
     else bindK (fsFat12Read (Some f) 512) (\<lambda>(r, bs).
       let buf = bs @ drop (length bs) buf in
       case searchSubSector dosFileName buf of
         Some e \<Rightarrow> bindK (fileClose f) (\<lambda>_. returnK (Some e))
       | None \<Rightarrow> findSubLoop n f dosFileName buf))"

definition fsFat12FindInSubDirectory :: "(nat \<Rightarrow> byte) \<Rightarrow> DirectoryEntry \<Rightarrow> byte list \<Rightarrow>
    ('a kfat_scheme, DirectoryEntry option) op" where
  "fsFat12FindInSubDirectory nameToFind directoryEntry junk =
     bindK (fsFat12CreateFileStructure directoryEntry []) (\<lambda>subDirectory.
     case subDirectory of None \<Rightarrow> faultK
     | Some f \<Rightarrow> findSubLoop (2 ^ 32) f (dosNameOf nameToFind junk) (take 512 (drop 12 junk)))"

subsection \<open>Opening files\<close>

definition isSeparator :: "byte \<Rightarrow> bool" where
  "isSeparator c \<longleftrightarrow> c = 0x5C \<or> c = 0x2F"

definition fsGetPathPart :: "byte list \<Rightarrow> (nat \<Rightarrow> byte) \<Rightarrow> (nat \<times> (nat \<Rightarrow> byte)) option" where
  "fsGetPathPart path pathPart =
     (let partLength = length (takeWhile (\<lambda>c. \<not> isSeparator c) path) in
      if 20 \<le> length path then None
      else Some (if partLength = length path then 0 else partLength,
        (\<lambda>j. if j < length path then path ! j else if j = length path then 0 else pathPart j)(partLength := 0)))"

lemma fsGetPathPart_nonempty: "fsGetPathPart p buf = Some (n, buf') \<Longrightarrow> n \<noteq> 0 \<Longrightarrow> p \<noteq> []"
  by (auto simp: fsGetPathPart_def)

function openLoop :: "byte list \<Rightarrow> (nat \<Rightarrow> byte) \<Rightarrow> DirectoryEntry option \<Rightarrow> byte list \<Rightarrow> int \<Rightarrow> byte list \<Rightarrow>
    ('a kfat_scheme, nat option) op" where
  "openLoop p pathPart current filename directory junk =
     (case fsGetPathPart p pathPart of
        None \<Rightarrow> faultK
      | Some (partLength, pathPart) \<Rightarrow>
          bindK (case current of
                   None \<Rightarrow> fsFat12FindInRootDirectory pathPart junk
                 | Some e \<Rightarrow> fsFat12FindInSubDirectory pathPart e junk) (\<lambda>found.
          case found of
            None \<Rightarrow> returnK None
          | Some e \<Rightarrow>
              if partLength = 0
              then if directory = 1 \<and> Attrib e \<noteq> 0x10 then returnK None
                else bindK (fsFat12CreateFileStructure e filename) (\<lambda>fileStructure.
                  if directory = 1
                  then (case fileStructure of None \<Rightarrow> faultK
                    | Some f \<Rightarrow> bindK (updFile f (\<lambda>x. x\<lparr>Type := FD_DIR\<rparr>)) (\<lambda>_. returnK (Some f)))
                  else returnK fileStructure)
              else if Attrib e \<noteq> 0x10 then returnK None
              else openLoop (drop (partLength + 1) p) pathPart (Some e) filename directory junk))"
  by pat_completeness auto
termination
  by (relation "measure (\<lambda>(p, _). length p)") (auto dest: fsGetPathPart_nonempty)

declare openLoop.simps [simp del]

text \<open>
  \<open>safestrcpy\<close> of a string into a larger array keeps its first \<^verbatim>\<open>n - 1\<close> characters.  An empty path makes the
  code read the uninitialised second character, a \<open>Fault\<close>.
\<close>

definition openPath :: "byte list \<Rightarrow> byte list \<Rightarrow> byte list" where
  "openPath cwd filename =
     (if filename \<noteq> [] \<and> isSeparator (hd filename) then take (nat MAXCWDSIZE - 1) filename
      else let path = take (nat MAXCWDSIZE - 1) cwd in
        if length cwd < nat MAXCWDSIZE then path @ take (nat MAXCWDSIZE - length cwd - 1) filename else path)"

definition fsFat12Open :: "byte list \<Rightarrow> byte list \<Rightarrow> int \<Rightarrow> (nat \<Rightarrow> byte) \<Rightarrow> byte list \<Rightarrow> ('a kfat_scheme, nat option) op" where
  "fsFat12Open cwd filename directory pathPart junk =
     (case openPath cwd filename of [] \<Rightarrow> faultK
      | _ # p \<Rightarrow> openLoop p pathPart None filename directory junk)"

section \<open>Running on a quiet machine\<close>

interpretation mem_keeps: above_disk mem by unfold_locales simp_all
interpretation fatfs_keeps: above_disk fatfs by unfold_locales simp_all

definition fs_rest :: "'a kfat_scheme \<Rightarrow> Process list \<times> File list \<times> memory \<times> FatState" where
  "fs_rest s = (procs s, FileTab s, mem s, fatfs s)"

interpretation dev: block_device "disk_ready i k" "buf_held i k" sector0 fs_rest "\<lambda>s b. BufData (bufs s ! b)"
  "diskBufferRead 0" diskBufferRelease for i k
proof
  fix s :: "'a kfat_scheme" and sec :: u32 and b
  show "\<exists>b t. diskBufferRead 0 sec s = Ret b t \<and> buf_held i k b t \<and> BufData (bufs t ! b) = sector0 s sec \<and>
      sector0 t = sector0 s \<and> fs_rest t = fs_rest s" if r: "disk_ready i k s" "sec < 2 ^ 28"
  proof -
    obtain b t where t: "diskBufferRead 0 sec s = Ret b t" "buf_held i k b t" "BufData (bufs t ! b) = sector0 s sec"
        "sector0 t = sector0 s" "procs t = procs s"
      by (rule disk_read0 [OF r])
    then show ?thesis
      using keepsD [OF FileTab_keeps.keeps_bio(2) t(1)] keepsD [OF mem_keeps.keeps_bio(2) t(1)]
        keepsD [OF fatfs_keeps.keeps_bio(2) t(1)]
      by (auto simp: fs_rest_def)
  qed
  show "\<exists>t. diskBufferRelease b s = Ret () t \<and> disk_ready i k t \<and> sector0 t = sector0 s \<and> fs_rest t = fs_rest s"
    if h: "buf_held i k b s"
  proof -
    obtain t where t: "diskBufferRelease b s = Ret () t" "disk_ready i k t" "sector0 t = sector0 s" "procs t = procs s"
      by (rule disk_release0 [OF h])
    then show ?thesis
      using keepsD [OF FileTab_keeps.keeps_bio(4) t(1)] keepsD [OF mem_keeps.keeps_bio(4) t(1)]
        keepsD [OF fatfs_keeps.keeps_bio(4) t(1)]
      by (auto simp: fs_rest_def)
  qed
qed

text \<open>\<open>same_fs i k s t\<close>: only the cache and the processor differ, and the disk is ready again.\<close>

definition same_fs :: "nat \<Rightarrow> nat \<Rightarrow> 'a kfat_scheme \<Rightarrow> 'a kfat_scheme \<Rightarrow> bool" where
  "same_fs i k s t \<longleftrightarrow> disk_ready i k t \<and> sector0 t = sector0 s \<and> fs_rest t = fs_rest s"

lemma same_fsD:
  assumes "same_fs i k s t"
  shows "disk_ready i k t" "sector0 t = sector0 s" "procs t = procs s" "FileTab t = FileTab s" "mem t = mem s"
    "fatfs t = fatfs s" "bpb t = bpb s" "mnt t = mnt s"
  using assms by (simp_all add: same_fs_def fs_rest_def bpb_def mnt_def)

lemma same_fs_refl: "disk_ready i k s \<Longrightarrow> same_fs i k s s"
  by (simp add: same_fs_def)

lemma same_fs_trans: "same_fs i k s t \<Longrightarrow> same_fs i k t u \<Longrightarrow> same_fs i k s u"
  by (simp add: same_fs_def)

lemma with_sector:
  assumes "disk_ready i k s" "sec < 2 ^ 28"
  obtains t where "bindK (diskBufferRead 0 sec) (\<lambda>b. bindK (getK (\<lambda>s. BufData (bufs s ! b))) (\<lambda>d.
      bindK (diskBufferRelease b) (\<lambda>_. f d))) s = f (sector0 s sec) t" "same_fs i k s t"
  using dev.use_sector [OF assms] by (metis same_fs_def)

lemma bindK_getK: "bindK (getK f) g s = g (f s) s"
  by (simp add: kmonad)

section \<open>Clusters\<close>

definition sectorsFrom :: "'a kfat_scheme \<Rightarrow> u32 \<Rightarrow> nat \<Rightarrow> byte list" where
  "sectorsFrom s sec n = concat (map (\<lambda>j. sector0 s (sec + of_nat j)) [0..<n])"

definition full_sectors :: "'a kfat_scheme \<Rightarrow> bool" where
  "full_sectors s \<longleftrightarrow> (\<forall>sec. length (sector0 s sec) = 512)"

lemma sectorsFrom_Suc: "sectorsFrom s sec (Suc n) = sector0 s sec @ sectorsFrom s (sec + 1) n"
proof -
  have "map (\<lambda>j. sector0 s (sec + of_nat j)) [0..<Suc n] = sector0 s sec # map (\<lambda>j. sector0 s (sec + 1 + of_nat j)) [0..<n]"
    by (simp add: upt_conv_Cons map_Suc_upt [symmetric] o_def add.commute add.left_commute del: upt_Suc)
  then show ?thesis by (simp only: sectorsFrom_def concat.simps)
qed

lemma length_sectorsFrom: "full_sectors s \<Longrightarrow> length (sectorsFrom s sec n) = 512 * n"
  by (induction n arbitrary: sec) (simp_all add: sectorsFrom_Suc full_sectors_def, simp add: sectorsFrom_def)

lemma drop_sectorsFrom: "full_sectors s \<Longrightarrow> drop (512 * a) (sectorsFrom s sec (a + n)) = sectorsFrom s (sec + of_nat a) n"
  by (induction a arbitrary: sec) (simp_all add: sectorsFrom_Suc full_sectors_def ac_simps)

lemma readSectors_run:
  assumes "disk_ready i k s" "full_sectors s" "BytesPerSector (bpb s) = 512" "unat sec + n \<le> 2 ^ 28"
    and "unat sz \<le> 512 * n" "unat sz \<le> fuel" "unat off + min (unat sz) 512 \<le> 512"
  shows "\<exists>t. readSectors fuel sec off sz buf s = Ret (buf @ take (unat sz) (drop (unat off) (sectorsFrom s sec n))) t \<and> same_fs i k s t"
  using assms
proof (induction fuel arbitrary: s sec off sz buf n)
  case 0
  then show ?case using same_fs_refl by (auto simp: kmonad unat_eq_0)
next
  case (Suc fuel)
  show ?case
  proof (cases "sz = 0")
    case True
    then show ?thesis using Suc.prems(1) same_fs_refl by (auto simp: kmonad)
  next
    case False
    then have z: "0 < unat sz" by (simp add: unat_gt_0)
    then obtain m where m: "n = Suc m" using Suc.prems(5) by (cases n) auto
    define cs where "cs = (if sz < 512 then sz else 512 :: u32)"
    have c: "unat cs = min (unat sz) 512" by (auto simp: cs_def word_less_nat_alt min_def)
    have sec: "sec < 2 ^ 28" using Suc.prems(4) m by (simp add: word_less_nat_alt)
    obtain t where t: "bindK (diskBufferRead 0 sec) (\<lambda>b. bindK (getK (\<lambda>s. BufData (bufs s ! b))) (\<lambda>d.
        bindK (diskBufferRelease b) (\<lambda>_. readSectors fuel (sec + 1) 0 (sz - cs) (buf @ take (unat cs) (drop (unat off) d))))) s =
        readSectors fuel (sec + 1) 0 (sz - cs) (buf @ take (unat cs) (drop (unat off) (sector0 s sec))) t" "same_fs i k s t"
      by (rule with_sector [OF Suc.prems(1) sec])
    have step: "readSectors (Suc fuel) sec off sz buf s =
        readSectors fuel (sec + 1) 0 (sz - cs) (buf @ take (unat cs) (drop (unat off) (sector0 s sec))) t"
    proof -
      have nb: "(BSIZE < unat off + unat cs) = False" "(sz = 0) = False"
        using Suc.prems(7) c False by (simp_all add: BSIZE_def)
      have e: "(if sz < ucast (BytesPerSector (bpb s)) then sz else ucast (BytesPerSector (bpb s))) = cs"
        using Suc.prems(3) by (simp add: cs_def)
      show ?thesis by (simp only: readSectors.simps nb if_False bindK_getK Let_def e t(1))
    qed
    note S = same_fsD [OF t(2)]
    have d: "unat (sz - cs) = unat sz - min (unat sz) 512" using c by (subst unat_sub) (auto simp: word_le_nat_alt)
    have "unat (sec + 1) = unat sec + 1" using Suc.prems(4) m unat_add_lem [of sec 1] by simp
    then have p: "full_sectors t" "BytesPerSector (bpb t) = 512" "unat (sec + 1) + m \<le> 2 ^ 28" "unat (sz - cs) \<le> 512 * m"
        "unat (sz - cs) \<le> fuel" "unat (0 :: u32) + min (unat (sz - cs)) 512 \<le> 512"
      using S Suc.prems(2-7) m z d by (auto simp: full_sectors_def)
    obtain u where u: "readSectors fuel (sec + 1) 0 (sz - cs) (buf @ take (unat cs) (drop (unat off) (sector0 s sec))) t =
        Ret ((buf @ take (unat cs) (drop (unat off) (sector0 s sec))) @ take (unat (sz - cs)) (drop (unat (0 :: u32)) (sectorsFrom t (sec + 1) m))) u"
        "same_fs i k t u"
      using Suc.IH [OF S(1) p] by blast
    have "take (unat sz) (drop (unat off) (sectorsFrom s sec n)) =
        take (unat cs) (drop (unat off) (sector0 s sec)) @ take (unat (sz - cs)) (sectorsFrom t (sec + 1) m)"
    proof -
      have l: "length (sector0 s sec) = 512" using Suc.prems(2) by (simp add: full_sectors_def)
      have st: "sectorsFrom t (sec + 1) m = sectorsFrom s (sec + 1) m" using S(2) by (simp add: sectorsFrom_def)
      have "take (unat sz) (drop (unat off) (sector0 s sec)) = take (unat cs) (drop (unat off) (sector0 s sec))"
        using c l by (auto simp: min_def)
      moreover have "unat sz - (512 - unat off) = unat (sz - cs)" "unat off \<le> 512"
        using Suc.prems(7) c d z by (auto simp: min_def split: if_splits)
      ultimately show ?thesis
        unfolding m sectorsFrom_Suc st using l by simp
    qed
    then show ?thesis using step u same_fs_trans [OF t(2) u(2)] by simp
  qed
qed

definition mounted :: "'a kfat_scheme \<Rightarrow> bool" where
  "mounted s \<longleftrightarrow> full_sectors s \<and> BytesPerSector (bpb s) = 512 \<and> SectorsPerCluster (bpb s) \<noteq> 0 \<and> mnt s = mountInfoOf (bpb s)"

definition spc :: "'a kfat_scheme \<Rightarrow> nat" where "spc s = unat (SectorsPerCluster (bpb s))"
definition csize :: "'a kfat_scheme \<Rightarrow> nat" where "csize s = 512 * spc s"

definition clusterStart :: "'a kfat_scheme \<Rightarrow> u32 \<Rightarrow> u32" where
  "clusterStart s c = RootOffset (mnt s) + RootSize (mnt s) + (c - 2) * ucast (SectorsPerCluster (bpb s))"

definition clusterData :: "'a kfat_scheme \<Rightarrow> u32 \<Rightarrow> byte list" where
  "clusterData s c = sectorsFrom s (clusterStart s c) (spc s)"

lemma unat_small_mult: "unat a * unat b < 2 ^ 32 \<Longrightarrow> unat (a * b :: u32) = unat a * unat b"
  using unat_mult_lem [of a b] by simp

lemma unat_small_add: "unat a + unat b < 2 ^ 32 \<Longrightarrow> unat (a + b :: u32) = unat a + unat b"
  using unat_add_lem [of a b] by simp

lemma unat_bounds: "unat (ucast (b :: byte) :: u32) = unat b" "unat (ucast (w :: u16) :: u32) = unat w"
    "unat (b :: byte) < 256" "unat (w :: u16) < 65536"
proof -
  show l: "unat b < 256" "unat w < 65536" using unsigned_less [of b] unsigned_less [of w] by simp_all
  show "unat (ucast b :: u32) = unat b" "unat (ucast w :: u32) = unat w"
    using l by (simp_all add: unsigned_ucast_eq take_bit_nat_eq_self_iff)
qed

lemma root_offset:
  assumes "mounted s"
  shows "unat (RootOffset (mnt s)) \<le> 255 * 65535 + 65535"
proof -
  let ?b = "bpb s"
  have nf: "unat (NumberOfFats ?b) * unat (SectorsPerFat ?b) \<le> 255 * 65535"
    by (rule mult_le_mono) (use unat_bounds(3) [of "NumberOfFats ?b"] unat_bounds(4) [of "SectorsPerFat ?b"] in simp_all)
  then have "unat (ucast (NumberOfFats ?b) * ucast (SectorsPerFat ?b) :: u32) = unat (NumberOfFats ?b) * unat (SectorsPerFat ?b)"
    by (subst unat_small_mult) (simp_all add: unat_bounds(1,2))
  moreover have "mnt s = mountInfoOf ?b" using assms by (simp add: mounted_def)
  ultimately show ?thesis
    unfolding mountInfoOf_def using nf unat_bounds(4) [of "ReservedSectors ?b"]
    by simp (subst unat_small_add; simp add: unat_bounds(1,2))
qed

lemma geometry:
  assumes "mounted s"
  shows "unat (ClusterSize (mnt s)) = csize s" "0 < spc s" "spc s < 256" "csize s < 2 ^ 17" "0 < csize s"
    "2 \<le> unat c \<Longrightarrow> unat c < 65536 \<Longrightarrow> unat (clusterStart s c) + spc s \<le> 2 ^ 28"
proof -
  let ?b = "bpb s"
  have m: "mnt s = mountInfoOf ?b" "BytesPerSector ?b = 512" "SectorsPerCluster ?b \<noteq> 0"
    using assms by (simp_all add: mounted_def)
  show s: "0 < spc s" "spc s < 256" using m(3) unat_bounds(3) by (simp_all add: spc_def unat_gt_0)
  then show "csize s < 2 ^ 17" "0 < csize s" by (simp_all add: csize_def)
  have cs: "ClusterSize (mnt s) = ucast (SectorsPerCluster ?b) * 512" using m by (simp add: mountInfoOf_def)
  show "unat (ClusterSize (mnt s)) = csize s"
    unfolding cs using unat_bounds(3) [of "SectorsPerCluster ?b"]
    by (subst unat_small_mult) (simp_all add: unat_bounds(1,2) csize_def spc_def)
  show "unat (clusterStart s c) + spc s \<le> 2 ^ 28" if "2 \<le> unat c" "unat c < 65536"
  proof -
    note ro = root_offset [OF assms]
    have rs: "unat (RootSize (mnt s)) \<le> 65535 * 32"
    proof -
      have "unat (ucast (NumDirEntries ?b) * 32 :: u32) = unat (NumDirEntries ?b) * 32"
        using unat_bounds(4) [of "NumDirEntries ?b"] by (subst unat_small_mult) (simp_all add: unat_bounds(1,2))
      moreover have "unat (NumDirEntries ?b) * 32 div 512 \<le> 65535 * 32"
        using unat_bounds(4) [of "NumDirEntries ?b"] by simp
      ultimately show ?thesis unfolding m(1) mountInfoOf_def using m(2) by (simp add: unat_div)
    qed
    have d: "unat (c - 2) = unat c - 2" using that by (subst unat_sub) (simp_all add: word_le_nat_alt)
    have cl: "unat (c - 2) * spc s \<le> 65533 * 255" using that d s by (intro mult_le_mono) simp_all
    then have "unat ((c - 2) * ucast (SectorsPerCluster ?b)) = unat (c - 2) * spc s"
      by (subst unat_small_mult) (simp_all add: unat_bounds(1,2) spc_def)
    moreover have "unat (RootOffset (mnt s) + RootSize (mnt s)) = unat (RootOffset (mnt s)) + unat (RootSize (mnt s))"
      using ro rs by (intro unat_small_add) simp
    ultimately show ?thesis
      unfolding clusterStart_def using ro rs cl s by (subst unat_small_add) simp_all
  qed
qed

lemma same_fs_geometry:
  assumes "same_fs i k s t"
  shows "mounted t = mounted s" "clusterData t c = clusterData s c" "spc t = spc s" "csize t = csize s"
  using same_fsD [OF assms]
  by (simp_all add: mounted_def full_sectors_def clusterData_def clusterStart_def spc_def csize_def sectorsFrom_def)

lemma length_clusterData: "mounted s \<Longrightarrow> length (clusterData s c) = csize s"
  by (simp add: clusterData_def length_sectorsFrom csize_def mounted_def)

lemma fsFat12ReadCluster_run:
  assumes "disk_ready i k s" "mounted s" "2 \<le> unat c" "unat c < 65536" "unat off < csize s"
    and "r = min (unat sz) (csize s - unat off)" "unat off mod 512 = 0 \<or> unat off mod 512 + r \<le> 512"
  shows "\<exists>t. fsFat12ReadCluster dv c off sz s = Ret (of_nat r, take r (drop (unat off) (clusterData s c))) t \<and> same_fs i k s t"
proof -
  note G = geometry [OF assms(2)]
  have m: "BytesPerSector (bpb s) = 512" "full_sectors s" using assms(2) by (simp_all add: mounted_def)
  let ?CS = "ClusterSize (mnt s)"
  define s1 where "s1 = (if ?CS < sz then ?CS else sz)"
  have s1: "unat s1 = min (unat sz) (csize s)" using G(1) by (auto simp: s1_def word_less_nat_alt)
  have o: "(?CS \<le> off) = False" using G(1) assms(5) by (simp add: word_le_nat_alt)
  define s2 where "s2 = (if ?CS < off + s1 then ?CS - off else s1)"
  have sum: "unat (off + s1) = unat off + unat s1" using assms(5) s1 G(4) by (intro unat_small_add) simp
  have diff: "unat (?CS - off) = csize s - unat off" using G(1) assms(5) by (subst unat_sub) (simp_all add: word_le_nat_alt)
  have s2: "unat s2 = r"
    using sum diff s1 assms(5,6) G(1) by (auto simp: s2_def word_less_nat_alt)
  let ?a = "unat off div 512"
  have dm: "unat (off div 512) = ?a" "unat (off mod 512) = unat off mod 512" by (simp_all add: unat_div unat_mod)
  have whole: "(off div 512) * 512 + off mod 512 = off"
    by (metis div_mult_mod_eq)
  have left: "((0 < off \<and> ?CS - ((off div 512) * 512 + off mod 512) < s2)) = False"
    unfolding whole using diff s2 assms(6) by (simp add: word_less_nat_alt)
  have zero: "off div 512 = 0" "off mod 512 = off" if "\<not> 0 < off" using that by (simp_all add: word_gt_0)
  have e: "fsFat12ReadCluster dv c off sz s =
      bindK (readSectors (unat s2) (clusterStart s c + off div 512) (off mod 512) s2 []) (\<lambda>buffer. returnK (s2, buffer)) s"
  proof -
    have bps: "(ucast (BytesPerSector (bpb s)) :: u32) = 512" "(0 < off \<and> (512 :: u32) = 0) = False" using m(1) by simp_all
    have sel: "(if 0 < off then off div 512 else 0) = off div 512" "(if 0 < off then off mod 512 else off) = off mod 512"
      using zero by auto
    show ?thesis
      unfolding fsFat12ReadCluster_def bindK_getK case_prod_conv Let_def o if_False s1_def [symmetric] s2_def [symmetric]
        bps sel left clusterStart_def ..
  qed
  have n: "?a < spc s" using assms(5) by (simp add: csize_def less_mult_imp_div_less)
  have "unat (clusterStart s c + off div 512) = unat (clusterStart s c) + ?a"
    using G(6) [OF assms(3,4)] n dm by (subst unat_small_add) simp_all
  then have p: "unat (clusterStart s c + off div 512) + (spc s - ?a) \<le> 2 ^ 28" using G(6) [OF assms(3,4)] n by simp
  have "512 * ?a \<le> unat off" by simp
  then have "csize s - unat off \<le> 512 * (spc s - ?a)" by (simp add: csize_def diff_mult_distrib2)
  then have q: "unat s2 \<le> 512 * (spc s - ?a)" "unat (off mod 512) + min (unat s2) 512 \<le> 512"
    using s2 assms(6,7) dm by (auto simp: min.coboundedI2)
  obtain t where t: "readSectors (unat s2) (clusterStart s c + off div 512) (off mod 512) s2 [] s =
      Ret ([] @ take (unat s2) (drop (unat (off mod 512)) (sectorsFrom s (clusterStart s c + off div 512) (spc s - ?a)))) t" "same_fs i k s t"
    using readSectors_run [OF assms(1) m(2,1) p q(1) order_refl q(2)] by blast
  have "drop (512 * ?a) (clusterData s c) = sectorsFrom s (clusterStart s c + of_nat ?a) (spc s - ?a)"
    using drop_sectorsFrom [OF m(2), of ?a "clusterStart s c" "spc s - ?a"] n by (simp add: clusterData_def)
  moreover have "of_nat ?a = off div 512" by (simp flip: dm(1))
  ultimately have "drop (unat off) (clusterData s c) = drop (unat off mod 512) (sectorsFrom s (clusterStart s c + off div 512) (spc s - ?a))"
    by (metis drop_drop mod_mult_div_eq mult.commute)
  moreover have "s2 = of_nat r" by (simp flip: s2)
  ultimately show ?thesis using e t s2 dm(2) by (simp add: kmonad)
qed

section \<open>Files\<close>

definition nextCluster :: "'a kfat_scheme \<Rightarrow> u32 \<Rightarrow> u32" where
  "nextCluster s c = (case fsFat12GetNextCluster c s of Ret d _ \<Rightarrow> d | _ \<Rightarrow> 0)"

lemma fsFat12GetNextCluster_run: "fsFat12GetNextCluster c s = Ret (nextCluster s c) s"
  by (simp add: nextCluster_def fsFat12GetNextCluster_def kmonad Let_def)

lemma nextCluster_cong: "mem t = mem s \<Longrightarrow> fatfs t = fatfs s \<Longrightarrow> nextCluster t c = nextCluster s c"
  by (simp add: nextCluster_def fsFat12GetNextCluster_def kmonad Let_def)

text \<open>\<open>isChain s cs\<close>: the clusters \<open>cs\<close> are linked in the table from the first to the last, whose entry ends the file.\<close>

fun isChain :: "'a kfat_scheme \<Rightarrow> u32 list \<Rightarrow> bool" where
  "isChain s [] \<longleftrightarrow> False"
| "isChain s [c] \<longleftrightarrow> 2 \<le> unat c \<and> unat c < 65536 \<and> nextCluster s c = 0"
| "isChain s (c # d # cs) \<longleftrightarrow> 2 \<le> unat c \<and> unat c < 65536 \<and> nextCluster s c = d \<and> isChain s (d # cs)"

definition fileData :: "'a kfat_scheme \<Rightarrow> u32 list \<Rightarrow> byte list" where
  "fileData s cs = concat (map (clusterData s) cs)"

lemma isChain_cong: "mem t = mem s \<Longrightarrow> fatfs t = fatfs s \<Longrightarrow> isChain t cs = isChain s cs"
proof -
  assume a: "mem t = mem s" "fatfs t = fatfs s"
  have n: "nextCluster t c = nextCluster s c" for c by (rule nextCluster_cong [OF a])
  have "isChain u cs \<longleftrightarrow> isChain s cs" if "u = t" for u
    using that by (induction u cs rule: isChain.induct) (simp_all add: n)
  then show ?thesis by simp
qed

lemma isChain_head: "isChain s (c # cs) \<Longrightarrow> 2 \<le> unat c \<and> unat c < 65536 \<and> nextCluster s c = (if cs = [] then 0 else hd cs) \<and> (cs \<noteq> [] \<longrightarrow> isChain s cs)"
  by (cases cs) simp_all

lemma length_fileData: "mounted s \<Longrightarrow> length (fileData s cs) = csize s * length cs"
  by (induction cs) (simp_all add: fileData_def length_clusterData)

lemma set_files_fs [simp]:
  "disk_ready i k (set_files fs s) = disk_ready i k s" "sector0 (set_files fs s) = sector0 s"
  "mounted (set_files fs s) = mounted s" "clusterData (set_files fs s) c = clusterData s c" "csize (set_files fs s) = csize s"
  "mnt (set_files fs s) = mnt s" "nextCluster (set_files fs s) c = nextCluster s c" "isChain (set_files fs s) cs = isChain s cs"
  "fileData (set_files fs s) cs = fileData s cs"
proof -
  have d: "disk (set_files fs s) = disk s" "fatfs (set_files fs s) = fatfs s" "mem (set_files fs s) = mem s"
    by (simp_all add: set_files_def)
  have dep: "depth j (set_files fs s) = depth j s" for j by (simp add: depth_def)
  show r: "disk_ready i k (set_files fs s) = disk_ready i k s" "sector0 (set_files fs s) = sector0 s"
    using d dep by (simp_all add: disk_ready_def quiet_def sector0_def fun_eq_iff)
  have g: "bpb (set_files fs s) = bpb s" "mnt (set_files fs s) = mnt s" using d by (simp_all add: bpb_def mnt_def)
  show "mounted (set_files fs s) = mounted s" "clusterData (set_files fs s) c = clusterData s c" "csize (set_files fs s) = csize s"
      "mnt (set_files fs s) = mnt s" "nextCluster (set_files fs s) c = nextCluster s c" "isChain (set_files fs s) cs = isChain s cs"
      "fileData (set_files fs s) cs = fileData s cs"
    using d r g isChain_cong [of "set_files fs s" s cs] nextCluster_cong [of "set_files fs s" s c]
    by (simp_all add: mounted_def full_sectors_def clusterData_def clusterStart_def spc_def csize_def sectorsFrom_def fileData_def
        cong: map_cong)
qed

lemma readClusters_step:
  assumes "disk_ready i k s" "mounted s" "f < length (FileTab s)" "x = FileTab s ! f" "Type x = FD_FILE"
    and "2 \<le> unat c" "unat c < 65536" "unat off < csize s" "unat off mod 512 = 0" "len \<noteq> 0"
    and "r = min (unat len) (csize s - unat off)" "bs = take r (drop (unat off) (clusterData s c))" "p = Position x + of_nat r"
  obtains t where "same_fs i k s t" "readClusters (Suc n) f c off len tot buf s =
    (if Size x \<le> p then Ret (tot + of_nat r, buf @ bs) (set_files ((FileTab s)[f := x\<lparr>Position := p, Eof := 1\<rparr>]) t)
     else let c' = (if unat off + r = csize s then nextCluster s c else c) in
       if c' = 0 then Ret (tot + of_nat r, buf @ bs) (set_files ((FileTab s)[f := x\<lparr>Position := p, Eof := 1\<rparr>]) t)
       else readClusters n f c' 0 (len - of_nat r) (tot + of_nat r) (buf @ bs) (set_files ((FileTab s)[f := x\<lparr>Position := p\<rparr>]) t))"
proof -
  note G = geometry [OF assms(2)]
  obtain t where t: "fsFat12ReadCluster 0 c off len s = Ret (of_nat r, bs) t" "same_fs i k s t"
    using fsFat12ReadCluster_run [OF assms(1,2,6,7,8,11) disjI1 [OF assms(9)]] unfolding assms(12) by blast
  note S = same_fsD [OF t(2)]
  have r: "r < 2 ^ 17" using assms(8,11) G(4) by simp
  have "unat (of_nat r :: u32) = r" using r by (simp add: unsigned_of_nat take_bit_nat_eq_self_iff)
  then have "unat (off + of_nat r) = unat off + r" using assms(8) r G(4) by (subst unat_small_add) simp_all
  then have eq: "(off + of_nat r = ClusterSize (mnt s)) = (unat off + r = csize s)"
    using G(1) by (metis word_unat_eq_iff)
  have x: "FileTab t ! f = x" "f < length (FileTab t)" "nextCluster t c = nextCluster s c"
    using S(4-6) assms(3,4) nextCluster_cong by simp_all
  show thesis
    by (rule that [OF t(2)])
      (use t(1) x S(4,8) assms(5,10,13) eq in \<open>simp add: kmonad fsFat12GetNextCluster_run Let_def\<close>)
qed

lemma fileData_same_fs: "same_fs i k s t \<Longrightarrow> fileData t cs = fileData s cs"
  by (induction cs) (simp_all add: fileData_def same_fs_geometry)

lemma same_fs_set_files: "same_fs i k s t \<Longrightarrow> same_fs i k (set_files fs s) (set_files fs t)"
proof -
  have "fatfs (set_files fs u) = fatfs u" for u :: "'a kfat_scheme" by (simp add: set_files_def)
  then show "same_fs i k s t \<Longrightarrow> ?thesis" by (simp add: same_fs_def fs_rest_def)
qed

text \<open>
  What a read of \<open>len\<close> bytes does to a file whose remaining clusters are \<open>c # cs\<close>, read from offset \<open>off\<close> of the
  first: \<open>R\<close> is what is left in these clusters, and the size of the file ends in the last of them.
\<close>

lemma readClusters_run:
  assumes "disk_ready i k s" "mounted s" "f < length (FileTab s)" "x = FileTab s ! f" "Type x = FD_FILE"
    and "isChain s (c # cs)" "unat off < csize s" "unat off mod 512 = 0" "unat len \<le> n"
    and "R = drop (unat off) (fileData s (c # cs))" "unat (Position x) + length R < 2 ^ 32" "unat (Position x) < unat (Size x)"
    and "unat (Size x) \<le> unat (Position x) + length R" "unat (Position x) + length R < unat (Size x) + csize s"
    and "m = min (unat len) (length R)" "p = Position x + of_nat m"
  shows "\<exists>t. readClusters n f c off len tot buf s = Ret (tot + of_nat m, buf @ take m R) t \<and>
    same_fs i k (set_files ((FileTab s)[f := x\<lparr>Position := p, Eof := (if Size x \<le> p then 1 else Eof x)\<rparr>]) s) t"
  using assms
proof (induction "length cs" arbitrary: n s c cs off len tot buf x R m p rule: less_induct)
  case less
  note A = less.prems
  note G = geometry [OF A(2)] and H = isChain_head [OF A(6)]
  let ?pos = "unat (Position x)" and ?size = "unat (Size x)"
  have R: "R = drop (unat off) (clusterData s c) @ fileData s cs" "length R = csize s - unat off + csize s * length cs"
    using A(7,10) length_clusterData [OF A(2)] length_fileData [OF A(2)] by (simp_all add: fileData_def)
  show ?case
  proof (cases "len = 0")
    case True
    then have m: "m = 0" "p = Position x" using A(15,16) by simp_all
    have "\<not> Size x \<le> p" using A(12) m by (simp add: word_le_nat_alt)
    then have "x\<lparr>Position := p, Eof := (if Size x \<le> p then 1 else Eof x)\<rparr> = FileTab s ! f"
      using m A(4) by (intro File.equality) simp_all
    then have "set_files ((FileTab s)[f := x\<lparr>Position := p, Eof := (if Size x \<le> p then 1 else Eof x)\<rparr>]) s = s" by simp
    moreover have "readClusters n f c off len tot buf s = Ret (tot, buf) s" using True by (cases n) (simp_all add: kmonad)
    ultimately show ?thesis using m same_fs_refl [OF A(1)] by simp
  next
    case False
    then obtain n' where n: "n = Suc n'" using A(9) by (cases n) (simp_all add: unat_eq_0)
    define r where "r = min (unat len) (csize s - unat off)"
    define q where "q = Position x + of_nat r"
    have rl: "r \<le> length R" "r \<le> unat len" "r < 2 ^ 32" using R(2) G(4) by (auto simp: r_def)
    then have ur: "unat (of_nat r :: u32) = r" by (simp add: unsigned_of_nat take_bit_nat_eq_self_iff)
    have uq: "unat q = ?pos + r" unfolding q_def using ur rl(1) A(11) by (subst unat_small_add) simp_all
    obtain t where t: "same_fs i k s t" "readClusters (Suc n') f c off len tot buf s =
        (if Size x \<le> q then Ret (tot + of_nat r, buf @ take r (drop (unat off) (clusterData s c)))
           (set_files ((FileTab s)[f := x\<lparr>Position := q, Eof := 1\<rparr>]) t)
         else let c' = (if unat off + r = csize s then nextCluster s c else c) in
           if c' = 0 then Ret (tot + of_nat r, buf @ take r (drop (unat off) (clusterData s c)))
             (set_files ((FileTab s)[f := x\<lparr>Position := q, Eof := 1\<rparr>]) t)
           else readClusters n' f c' 0 (len - of_nat r) (tot + of_nat r) (buf @ take r (drop (unat off) (clusterData s c)))
             (set_files ((FileTab s)[f := x\<lparr>Position := q\<rparr>]) t))"
      using readClusters_step [OF A(1-5) _ _ A(7,8) False r_def refl q_def] H by metis
    have pre: "take r (drop (unat off) (clusterData s c)) = take r R"
      using R(1) length_clusterData [OF A(2)] by (simp add: r_def)
    show ?thesis
    proof (cases "?size \<le> ?pos + r")
      case True
      have "r = m"
      proof (cases "r = unat len")
        case False
        then have "r = csize s - unat off" by (simp add: r_def)
        then have "cs = []" using True A(14) R(2) by (cases cs) simp_all
        then show ?thesis using False R(2) A(15) rl(2) by (simp add: r_def)
      qed (use A(15) rl(1) in simp)
      moreover have "Size x \<le> q" using True uq by (simp add: word_le_nat_alt)
      ultimately show ?thesis
        using t(2) same_fs_set_files [OF t(1)] pre A(16) unfolding n q_def by auto
    next
      case False
      then have nq: "\<not> Size x \<le> q" using uq by (simp add: word_le_nat_alt)
      show ?thesis
      proof (cases "unat off + r = csize s")
        case True
        then have r: "r = csize s - unat off" using A(7) by simp
        then obtain d ds where cs: "cs = d # ds" using False A(13) R(2) by (cases cs) simp_all
        let ?x = "x\<lparr>Position := q\<rparr>" and ?s = "set_files ((FileTab s)[f := x\<lparr>Position := q\<rparr>]) t"
        note S = same_fsD [OF t(1)] and T = same_fs_geometry [OF t(1)]
        have ch: "isChain s (d # ds)" "nextCluster s c = d" "2 \<le> unat d" using H cs isChain_head [of s d ds] by simp_all
        have ft: "isChain ?s (d # ds)" "fileData ?s (d # ds) = fileData s cs" "csize ?s = csize s" "mounted ?s" "disk_ready i k ?s"
          using ch(1) isChain_cong [OF S(5,6)] T A(2) S(1) cs fileData_same_fs [OF t(1)] by simp_all
        have ul: "unat (len - of_nat r) = unat len - r" using rl(2) ur by (subst unat_sub) (simp_all add: word_le_nat_alt)
        define m' where "m' = min (unat len - r) (length (fileData s cs))"
        have lR: "length R = r + length (fileData s cs)" using R(2) r length_fileData [OF A(2)] by simp
        then have mm: "m = r + m'" using A(15) rl(2) by (simp add: m'_def)
        have 1: "length ds < length cs" using cs by simp
        have 2: "f < length (FileTab ?s)" "?x = FileTab ?s ! f" "Type ?x = FD_FILE" using A(3,5) by simp_all
        have 3: "unat (0 :: u32) < csize ?s" "unat (0 :: u32) mod 512 = 0" "unat (len - of_nat r) \<le> n'"
          using G(5) ft(3) ul A(7,9) n rl(2) r by simp_all
        have 4: "fileData s cs = drop (unat (0 :: u32)) (fileData ?s (d # ds))"
            "unat (Position ?x) + length (fileData s cs) < 2 ^ 32" "unat (Position ?x) < unat (Size ?x)"
            "unat (Size ?x) \<le> unat (Position ?x) + length (fileData s cs)"
            "unat (Position ?x) + length (fileData s cs) < unat (Size ?x) + csize ?s"
            "m' = min (unat (len - of_nat r)) (length (fileData s cs))"
          using ft(2,3) uq lR A(11,13,14) False ul by (simp_all add: m'_def)
        obtain u where u: "readClusters n' f d 0 (len - of_nat r) (tot + of_nat r) (buf @ take r R) ?s =
            Ret (tot + of_nat r + of_nat m', (buf @ take r R) @ take m' (fileData s cs)) u"
            "same_fs i k (set_files ((FileTab ?s)[f := ?x\<lparr>Position := Position ?x + of_nat m',
               Eof := (if Size ?x \<le> Position ?x + of_nat m' then 1 else Eof ?x)\<rparr>]) ?s) u"
          using less.hyps [OF 1 ft(5,4) 2 ft(1) 3 4 refl, of "tot + of_nat r" "buf @ take r R"] by blast
        have p: "q + of_nat m' = p" using A(16) mm by (simp add: q_def)
        have "same_fs i k (set_files ((FileTab s)[f := x\<lparr>Position := p, Eof := (if Size x \<le> p then 1 else Eof x)\<rparr>]) t) u"
          using u(2) by (cases "Size x \<le> p") (simp_all add: p)
        then have sf: "same_fs i k (set_files ((FileTab s)[f := x\<lparr>Position := p, Eof := (if Size x \<le> p then 1 else Eof x)\<rparr>]) s) u"
          using same_fs_trans [OF same_fs_set_files [OF t(1)]] by blast
        have "take m R = take r R @ take m' (fileData s cs)"
          using R(1) r length_clusterData [OF A(2)] mm by simp
        moreover have "d \<noteq> 0" using ch(3) by auto
        ultimately have "readClusters n f c off len tot buf s = Ret (tot + of_nat m, buf @ take m R) u"
          using t(2) nq True ch(2) u(1) pre mm unfolding n by simp
        then show ?thesis using sf by blast
      next
        case False
        then have r: "r = unat len" using A(7) by (auto simp: r_def min_def split: if_splits)
        have c: "c \<noteq> 0" using H by auto
        have "len - of_nat r = 0" using r by simp
        then have "readClusters n' f c 0 (len - of_nat r) tot' buf' u = Ret (tot', buf') u" for tot' buf' and u :: "'a kfat_scheme"
          by (cases n') (simp_all add: kmonad)
        moreover have "r = m" using A(15) r rl(1) by simp
        moreover have "x\<lparr>Position := q, Eof := Eof x\<rparr> = x\<lparr>Position := q\<rparr>" by simp
        ultimately show ?thesis
          using t(2) nq c False same_fs_set_files [OF t(1)] pre A(16) unfolding n q_def by (auto simp del: readClusters.simps)
      qed
    qed
  qed
qed

lemma followClusters_run:
  "isChain s cs \<Longrightarrow> h < length cs \<Longrightarrow> followClusters h (hd cs) s = Ret (cs ! h) s \<and> isChain s (drop h cs)"
proof (induction h arbitrary: cs)
  case 0
  then show ?case by (cases cs) (simp_all add: kmonad)
next
  case (Suc h)
  then obtain c d ds where cs: "cs = c # d # ds" by (metis Suc_less_eq length_Cons less_zeroE list.exhaust list.size(3))
  then show ?case using Suc.IH [of "d # ds"] Suc.prems by (simp add: kmonad fsFat12GetNextCluster_run)
qed

lemma drop_fileData:
  assumes "mounted s"
  shows "drop p (fileData s cs) = drop (p mod csize s) (fileData s (drop (p div csize s) cs))"
proof -
  let ?h = "p div csize s"
  have "fileData s cs = fileData s (take ?h cs) @ fileData s (drop ?h cs)"
    unfolding fileData_def by (metis append_take_drop_id concat_append map_append)
  moreover have "length (fileData s (take ?h cs)) = csize s * min (length cs) ?h"
    using length_fileData [OF assms] by simp
  moreover have "csize s * length cs \<le> p" if "\<not> ?h \<le> length cs"
    using mult_le_mono2 [of "length cs" ?h "csize s"] that times_div_less_eq_dividend [of "csize s" p] by linarith
  ultimately show ?thesis
    by (cases "?h \<le> length cs") (simp_all add: fileData_def min_def minus_mult_div_eq_mod)
qed

lemma fsFat12Read_run:
  assumes "disk_ready i k s" "mounted s" "f < length (FileTab s)" "x = FileTab s ! f" "Type x = FD_FILE" "Eof x = 0"
    and "isChain s cs" "hd cs = ucast (FirstCluster (DirEntry x))"
    and "unat (Position x) mod 512 = 0" "unat (Position x) < unat (Size x)" "unat (Size x) \<le> csize s * length cs"
    and "csize s * length cs < unat (Size x) + csize s" "csize s * length cs < 2 ^ 32"
    and "n = min (unat len) (csize s * length cs - unat (Position x))" "p = Position x + of_nat n"
  shows "\<exists>t. fsFat12Read (Some f) len s = Ret (of_nat n, take n (drop (unat (Position x)) (fileData s cs))) t \<and>
    same_fs i k (set_files ((FileTab s)[f := x\<lparr>Position := p, Eof := (if Size x \<le> p then 1 else 0)\<rparr>]) s) t"
proof -
  note G = geometry [OF assms(2)]
  let ?pos = "unat (Position x)" and ?CS = "ClusterSize (mnt s)"
  let ?h = "?pos div csize s" and ?o = "?pos mod csize s"
  have h: "?h < length cs" using assms(10,11) by (simp add: less_mult_imp_div_less mult.commute)
  note F = followClusters_run [OF assms(7) h]
  obtain c ds where c: "drop ?h cs = c # ds" "c = cs ! ?h" using h by (metis Cons_nth_drop_Suc)
  have dm: "unat (Position x div ?CS) = ?h" "unat (Position x mod ?CS) = ?o" using G(1) by (simp_all add: unat_div unat_mod)
  have CS: "?CS \<noteq> 0" using G(1,5) by auto
  let ?R = "drop (unat (Position x mod ?CS)) (fileData s (c # ds))"
  have R: "?R = drop ?pos (fileData s cs)" using drop_fileData [OF assms(2), of ?pos cs] dm(2) c(1) by simp
  have len: "length ?R = csize s * length cs - ?pos" unfolding R using length_fileData [OF assms(2)] by simp
  have o: "unat (Position x mod ?CS) < csize s" "unat (Position x mod ?CS) mod 512 = 0"
    using dm(2) G(5) assms(9) by (simp_all add: csize_def mod_mod_cancel)
  have pre: "isChain s (c # ds)" "?pos + length ?R < 2 ^ 32" "unat (Size x) \<le> ?pos + length ?R" "?pos + length ?R < unat (Size x) + csize s"
      "n = min (unat len) (length ?R)"
    using F c(1) len assms(10-14) by simp_all
  obtain t where t: "readClusters (unat len) f c (Position x mod ?CS) len 0 [] s = Ret (0 + of_nat n, [] @ take n ?R) t"
      "same_fs i k (set_files ((FileTab s)[f := x\<lparr>Position := p, Eof := (if Size x \<le> p then 1 else Eof x)\<rparr>]) s) t"
    using readClusters_run [OF assms(1-5) pre(1) o order_refl refl pre(2) assms(10) pre(3,4,5) assms(15)] by blast
  have "fsFat12Read (Some f) len s = Ret (of_nat n, take n (drop ?pos (fileData s cs))) t"
    using t(1) F CS dm(1) assms(4-6,8) c(2) unfolding R by (simp add: fsFat12Read_def kmonad)
  then show ?thesis using t(2) assms(6) by auto
qed

section \<open>Mounting\<close>

lemma mem_fs [simp]:
  fixes s :: "'a kfat_scheme"
  shows "disk_ready i k (s\<lparr>mem := m\<rparr>) = disk_ready i k s" "sector0 (s\<lparr>mem := m\<rparr>) = sector0 s" "mnt (s\<lparr>mem := m\<rparr>) = mnt s"
    "bpb (s\<lparr>mem := m\<rparr>) = bpb s" "disk_ready i k (s\<lparr>fatfs := x\<rparr>) = disk_ready i k s" "sector0 (s\<lparr>fatfs := x\<rparr>) = sector0 s"
proof -
  have dep: "depth j (s\<lparr>mem := m\<rparr>) = depth j s" "depth j (s\<lparr>fatfs := x\<rparr>) = depth j s" for j by (simp_all add: depth_def)
  show "disk_ready i k (s\<lparr>mem := m\<rparr>) = disk_ready i k s" "sector0 (s\<lparr>mem := m\<rparr>) = sector0 s" "mnt (s\<lparr>mem := m\<rparr>) = mnt s"
    "bpb (s\<lparr>mem := m\<rparr>) = bpb s" "disk_ready i k (s\<lparr>fatfs := x\<rparr>) = disk_ready i k s" "sector0 (s\<lparr>fatfs := x\<rparr>) = sector0 s"
    using dep by (simp_all add: disk_ready_def quiet_def sector0_def fun_eq_iff mnt_def bpb_def curproc_def)
qed

lemma loadFat_step:
  assumes "disk_ready i k s" "unat (of_nat a + FatOffset (mnt s)) < 2 ^ 28"
  obtains t where "same_fs i k s t" "loadFat (a # ks) off s = loadFat ks (off + 512) (t\<lparr>mem := write_bytes (mem s)
    (fatArray (fatfs s) + off * 5120) (take 512 (sector0 s (of_nat a + FatOffset (mnt s))))\<rparr>)"
proof -
  let ?g = "\<lambda>d. bindK (modifyK (\<lambda>s. s\<lparr>mem := write_bytes (mem s) (fatArray (fatfs s) + off * (512 * of_nat MAXFATSIZE)) (take 512 d)\<rparr>))
      (\<lambda>_. loadFat ks (off + 512)) :: ('a kfat_scheme, unit) op"
  have b: "of_nat a + FatOffset (mnt s) < (2 :: u32) ^ 28" using assms(2) by (simp add: word_less_nat_alt)
  obtain t where t: "bindK (diskBufferRead 0 (of_nat a + FatOffset (mnt s))) (\<lambda>b. bindK (getK (\<lambda>s. BufData (bufs s ! b))) (\<lambda>d.
      bindK (diskBufferRelease b) (\<lambda>_. ?g d))) s = ?g (sector0 s (of_nat a + FatOffset (mnt s))) t" "same_fs i k s t"
    by (rule with_sector [OF assms(1) b])
  have "loadFat (a # ks) off s = ?g (sector0 s (of_nat a + FatOffset (mnt s))) t"
    by (simp only: loadFat.simps bindK_getK t(1))
  then show thesis using that [OF t(2)] same_fsD(5,6) [OF t(2)] by (simp add: kmonad MAXFATSIZE_def)
qed

lemma away_from_array:
  assumes "1 \<le> a" "a < 10" "j < 5120"
  shows "512 \<le> unat (f + of_nat j - (f + of_nat (512 * a) * 5120) :: u32)"
proof -
  have e: "f + of_nat j - (f + of_nat (512 * a) * 5120) = of_nat j - (of_nat (2621440 * a) :: u32)" by simp
  have u: "unat (of_nat (2621440 * a) :: u32) = 2621440 * a" "unat (of_nat j :: u32) = j"
    using assms by (subst unsigned_of_nat, simp add: take_bit_nat_eq_self_iff)+
  show ?thesis unfolding e unat_sub_if_size u using assms by (simp add: word_size)
qed

lemma loadFat_tail:
  assumes "disk_ready i k s" "full_sectors s" "unat (FatOffset (mnt s)) < 2 ^ 16" "1 \<le> a" "a \<le> n" "n \<le> 10"
  shows "\<exists>t. loadFat [a..<n] (of_nat (512 * a)) s = Ret () t \<and> disk_ready i k t \<and> sector0 t = sector0 s \<and> fatfs t = fatfs s \<and>
    procs t = procs s \<and> FileTab t = FileTab s \<and>
    (\<forall>j < 5120. mem t (fatArray (fatfs s) + of_nat j) = mem s (fatArray (fatfs s) + of_nat j))"
  using assms
proof (induction "n - a" arbitrary: a s)
  case 0
  then show ?case by (simp add: kmonad)
next
  case (Suc d)
  let ?sec = "of_nat a + FatOffset (mnt s)"
  have "unat (of_nat a :: u32) = a" using Suc.prems(5,6) by (simp add: unsigned_of_nat take_bit_nat_eq_self_iff)
  then have "unat ?sec < 2 ^ 28" using Suc.prems(3,5,6) by (subst unat_small_add) simp_all
  then obtain t where t: "same_fs i k s t" "loadFat (a # [Suc a..<n]) (of_nat (512 * a)) s =
      loadFat [Suc a..<n] (of_nat (512 * a) + 512) (t\<lparr>mem := write_bytes (mem s) (fatArray (fatfs s) + of_nat (512 * a) * 5120) (take 512 (sector0 s ?sec))\<rparr>)"
    by (rule loadFat_step [OF Suc.prems(1)])
  let ?m = "write_bytes (mem s) (fatArray (fatfs s) + of_nat (512 * a) * 5120) (take 512 (sector0 s ?sec))"
  note S = same_fsD [OF t(1)]
  have l: "[a..<n] = a # [Suc a..<n]" "(of_nat (512 * a) + 512 :: u32) = of_nat (512 * Suc a)"
    using Suc.hyps(2) by (simp_all add: upt_conv_Cons)
  have 1: "disk_ready i k (t\<lparr>mem := ?m\<rparr>)" "full_sectors (t\<lparr>mem := ?m\<rparr>)" "unat (FatOffset (mnt (t\<lparr>mem := ?m\<rparr>))) < 2 ^ 16"
      "1 \<le> Suc a" "Suc a \<le> n" "n \<le> 10" "d = n - Suc a"
    using S Suc.prems Suc.hyps(2) by (simp_all add: full_sectors_def)
  from Suc.hyps(1) [OF 1(7,1-6)] obtain u where
      u: "loadFat [Suc a..<n] (of_nat (512 * Suc a)) (t\<lparr>mem := ?m\<rparr>) = Ret () u" "disk_ready i k u" "sector0 u = sector0 s"
         "fatfs u = fatfs s" "procs u = procs s" "FileTab u = FileTab s"
         "\<forall>j < 5120. mem u (fatArray (fatfs s) + of_nat j) = ?m (fatArray (fatfs s) + of_nat j)"
    using S(2-4,6) by auto
  have "?m (fatArray (fatfs s) + of_nat j) = mem s (fatArray (fatfs s) + of_nat j)" if "j < 5120" for j
    using away_from_array [of a j "fatArray (fatfs s)"] that Suc.prems(2,4,5,6) 1(5)
    by (subst write_bytes_apply) (simp_all add: full_sectors_def)
  then show ?case using t(2) u unfolding l by auto
qed

lemma fsFat12Initialise_run:
  assumes "disk_ready i k s" "full_sectors s" "b = parseBpb (sector0 s 0)"
  shows "\<exists>t. fsFat12Initialise s =
      (if BytesPerSector b \<noteq> 512 then Panic ''Sector size != 512''
       else if MAXFATSIZE < unat (SectorsPerFat b) then Panic ''FAT too large'' else Ret () t) \<and>
    (BytesPerSector b = 512 \<and> unat (SectorsPerFat b) \<le> MAXFATSIZE \<longrightarrow>
      disk_ready i k t \<and> sector0 t = sector0 s \<and> bpb t = b \<and> mnt t = mountInfoOf b \<and> fatArray (fatfs t) = fatArray (fatfs s) \<and>
      procs t = procs s \<and> FileTab t = FileTab s \<and>
      (\<forall>j < 512 * MAXFATSIZE. mem t (fatArray (fatfs s) + of_nat j) =
         (if j < 512 \<and> 0 < SectorsPerFat b then sector0 s (ucast (ReservedSectors b)) ! j
          else mem s (fatArray (fatfs s) + of_nat j))))"
proof -
  let ?fs = "(fatfs s)\<lparr>bootSector := b\<rparr>" and ?fs' = "(fatfs s)\<lparr>bootSector := b, mountInfo := mountInfoOf b\<rparr>"
  let ?n = "unat (SectorsPerFat b)"
  let ?f = "\<lambda>d. bindK (updFat (\<lambda>x. x\<lparr>bootSector := parseBpb d\<rparr>)) (\<lambda>_.
     bindK (getK bpb) (\<lambda>p.
     if BytesPerSector p \<noteq> 512 then panicK ''Sector size != 512''
     else bindK (updFat (\<lambda>x. x\<lparr>mountInfo := mountInfoOf p\<rparr>)) (\<lambda>_.
       if of_nat MAXFATSIZE < FatSize (mountInfoOf p) then panicK ''FAT too large''
       else loadFat [0..<unat (FatSize (mountInfoOf p))] 0))) :: ('a kfat_scheme, unit) op"
  obtain t where t: "fsFat12Initialise s = ?f (sector0 s 0) t" "same_fs i k s t"
    using with_sector [OF assms(1), of 0 ?f] by (auto simp: fsFat12Initialise_def)
  note S = same_fsD [OF t(2)]
  let ?t = "t\<lparr>fatfs := ?fs'\<rparr>"
  have n: "unat (FatSize (mountInfoOf b)) = ?n" by (simp add: mountInfoOf_def unat_bounds(2))
  then have c: "(of_nat MAXFATSIZE < FatSize (mountInfoOf b)) = (MAXFATSIZE < ?n)"
    by (simp add: word_less_nat_alt MAXFATSIZE_def)
  have run: "fsFat12Initialise s = (if BytesPerSector b \<noteq> 512 then Panic ''Sector size != 512''
      else if MAXFATSIZE < ?n then Panic ''FAT too large'' else loadFat [0..<?n] 0 ?t)"
    using t(1) S(6) c n assms(3) by (simp add: kmonad updFat_def bpb_def)
  show ?thesis
  proof (cases "BytesPerSector b = 512 \<and> ?n \<le> MAXFATSIZE")
    case ok: True
    then have ok': "?n \<le> 10" by (simp add: MAXFATSIZE_def)
    have T: "disk_ready i k ?t" "full_sectors ?t" "mnt ?t = mountInfoOf b" "bpb ?t = b" "fatfs ?t = ?fs'" "mem ?t = mem s"
        "unat (FatOffset (mnt ?t)) < 2 ^ 16" "sector0 ?t = sector0 s"
      using S assms(2) unat_bounds(4) [of "ReservedSectors b"]
      by (simp_all add: full_sectors_def mnt_def bpb_def mountInfoOf_def unat_bounds(2))
    show ?thesis
    proof (cases "?n = 0")
      case True
      then show ?thesis using run T S by (auto simp: kmonad unat_eq_0)
    next
      case False
      have ro: "FatOffset (mnt ?t) = ucast (ReservedSectors b)" using T(3) by (simp add: mountInfoOf_def)
      have "unat (of_nat 0 + FatOffset (mnt ?t)) < 2 ^ 28" using T(7) by simp
      from loadFat_step [OF T(1) this, of "[1..<?n]" 0] obtain u where u0: "same_fs i k ?t u"
          "loadFat (0 # [1..<?n]) 0 ?t = loadFat [1..<?n] (0 + 512) (u\<lparr>mem := write_bytes (mem ?t)
             (fatArray (fatfs ?t) + 0 * 5120) (take 512 (sector0 ?t (of_nat 0 + FatOffset (mnt ?t))))\<rparr>)"
        by blast
      then have u: "same_fs i k ?t u" "loadFat (0 # [1..<?n]) 0 ?t = loadFat [1..<?n] (0 + 512)
          (u\<lparr>mem := write_bytes (mem s) (fatArray (fatfs s)) (take 512 (sector0 s (ucast (ReservedSectors b))))\<rparr>)"
        unfolding ro T(5,6,8) by (simp_all del: loadFat.simps)
      let ?m = "write_bytes (mem s) (fatArray (fatfs s)) (take 512 (sector0 s (ucast (ReservedSectors b))))"
      note U = same_fsD [OF u(1)]
      have 1: "disk_ready i k (u\<lparr>mem := ?m\<rparr>)" "full_sectors (u\<lparr>mem := ?m\<rparr>)" "unat (FatOffset (mnt (u\<lparr>mem := ?m\<rparr>))) < 2 ^ 16" "1 \<le> ?n"
        using U T(2,7) False by (simp_all add: full_sectors_def)
      obtain v where v: "loadFat [1..<?n] (of_nat (512 * 1)) (u\<lparr>mem := ?m\<rparr>) = Ret () v" "disk_ready i k v" "sector0 v = sector0 s"
          "fatfs v = ?fs'" "procs v = procs s" "FileTab v = FileTab s"
          "\<forall>j < 5120. mem v (fatArray (fatfs s) + of_nat j) = ?m (fatArray (fatfs s) + of_nat j)"
        using loadFat_tail [OF 1(1-3) order_refl 1(4) ok'] U T(5,8) S(2-4) by auto
      have m: "?m (fatArray (fatfs s) + of_nat j) = (if j < 512 then sector0 s (ucast (ReservedSectors b)) ! j else mem s (fatArray (fatfs s) + of_nat j))"
        if "j < 5120" for j
      proof -
        have "unat (of_nat j :: u32) = j" using that by (subst unsigned_of_nat) (simp add: take_bit_nat_eq_self_iff)
        then show ?thesis using assms(2) by (subst write_bytes_apply) (simp_all add: full_sectors_def)
      qed
      have "0 < SectorsPerFat b" using False by (simp add: word_gt_0 unat_eq_0)
      moreover have "[0..<?n] = 0 # [1..<?n]" using False by (simp add: upt_conv_Cons)
      ultimately show ?thesis using run ok u(2) v m
        by (intro exI [of _ v]) (simp add: bpb_def mnt_def MAXFATSIZE_def)
    qed
  qed (use run in auto)
qed

section \<open>The allocation table\<close>

text \<open>\<open>pack12\<close> is the layout of a FAT12 table: two entries of 12 bits in three bytes.\<close>

fun pack12 :: "u16 list \<Rightarrow> byte list" where
  "pack12 [] = []"
| "pack12 [a] = [ucast a, ucast (drop_bit 8 a) AND 0x0F, 0]"
| "pack12 (a # b # es) =
     ucast a # ((ucast (drop_bit 8 a) AND 0x0F) OR push_bit 4 (ucast b AND 0x0F)) # ucast (drop_bit 4 b) # pack12 es"

definition decode12 :: "nat \<Rightarrow> byte list \<Rightarrow> u16" where
  "decode12 c bs = (let w = ucast (bs ! (c + c div 2)) OR push_bit 8 (ucast (bs ! (c + c div 2 + 1))) in
     if odd c then drop_bit 4 w else w AND 0x0FFF)"

lemma bit_12: "a < 0x1000 \<Longrightarrow> 12 \<le> n \<Longrightarrow> \<not> bit (a :: u16) n"
proof -
  assume a: "a < 0x1000" "12 \<le> n"
  have "take_bit 12 a = a" using a(1) by (simp add: take_bit_eq_mod mod_word_less)
  then have "bit a n = bit (take_bit 12 a) n" by simp
  then show ?thesis using a(2) by (simp add: bit_take_bit_iff)
qed

lemma byte_12:
  fixes a b :: u16
  assumes "a < 0x1000" "b < 0x1000"
  shows "(ucast (ucast a :: byte) OR push_bit 8 (ucast ((ucast (drop_bit 8 a) AND 0x0F) OR push_bit 4 (ucast b AND (0x0F :: byte))))) AND 0x0FFF = a"
    "drop_bit 4 (ucast ((ucast (drop_bit 8 a) AND 0x0F) OR push_bit 4 (ucast b AND (0x0F :: byte))) OR push_bit 8 (ucast (ucast (drop_bit 4 b) :: byte))) = b"
    "(ucast (ucast a :: byte) OR push_bit 8 (ucast (ucast (drop_bit 8 a) AND (0x0F :: byte)))) AND 0x0FFF = a"
proof -
  have m: "(0x0F :: byte) = mask 4" "(0x0FFF :: u16) = mask 12" by (simp_all add: mask_eq_exp_minus_1)
  have s: "bit a n \<Longrightarrow> n < 12" "bit b n \<Longrightarrow> n < 12" for n using bit_12 assms by (meson not_le)+
  have q: "n < 4" if "bit b n" "\<not> bit b (4 + (n - 4))" for n using that by (cases "n < 4") simp_all
  show "(ucast (ucast a :: byte) OR push_bit 8 (ucast ((ucast (drop_bit 8 a) AND 0x0F) OR push_bit 4 (ucast b AND (0x0F :: byte))))) AND 0x0FFF = a"
    unfolding m by (rule bit_word_eqI) (auto simp: bit_simps dest: s)
  show "drop_bit 4 (ucast ((ucast (drop_bit 8 a) AND 0x0F) OR push_bit 4 (ucast b AND (0x0F :: byte))) OR push_bit 8 (ucast (ucast (drop_bit 4 b) :: byte))) = b"
    unfolding m by (rule bit_word_eqI) (auto simp: bit_simps dest: s q)
  show "(ucast (ucast a :: byte) OR push_bit 8 (ucast (ucast (drop_bit 8 a) AND (0x0F :: byte)))) AND 0x0FFF = a"
    unfolding m by (rule bit_word_eqI) (auto simp: bit_simps dest: s)
qed

lemma decode12_step: "decode12 (d + 2) (x # y # z # bs) = decode12 d bs"
proof -
  have o: "d + 2 + (d + 2) div 2 = Suc (Suc (Suc (d + d div 2)))" "odd (d + 2) = odd d" by simp_all
  show ?thesis unfolding decode12_def o by simp
qed

lemma decode12_pack12: "c < length es \<Longrightarrow> \<forall>e \<in> set es. e < 0x1000 \<Longrightarrow> decode12 c (pack12 es) = es ! c"
proof (induction es arbitrary: c rule: pack12.induct)
  case (2 a)
  then show ?case using byte_12(3) [of a] by (simp add: decode12_def)
next
  case (3 a b es)
  show ?case
  proof (cases "c < 2")
    case True
    then have "c = 0 \<or> c = 1" by auto
    then show ?thesis using byte_12(1,2) [of a b] 3(3) by (auto simp: decode12_def)
  next
    case False
    then obtain d where d: "c = d + 2" by (metis add.commute le_add_diff_inverse not_less)
    then show ?thesis using 3(1) [of d] 3(2,3) unfolding d pack12.simps decode12_step by simp
  qed
qed simp

lemma length_pack12: "c < length es \<Longrightarrow> c + c div 2 + 1 < length (pack12 es)"
proof (induction es arbitrary: c rule: pack12.induct)
  case (3 a b es)
  show ?case
  proof (cases "c < 2")
    case False
    then obtain d where d: "c = d + 2" by (metis add.commute le_add_diff_inverse not_less)
    then show ?thesis using 3(1) [of d] 3(2) by simp
  qed auto
qed simp_all

lemma next_entry:
  assumes "\<forall>j < length (pack12 es). mem s (fatArray (fatfs s) + of_nat j) = pack12 es ! j"
    and "\<forall>e \<in> set es. e < 0x1000" "c < length es" "length es \<le> 0x10000"
  shows "fsFat12GetNextCluster (of_nat c) s = Ret (if 0xff8 \<le> es ! c \<or> es ! c = 0 then 0 else ucast (es ! c)) s"
proof -
  have u: "unat (of_nat c :: u32) = c" "unat (of_nat (c div 2) :: u32) = c div 2"
    using assms(3,4) by (subst unsigned_of_nat, simp add: take_bit_nat_eq_self_iff)+
  then have h: "(of_nat c :: u32) div 2 = of_nat (c div 2)" by (simp add: word_unat_eq_iff unat_div)
  have p: "((of_nat c :: u32) AND 1 \<noteq> 0) = odd c" by (simp add: and_one_eq mod2_eq_if)
  let ?o = "c + c div 2"
  have o: "?o < length (pack12 es)" "?o + 1 < length (pack12 es)" using length_pack12 [OF assms(3)] by simp_all
  have "mem s (fatArray (fatfs s) + of_nat ?o) = pack12 es ! ?o" "mem s (fatArray (fatfs s) + of_nat (?o + 1)) = pack12 es ! (?o + 1)"
    using assms(1) o by blast+
  then have e: "(ucast (mem s (fatArray (fatfs s) + (of_nat c + of_nat (c div 2)))) OR
      push_bit 8 (ucast (mem s (fatArray (fatfs s) + (of_nat c + of_nat (c div 2)) + 1))) :: u16) =
      ucast (pack12 es ! ?o) OR push_bit 8 (ucast (pack12 es ! (?o + 1)))"
    by (simp add: ac_simps)
  have "es ! c = (if odd c then drop_bit 4 (ucast (pack12 es ! ?o) OR push_bit 8 (ucast (pack12 es ! (?o + 1))))
      else (ucast (pack12 es ! ?o) OR push_bit 8 (ucast (pack12 es ! (?o + 1)))) AND 0x0FFF)"
    using decode12_pack12 [OF assms(3,2)] by (simp only: decode12_def Let_def)
  then show ?thesis
    unfolding fsFat12GetNextCluster_def bindK_getK case_prod_conv h e p Let_def by (simp only: returnK_def)
qed

section \<open>A floppy\<close>

text \<open>
  A small volume: the boot sector, one sector of table, one sector of root directory with the directory \<^verbatim>\<open>SUB\<close> and the
  file \<^verbatim>\<open>HELLO.TXT\<close> of 600 bytes in the clusters 2 and 3, and the cluster 4 of the directory with the file \<^verbatim>\<open>A.TXT\<close>.
\<close>

definition padded :: "byte list \<Rightarrow> byte list" where
  "padded bs = bs @ replicate (512 - length bs) 0"

definition floppyBoot :: "byte list" where
  "floppyBoot = [0xEB, 0x3C, 0x90, 0x55, 0x6F, 0x44, 0x4F, 0x53, 0x20, 0x20, 0x20, 0, 2, 1, 1, 0, 1, 16, 0, 10, 0, 0xF0, 1, 0, 18, 0, 2, 0,
     0, 0, 0, 0, 0, 0, 0, 0]"

definition floppyTable :: "u16 list" where
  "floppyTable = [0xFF0, 0xFFF, 3, 0xFFF, 0xFFF]"

definition entrySub :: "byte list" where
  "entrySub = [0x53, 0x55, 0x42, 0x20, 0x20, 0x20, 0x20, 0x20, 0x20, 0x20, 0x20, 0x10, 0, 0, 0, 0, 0, 0, 0, 0, 0, 0, 0, 0, 0, 0, 4, 0, 0, 0, 0, 0]"

definition entryHello :: "byte list" where
  "entryHello = [0x48, 0x45, 0x4C, 0x4C, 0x4F, 0x20, 0x20, 0x20, 0x54, 0x58, 0x54, 0x20, 0, 0, 0, 0, 0, 0, 0, 0, 0, 0, 0, 0, 0, 0, 2, 0, 0x58, 2, 0, 0]"

definition entryA :: "byte list" where
  "entryA = [0x41, 0x20, 0x20, 0x20, 0x20, 0x20, 0x20, 0x20, 0x54, 0x58, 0x54, 0x20, 0, 0, 0, 0, 0, 0, 0, 0, 0, 0, 0, 0, 0, 0, 3, 0, 9, 0, 0, 0]"

definition floppy :: "u32 \<Rightarrow> byte list" where
  "floppy sec = padded (if sec = 0 then floppyBoot else if sec = 1 then pack12 floppyTable else if sec = 2 then entrySub @ entryHello
     else if sec = 3 then replicate 512 7 else if sec = 4 then replicate 512 9 else if sec = 5 then entryA else [])"

definition fat_boot :: "kdisk \<Rightarrow> kfat" where
  "fat_boot s = kdisk.extend (s\<lparr>FileTab := replicate NFILE blank_file\<rparr>) \<lparr>fatfs = \<lparr>bootSector = parseBpb (replicate 512 0), mountInfo = mountInfoOf (parseBpb (replicate 512 0)), fatArray = 0x80110000\<rparr>\<rparr>"

lemma length_floppy: "length (floppy sec) = 512"
  by (simp add: floppy_def padded_def floppyBoot_def floppyTable_def entrySub_def entryHello_def entryA_def)

lemma floppy_bpb:
  "parseBpb (floppy 0) = \<lparr>OEMName = [0x55, 0x6F, 0x44, 0x4F, 0x53, 0x20, 0x20, 0x20], BytesPerSector = 512, SectorsPerCluster = 1,
     ReservedSectors = 1, NumberOfFats = 1, NumDirEntries = 16, NumSectors = 10, Media = 0xF0, SectorsPerFat = 1, SectorsPerTrack = 18,
     HeadsPerCyl = 2, HiddenSectors = 0, LongSectors = 0\<rparr>"
  by (simp add: floppy_def padded_def floppyBoot_def parseBpb_def le16_def le32_def nth_append)

lemma fat_boot_ready:
  assumes "quiet i k s" "cache_inv {} (disk s) xs"
  shows "disk_ready i k (fat_boot s)" "sector0 (fat_boot s) = sector0 s" "FileTab (fat_boot s) = replicate NFILE blank_file" "fatArray (fatfs (fat_boot s)) = 0x80110000"
proof -
  have sel: "cpus (fat_boot s) = cpus s" "ncpu (fat_boot s) = ncpu s" "localApicId (fat_boot s) = localApicId s"
    "eflags (fat_boot s) = eflags s" "locks (fat_boot s) = locks s" "processTable (fat_boot s) = processTable s" "disk (fat_boot s) = disk s"
    by (simp_all add: fat_boot_def kdisk.defs)
  then have "quiet i k (fat_boot s)" using assms(1)
    by (simp add: quiet_def cpu_ok_def cpu_index_def depth_def lock_free_def curproc_def)
  then show "disk_ready i k (fat_boot s)" "sector0 (fat_boot s) = sector0 s" "FileTab (fat_boot s) = replicate NFILE blank_file" "fatArray (fatfs (fat_boot s)) = 0x80110000"
    using assms(2) sel(7) by (auto simp: disk_ready_def sector0_def fat_boot_def kdisk.defs)
qed

lemma floppy_mounted:
  obtains s t where "diskBufferCacheInitialise (disk_boot floppy) = Ret () s" "fsFat12Initialise (fat_boot s) = Ret () t"
    "disk_ready 0 0 t" "mounted t" "sector0 t = floppy" "FileTab t = replicate NFILE blank_file" "bpb t = parseBpb (floppy 0)"
    "\<forall>j < length (pack12 floppyTable). mem t (fatArray (fatfs t) + of_nat j) = pack12 floppyTable ! j"
proof -
  obtain s where s: "diskBufferCacheInitialise (disk_boot floppy) = Ret () s" "quiet 0 0 s" "cache_inv {} (disk s) (rev [0..<NBUF])"
      "drives (controller (disk s)) = (\<lambda>_. floppy)"
    by (rule cache_boot)
  note B = fat_boot_ready [OF s(2,3)]
  have sec: "sector0 (fat_boot s) = floppy" using B(2) s(4) by (simp add: sector0_def onDisk_def fun_eq_iff)
  then have full: "full_sectors (fat_boot s)" by (simp add: full_sectors_def length_floppy)
  let ?b = "parseBpb (floppy 0)"
  have b: "?b = parseBpb (sector0 (fat_boot s) 0)" using sec by simp
  have g: "BytesPerSector ?b = 512" "unat (SectorsPerFat ?b) \<le> MAXFATSIZE" "SectorsPerFat ?b = 1" "ReservedSectors ?b = 1" "SectorsPerCluster ?b = 1"
    unfolding floppy_bpb by (simp_all add: MAXFATSIZE_def)
  obtain t where t: "fsFat12Initialise (fat_boot s) = Ret () t" "disk_ready 0 0 t" "sector0 t = floppy" "bpb t = ?b" "mnt t = mountInfoOf ?b"
      "fatArray (fatfs t) = fatArray (fatfs (fat_boot s))" "FileTab t = replicate NFILE blank_file"
      "\<forall>j < 512 * MAXFATSIZE. mem t (fatArray (fatfs (fat_boot s)) + of_nat j) = (if j < 512 \<and> 0 < SectorsPerFat ?b
        then floppy (ucast (ReservedSectors ?b)) ! j else mem (fat_boot s) (fatArray (fatfs (fat_boot s)) + of_nat j))"
    using fsFat12Initialise_run [OF B(1) full b] g(1,2) B(3) unfolding sec by auto
  have m: "mounted t" using t(3-5) g(1,5) by (simp add: mounted_def full_sectors_def length_floppy)
  have one: "0 < SectorsPerFat ?b" "(ucast (ReservedSectors ?b) :: u32) = 1" unfolding g(3,4) by simp_all
  have "mem t (fatArray (fatfs t) + of_nat j) = pack12 floppyTable ! j" if j: "j < length (pack12 floppyTable)" for j
  proof -
    have l: "length (pack12 floppyTable) = 9" by (simp add: floppyTable_def)
    then have "j < 512" "j < 512 * MAXFATSIZE" using j by (simp_all add: MAXFATSIZE_def)
    then have "mem t (fatArray (fatfs t) + of_nat j) = floppy 1 ! j" using t(6,8) one by simp
    then show ?thesis using j by (simp add: floppy_def padded_def nth_append)
  qed
  then show thesis using that s(1) t(1-4,7) m by blast
qed

lemma floppy_chain:
  assumes "\<forall>j < length (pack12 floppyTable). mem t (fatArray (fatfs t) + of_nat j) = pack12 floppyTable ! j"
  shows "isChain t [2, 3]" "isChain t [3]"
proof -
  have e: "\<forall>e \<in> set floppyTable. e < 0x1000" "length floppyTable \<le> 0x10000" "2 < length floppyTable" "3 < length floppyTable"
    by (simp_all add: floppyTable_def)
  have "nextCluster t (of_nat 2) = 3" "nextCluster t (of_nat 3) = 0"
    using next_entry [OF assms e(1,3,2)] next_entry [OF assms e(1,4,2)] by (simp_all add: nextCluster_def floppyTable_def)
  then show "isChain t [2, 3]" "isChain t [3]" by simp_all
qed

lemma floppy_geometry:
  assumes "mounted t" "sector0 t = floppy" "bpb t = parseBpb (floppy 0)"
  shows "csize t = 512" "clusterData t 2 = replicate 512 7" "clusterData t 3 = replicate 512 9" "clusterData t 4 = floppy 5"
    "RootOffset (mnt t) = 2" "NumRootEntries (mnt t) = 16"
proof -
  have m: "mnt t = mountInfoOf (parseBpb (floppy 0))" using assms(1,3) by (simp add: mounted_def)
  have s: "spc t = 1" "RootOffset (mnt t) = 2" "RootSize (mnt t) = 1" "NumRootEntries (mnt t) = 16"
    unfolding m spc_def assms(3) floppy_bpb by (simp_all add: mountInfoOf_def)
  show "csize t = 512" "RootOffset (mnt t) = 2" "NumRootEntries (mnt t) = 16" using s by (simp_all add: csize_def)
  have c: "clusterData t c = floppy (3 + (c - 2))" for c
    by (simp add: clusterData_def clusterStart_def sectorsFrom_def s assms(2)) (simp add: assms(3) floppy_bpb)
  show "clusterData t 2 = replicate 512 7" "clusterData t 3 = replicate 512 9" "clusterData t 4 = floppy 5"
    unfolding c by (simp_all add: floppy_def padded_def)
qed

section \<open>Properties\<close>

text \<open>
  C8: reading a file.  A file of the FAT12 volume whose clusters are linked in the table, whose size ends in the last
  cluster and whose position is at the start of a sector before the end is read from the disk
  exactly: the read returns the next bytes of the concatenated clusters, as many as asked for or as
  are left in the clusters, advances the position by that number and sets the end of file flag
  when the position reaches the size.  No other file, no process and no memory changes.
\<close>

theorem file_read_exact:
  assumes "disk_ready i k s" "mounted s" "f < length (FileTab s)" "x = FileTab s ! f" "Type x = FD_FILE" "Eof x = 0"
    and "isChain s cs" "hd cs = ucast (FirstCluster (DirEntry x))"
    and "unat (Position x) mod 512 = 0" "unat (Position x) < unat (Size x)" "unat (Size x) \<le> csize s * length cs"
    and "csize s * length cs < unat (Size x) + csize s" "csize s * length cs < 2 ^ 32"
    and "n = min (unat len) (csize s * length cs - unat (Position x))" "p = Position x + of_nat n"
  shows "\<exists>t. fsFat12Read (Some f) len s = Ret (of_nat n, take n (drop (unat (Position x)) (fileData s cs))) t \<and>
    FileTab t = (FileTab s)[f := x\<lparr>Position := p, Eof := (if Size x \<le> p then 1 else 0)\<rparr>] \<and>
    disk_ready i k t \<and> sector0 t = sector0 s \<and> procs t = procs s \<and> mem t = mem s"
proof -
  obtain t where t: "fsFat12Read (Some f) len s = Ret (of_nat n, take n (drop (unat (Position x)) (fileData s cs))) t"
      "same_fs i k (set_files ((FileTab s)[f := x\<lparr>Position := p, Eof := (if Size x \<le> p then 1 else 0)\<rparr>]) s) t"
    using fsFat12Read_run [OF assms] by blast
  then show ?thesis using same_fsD [OF t(2)] by auto
qed

theorem file_read_exact_witness:
  "\<exists>(s :: kfat) t. fsFat12Read (Some 0) 1000 s = Ret (1000, replicate 512 7 @ replicate 488 9) t \<and> Eof (FileTab t ! 0) = 1"
proof -
  obtain s :: kfat where s: "disk_ready 0 0 s" "mounted s" "sector0 s = floppy" "FileTab s = replicate NFILE blank_file" "bpb s = parseBpb (floppy 0)"
      "\<forall>j < length (pack12 floppyTable). mem s (fatArray (fatfs s) + of_nat j) = pack12 floppyTable ! j"
    using floppy_mounted by metis
  note G = floppy_geometry [OF s(2,3,5)] and C = floppy_chain [OF s(6)]
  define x where "x = blank_file\<lparr>Type := FD_FILE, ReferenceCount := 1, DirEntry := blank_entry\<lparr>FirstCluster := 2\<rparr>, Size := 600\<rparr>"
  let ?s = "set_files ((FileTab s)[0 := x]) s"
  have x: "Type x = FD_FILE" "Eof x = 0" "Position x = 0" "Size x = 600" "FirstCluster (DirEntry x) = 2"
    by (simp_all add: x_def blank_file_def blank_entry_def)
  have f: "0 < length (FileTab ?s)" "x = FileTab ?s ! 0" using s(4) by (simp_all add: NFILE_def)
  have fd: "fileData ?s [2, 3] = replicate 512 7 @ replicate 512 9" using G(2,3) by (simp add: fileData_def)
  have "\<exists>t. fsFat12Read (Some 0) 1000 ?s = Ret (of_nat 1000, take 1000 (drop (unat (Position x)) (fileData ?s [2, 3]))) t \<and>
      FileTab t = (FileTab ?s)[0 := x\<lparr>Position := 1000, Eof := (if Size x \<le> 1000 then 1 else 0)\<rparr>] \<and>
      disk_ready 0 0 t \<and> sector0 t = sector0 ?s \<and> procs t = procs ?s \<and> mem t = mem ?s"
    by (rule file_read_exact [OF _ _ f x(1,2)]) (use s(1,2) C(1) x G(1) in \<open>simp_all\<close>)
  then obtain t where t: "fsFat12Read (Some 0) 1000 ?s = Ret (1000, take 1000 (fileData ?s [2, 3])) t"
      "FileTab t = (FileTab ?s)[0 := x\<lparr>Position := 1000, Eof := 1\<rparr>]"
    using x by auto
  have "take 1000 (fileData ?s [2, 3]) = replicate 512 7 @ replicate 488 9" unfolding fd by simp
  then show ?thesis using t f(1) by (intro exI [of _ ?s] exI [of _ t]) simp
qed

text \<open>
  C29: mounting.  A volume whose sectors do not have 512 bytes, or whose table is longer than the array for it, panics.
  Otherwise the mount computes the layout of the volume from its boot sector and loads the first sector of
  the table to the start of the array.  The rest of the array keeps its old contents whatever the
  length of the table is, because the later sectors are stored whole arrays further on.
\<close>

theorem mount_loads_first_sector:
  assumes "disk_ready i k s" "full_sectors s" "b = parseBpb (sector0 s 0)"
  shows "\<exists>t. fsFat12Initialise s =
      (if BytesPerSector b \<noteq> 512 then Panic ''Sector size != 512''
       else if MAXFATSIZE < unat (SectorsPerFat b) then Panic ''FAT too large'' else Ret () t) \<and>
    (BytesPerSector b = 512 \<and> unat (SectorsPerFat b) \<le> MAXFATSIZE \<longrightarrow>
      disk_ready i k t \<and> sector0 t = sector0 s \<and> bpb t = b \<and> mnt t = mountInfoOf b \<and> procs t = procs s \<and> FileTab t = FileTab s \<and>
      (\<forall>j < 512 * MAXFATSIZE. mem t (fatArray (fatfs s) + of_nat j) =
         (if j < 512 \<and> 0 < SectorsPerFat b then sector0 s (ucast (ReservedSectors b)) ! j
          else mem s (fatArray (fatfs s) + of_nat j))))"
  using fsFat12Initialise_run [OF assms] by auto

theorem mount_loads_first_sector_witness:
  "\<exists>(s :: kfat) t. fsFat12Initialise s = Ret () t \<and> mnt t = mountInfoOf (parseBpb (floppy 0)) \<and>
    mem t (fatArray (fatfs s)) = 0xF0"
proof -
  obtain s where s: "diskBufferCacheInitialise (disk_boot floppy) = Ret () s" "quiet 0 0 s" "cache_inv {} (disk s) (rev [0..<NBUF])"
      "drives (controller (disk s)) = (\<lambda>_. floppy)"
    by (rule cache_boot)
  note B = fat_boot_ready [OF s(2,3)]
  have sec: "sector0 (fat_boot s) = floppy" using B(2) s(4) by (simp add: sector0_def onDisk_def fun_eq_iff)
  then have full: "full_sectors (fat_boot s)" by (simp add: full_sectors_def length_floppy)
  have b: "parseBpb (floppy 0) = parseBpb (sector0 (fat_boot s) 0)" using sec by simp
  have g: "BytesPerSector (parseBpb (floppy 0)) = 512" "unat (SectorsPerFat (parseBpb (floppy 0))) \<le> MAXFATSIZE"
      "SectorsPerFat (parseBpb (floppy 0)) = 1" "ReservedSectors (parseBpb (floppy 0)) = 1" "0 < 512 * MAXFATSIZE"
    unfolding floppy_bpb by (simp_all add: MAXFATSIZE_def)
  have z: "floppy 1 ! 0 = 0xF0" by (simp add: floppy_def padded_def floppyTable_def)
  obtain t where t: "fsFat12Initialise (fat_boot s) = Ret () t" "mnt t = mountInfoOf (parseBpb (floppy 0))"
      "\<forall>j < 512 * MAXFATSIZE. mem t (fatArray (fatfs (fat_boot s)) + of_nat j) = (if j < 512 \<and> 0 < SectorsPerFat (parseBpb (floppy 0))
        then floppy (ucast (ReservedSectors (parseBpb (floppy 0)))) ! j else mem (fat_boot s) (fatArray (fatfs (fat_boot s)) + of_nat j))"
    using mount_loads_first_sector [OF B(1) full b] g(1,2) unfolding sec by auto
  have "mem t (fatArray (fatfs (fat_boot s))) = 0xF0" using spec [OF t(3), of 0] g(3-5) z by simp
  then show ?thesis using t(1,2) by blast
qed

text \<open>
  C28: the table entries.  When the array holds a packed table of 12-bit entries, the successor of every cluster is its
  entry of the table, and 0 for the entries that end a chain and for free clusters.
\<close>

theorem next_cluster_decodes:
  assumes "\<forall>j < length (pack12 es). mem s (fatArray (fatfs s) + of_nat j) = pack12 es ! j"
    and "\<forall>e \<in> set es. e < 0x1000" "c < length es" "length es \<le> 0x10000"
  shows "fsFat12GetNextCluster (of_nat c) s = Ret (if 0xff8 \<le> es ! c \<or> es ! c = 0 then 0 else ucast (es ! c)) s"
  by (rule next_entry [OF assms])

theorem next_cluster_decodes_witness:
  "\<exists>(s :: kfat). fsFat12GetNextCluster 2 s = Ret 3 s"
proof -
  obtain s :: kfat where s: "\<forall>j < length (pack12 floppyTable). mem s (fatArray (fatfs s) + of_nat j) = pack12 floppyTable ! j"
    using floppy_mounted by metis
  have "\<forall>e \<in> set floppyTable. e < 0x1000" "2 < length floppyTable" "length floppyTable \<le> 0x10000" by (simp_all add: floppyTable_def)
  from next_cluster_decodes [OF s this] show ?thesis by (auto simp: floppyTable_def)
qed

end
