(* ===== verification/FatPath.thy ===== *)
theory FatPath
  imports Fat
begin

text \<open>
  Names, directories and paths of the file system: what \<^verbatim>\<open>toDosFileName\<close>, the two directory searches and
  \<^verbatim>\<open>fsFat12Open\<close> of \<^verbatim>\<open>fs.c\<close> compute, in terms of the entries on the disk.
\<close>

section \<open>Names\<close>

lemma takeWhile_upt:
  "i < length (takeWhile P [0..<m]) \<Longrightarrow> P i"
  "(\<forall>j < n. P j) \<Longrightarrow> \<not> P n \<Longrightarrow> n < m \<Longrightarrow> length (takeWhile P [0..<m]) = n"
proof -
  show "P i" if "i < length (takeWhile P [0..<m])"
    using that nth_mem [OF that] takeWhile_nth [OF that] length_takeWhile_le [of P "[0..<m]"] set_takeWhileD [of i P] by simp
  show "length (takeWhile P [0..<m]) = n" if "\<forall>j < n. P j" "\<not> P n" "n < m"
  proof -
    have "[0..<m] = [0..<n] @ n # [Suc n..<m]"
      using upt_add_eq_append [of 0 n "m - n"] upt_conv_Cons [OF that(3)] that(3) by simp
    then show ?thesis using that(1,2) by (simp add: takeWhile_append)
  qed
qed

lemma strlenAt_char: "i < strlenAt f \<Longrightarrow> f i \<noteq> 0"
  unfolding strlenAt_def by (rule takeWhile_upt(1))

lemma strlenAt_eq: "\<forall>j < n. f j \<noteq> 0 \<Longrightarrow> f n = 0 \<Longrightarrow> n < 255 \<Longrightarrow> strlenAt f = n"
  unfolding strlenAt_def by (rule takeWhile_upt(2)) simp_all

lemma toupper_nonzero: "c \<noteq> 0 \<Longrightarrow> toupper c \<noteq> 0"
proof (cases "0x61 \<le> c \<and> c \<le> 0x7A")
  case True
  then have "unat (c - 0x20) = unat c - 0x20" by (subst unat_sub) (simp_all add: word_le_nat_alt)
  then have "c - 0x20 \<noteq> 0" using True by (auto simp: word_le_nat_alt)
  moreover have "toupper c = c - 0x20" using True by (simp add: toupper_def)
  ultimately show ?thesis by simp
qed (auto simp: toupper_def)

lemma dosBase_keeps: "0 \<notin> set c \<Longrightarrow> dosBase f n i c = (j, c') \<Longrightarrow> 0 \<notin> set c' \<and> length c' = length c"
proof (induction f n i c rule: dosBase.induct)
  case (1 f n i c)
  have u: "0 \<notin> set (c[i := toupper (f i)])" if "i < strlenAt f"
    using toupper_nonzero [OF strlenAt_char [OF that]] "1.prems"(1) set_update_subset_insert [of c i "toupper (f i)"] by (metis insert_iff subsetD)
  show ?case
    using "1.prems"(1) "1.IH" u "1.prems"(2) [unfolded dosBase.simps [of f n i c]] by (auto split: if_splits)
qed

lemma toDosFileName_chars:
  assumes "length c = 11"
  shows "0 \<notin> set (toDosFileName f c 11) \<and> length (toDosFileName f c 11) = 11"
proof -
  obtain i d where d: "dosBase f 11 0 (replicate 11 0x20) = (i, d)" by (cases "dosBase f 11 0 (replicate 11 0x20)")
  have r: "0 \<notin> set (replicate 11 (0x20 :: byte))" by simp
  have k: "0 \<notin> set d" "length d = 11" using dosBase_keeps [OF r d] by simp_all
  have u: "0 \<notin> set (c[j := x]) \<and> length (c[j := x]) = 11" if "0 \<notin> set c" "length c = 11" "x \<noteq> 0" for c :: "byte list" and j x
    using that set_update_subset_insert [of c j x] by auto
  have step: "0 \<notin> set (if f j \<noteq> 0 then c[m := toupper (f j)] else c) \<and> length (if f j \<noteq> 0 then c[m := toupper (f j)] else c) = 11"
    if "0 \<notin> set c \<and> length c = 11" for c j m
    using that u [of c "toupper (f j)" m] toupper_nonzero by simp
  have "0 \<notin> set (dosExt f i d) \<and> length (dosExt f i d) = 11"
    unfolding dosExt_def fold.simps comp_apply id_apply by (intro step) (simp add: k)
  then show ?thesis
    using assms d k u [OF r] u by (auto simp: toDosFileName_def Let_def)
qed

definition dosName :: "(nat \<Rightarrow> byte) \<Rightarrow> byte list" where
  "dosName f = toDosFileName f (replicate 11 0) 11"

lemma toDosFileName_buffer:
  assumes "length c = 11"
  shows "toDosFileName f (c @ r) 11 = dosName f @ r"
proof -
  have base: "dosBase f 11 i (d @ r) = (case dosBase f 11 i d of (j, d') \<Rightarrow> (j, d' @ r))" if "length d = 11" for i d
    using that
  proof (induction "11 - i" arbitrary: i d)
    case 0
    then show ?case by (subst (1 2) dosBase.simps) simp
  next
    case (Suc n)
    show ?case using Suc.hyps(1) [of "Suc i" "d[i := toupper (f i)]"] Suc.hyps(2) Suc.prems
      by (subst (1 2) dosBase.simps) (simp add: list_update_append)
  qed
  obtain i d where d: "dosBase f 11 0 (replicate 11 0x20) = (i, d)" by (cases "dosBase f 11 0 (replicate 11 0x20)")
  have l: "length d = 11" using dosBase_keeps [OF _ d] by simp
  have ext: "dosExt f i (d @ r) = dosExt f i d @ r" using l by (simp add: dosExt_def list_update_append)
  show ?thesis
    using base [of "replicate 11 0x20" 0] d assms ext
    by (simp add: toDosFileName_def dosName_def Let_def list_update_append)
qed

lemma dosNameOf_dosName: "11 \<le> length junk \<Longrightarrow> cString (dosNameOf f junk) = dosName f"
proof -
  assume j: "11 \<le> length junk"
  have d: "0 \<notin> set (dosName f)" "length (dosName f) = 11" using toDosFileName_chars [of "replicate 11 0" f] by (simp_all add: dosName_def)
  have "take 12 junk = take 11 junk @ take 1 (drop 11 junk)" using take_add [of 11 1 junk] by simp
  then have "dosNameOf f junk = (dosName f @ take 1 (drop 11 junk))[11 := 0]"
    using toDosFileName_buffer [of "take 11 junk"] j by (simp add: dosNameOf_def)
  also have "\<dots> = dosName f @ (take 1 (drop 11 junk))[0 := 0]" using d by (simp add: list_update_append)
  also have "cString \<dots> = dosName f"
    using d(1) by (cases "drop 11 junk") (auto simp: cString_def takeWhile_append)
  finally show ?thesis .
qed

lemma cString_entry: "length e = 11 \<Longrightarrow> 0 \<notin> set d \<Longrightarrow> length d = 11 \<Longrightarrow> (d = cString (e @ [0])) = (e = d)"
proof -
  assume a: "length e = 11" "0 \<notin> set d" "length d = 11"
  have "e = d" if "d = takeWhile (\<lambda>c. c \<noteq> 0) e"
    using that a takeWhile_eq_take [of "\<lambda>c. c \<noteq> 0" e] by (metis length_takeWhile_le nle_le take_all)
  moreover have "takeWhile (\<lambda>c. c \<noteq> 0) d = d" using a(2) by (auto simp: takeWhile_eq_all_conv)
  ultimately show ?thesis by (auto simp: cString_def takeWhile_append)
qed

section \<open>Directories\<close>

definition sectorEntries :: "byte list \<Rightarrow> byte list list" where
  "sectorEntries d = map (\<lambda>i. take 32 (drop (32 * i) d)) [0..<16]"

definition rootEntries :: "'a kfat_scheme \<Rightarrow> byte list list" where
  "rootEntries s = concat (map (\<lambda>j. sectorEntries (sector0 s (RootOffset (mnt s) + of_nat j))) [0..<unat (NumRootEntries (mnt s) div 16)])"

definition lookupEntry :: "byte list \<Rightarrow> byte list list \<Rightarrow> DirectoryEntry option" where
  "lookupEntry name es = map_option (\<lambda>e. parseDirectoryEntry e 0) (List.find (\<lambda>e. take 11 e = name) es)"

lemma find_cong: "(\<And>x. x \<in> set xs \<Longrightarrow> P x = Q x) \<Longrightarrow> List.find P xs = List.find Q xs"
  by (induction xs) auto

lemma find_map_option: "List.find P (map f xs) = map_option f (List.find (\<lambda>x. P (f x)) xs)"
  by (induction xs) auto

lemma find_append: "List.find P (xs @ ys) = (case List.find P xs of None \<Rightarrow> List.find P ys | r \<Rightarrow> r)"
  by (induction xs) auto

lemma parse_slice:
  assumes "k + 32 \<le> length d"
  shows "parseDirectoryEntry d k = parseDirectoryEntry (take 32 (drop k d)) 0"
proof -
  let ?e = "take 32 (drop k d)"
  have n: "?e ! j = d ! (k + j)" if "j < 32" for j using that assms by simp
  have w: "le16 ?e j = le16 d (k + j)" if "j < 31" for j using that n [of j] n [of "j + 1"] by (simp only: le16_def add.assoc)
  have l: "le32 ?e 28 = le32 d (k + 28)" using w [of 28] w [of 30] by (simp add: le32_def add.commute)
  have t: "take 8 ?e = take 8 (drop k d)" "take 3 (drop 8 ?e) = take 3 (drop (k + 8) d)"
    by (simp_all add: drop_take min_def add.commute)
  have b: "?e ! 11 = d ! (k + 11)" "?e ! 12 = d ! (k + 12)" "?e ! 13 = d ! (k + 13)" by (rule n, simp)+
  have h: "le16 ?e 14 = le16 d (k + 14)" "le16 ?e 16 = le16 d (k + 16)" "le16 ?e 18 = le16 d (k + 18)" "le16 ?e 20 = le16 d (k + 20)"
      "le16 ?e 22 = le16 d (k + 22)" "le16 ?e 24 = le16 d (k + 24)" "le16 ?e 26 = le16 d (k + 26)"
    by (rule w, simp)+
  show ?thesis by (simp only: parseDirectoryEntry_def add_0 drop_0 t l b h)
qed

lemma searchSectors:
  assumes "length d = 512" "cString dn = n" "0 \<notin> set n" "length n = 11"
  shows "searchRootSector dn d = lookupEntry n (sectorEntries d)" "searchSubSector dn d = lookupEntry n (sectorEntries d)"
proof -
  let ?e = "\<lambda>i. take 32 (drop (32 * i) d)"
  have slot: "entryName d i = take 11 (?e i)" "length (entryName d i) = 11" "parseDirectoryEntry d (32 * i) = parseDirectoryEntry (?e i) 0"
      "d ! (32 * i) = entryName d i ! 0" if "i < 16" for i
    using that assms(1) parse_slice [of "32 * i" d] by (simp_all add: entryName_def min_def)
  have m: "(n = cString (entryName d i @ [0])) = (take 11 (?e i) = n)" if "i < 16" for i
    using cString_entry [OF slot(2) [OF that] assms(3,4)] slot(1) [OF that] by simp
  have z: "d ! (32 * i) \<noteq> 0" if "i < 16" "take 11 (?e i) = n" for i
    using slot(1,4) [OF that(1)] that(2) assms(3,4) by (metis nth_mem zero_less_numeral)
  have p: "List.find (\<lambda>i. d ! (32 * i) \<noteq> 0 \<and> cString dn = cString (entryName d i @ [0])) [0..<16] = List.find (\<lambda>i. take 11 (?e i) = n) [0..<16]"
    "List.find (\<lambda>i. cString (entryName d i @ [0]) = cString dn) [0..<16] = List.find (\<lambda>i. take 11 (?e i) = n) [0..<16]"
    using m z assms(2) by (intro find_cong; metis atLeastLessThan_iff atLeastLessThan_upt)+
  have q: "map_option (\<lambda>i. parseDirectoryEntry d (32 * i)) (List.find (\<lambda>i. take 11 (?e i) = n) [0..<16]) =
      map_option (\<lambda>i. parseDirectoryEntry (?e i) 0) (List.find (\<lambda>i. take 11 (?e i) = n) [0..<16])"
    using slot(3) by (intro option.map_cong0) (auto simp: find_Some_iff)
  show "searchRootSector dn d = lookupEntry n (sectorEntries d)" "searchSubSector dn d = lookupEntry n (sectorEntries d)"
    unfolding searchRootSector_def searchSubSector_def p q lookupEntry_def sectorEntries_def find_map_option
    by (simp_all add: option.map_comp o_def)
qed

lemma dosName_chars: "0 \<notin> set (dosName f)" "length (dosName f) = 11"
  using toDosFileName_chars [of "replicate 11 0" f] by (simp_all add: dosName_def)

lemma findRootLoop_run:
  assumes "disk_ready i k s" "full_sectors s" "cString dn = n" "0 \<notin> set n" "length n = 11"
    and "unat (RootOffset (mnt s)) + b \<le> 2 ^ 28" "a \<le> b"
  shows "\<exists>t. findRootLoop dn [a..<b] s =
    Ret (lookupEntry n (concat (map (\<lambda>j. sectorEntries (sector0 s (RootOffset (mnt s) + of_nat j))) [a..<b]))) t \<and> same_fs i k s t"
  using assms
proof (induction "b - a" arbitrary: a s)
  case 0
  then show ?case using same_fs_refl by (auto simp: kmonad lookupEntry_def)
next
  case (Suc m)
  let ?sec = "RootOffset (mnt s) + of_nat a" and ?f = "\<lambda>d. (case searchRootSector dn d of
       Some e \<Rightarrow> returnK (Some e)
     | None \<Rightarrow> findRootLoop dn [Suc a..<b]) :: ('a kfat_scheme, DirectoryEntry option) op"
  have ab: "[a..<b] = a # [Suc a..<b]" "Suc a \<le> b" "m = b - Suc a" using Suc.hyps(2) by (simp_all add: upt_conv_Cons)
  have "unat (of_nat a :: u32) = a" using Suc.prems(6) ab(2) by (subst unsigned_of_nat) (simp add: take_bit_nat_eq_self_iff)
  then have "unat ?sec = unat (RootOffset (mnt s)) + a" using Suc.prems(6) ab(2) by (subst unat_small_add) simp_all
  then have sec: "?sec < 2 ^ 28" using Suc.prems(6) ab(2) by (simp add: word_less_nat_alt)
  obtain t where t: "bindK (diskBufferRead 0 ?sec) (\<lambda>b. bindK (getK (\<lambda>s. BufData (bufs s ! b))) (\<lambda>d.
      bindK (diskBufferRelease b) (\<lambda>_. ?f d))) s = ?f (sector0 s ?sec) t" "same_fs i k s t"
    by (rule with_sector [OF Suc.prems(1) sec])
  note S = same_fsD [OF t(2)]
  have run: "findRootLoop dn [a..<b] s = ?f (sector0 s ?sec) t" by (simp only: ab(1) findRootLoop.simps bindK_getK t(1))
  have l: "length (sector0 s ?sec) = 512" using Suc.prems(2) by (simp add: full_sectors_def)
  have pre: "full_sectors t" "unat (RootOffset (mnt t)) + b \<le> 2 ^ 28" using S Suc.prems(2,6) by (simp_all add: full_sectors_def)
  obtain u where u: "findRootLoop dn [Suc a..<b] t =
      Ret (lookupEntry n (concat (map (\<lambda>j. sectorEntries (sector0 s (RootOffset (mnt s) + of_nat j))) [Suc a..<b]))) u" "same_fs i k t u"
    using Suc.hyps(1) [OF ab(3) S(1) pre(1) Suc.prems(3-5) pre(2) ab(2)] S(2,8) by auto
  show ?case
    unfolding run searchSectors(1) [OF l Suc.prems(3-5)] using u same_fs_trans [OF t(2) u(2)] t(2)
    by (cases "List.find (\<lambda>e. take 11 e = n) (sectorEntries (sector0 s ?sec))") (auto simp: ab(1) lookupEntry_def find_append kmonad)
qed

lemma fsFat12FindInRootDirectory_run:
  assumes "disk_ready i k s" "mounted s" "11 \<le> length junk"
  shows "\<exists>t. fsFat12FindInRootDirectory f junk s = Ret (lookupEntry (dosName f) (rootEntries s)) t \<and> same_fs i k s t"
proof -
  have fs: "full_sectors s" using assms(2) by (simp add: mounted_def)
  have "unat (NumRootEntries (mnt s) div 16) \<le> 65535"
    using assms(2) unat_bounds(4) [of "NumDirEntries (bpb s)"] by (simp add: mounted_def mountInfoOf_def unat_div unat_bounds(2))
  then have "unat (RootOffset (mnt s)) + unat (NumRootEntries (mnt s) div 16) \<le> 2 ^ 28" using root_offset [OF assms(2)] by simp
  from findRootLoop_run [OF assms(1) fs dosNameOf_dosName [OF assms(3)] dosName_chars this] show ?thesis
    by (simp add: fsFat12FindInRootDirectory_def bindK_getK rootEntries_def)
qed

lemma strlenAt_ge: "\<forall>j < b. f j \<noteq> 0 \<Longrightarrow> b \<le> 255 \<Longrightarrow> b \<le> strlenAt f"
proof (rule ccontr)
  assume a: "\<forall>j < b. f j \<noteq> 0" "b \<le> 255" "\<not> b \<le> strlenAt f"
  then have "f ([0..<255] ! strlenAt f) = 0"
    using nth_length_takeWhile [of "\<lambda>j. f j \<noteq> 0" "[0..<255]"] unfolding strlenAt_def by (simp only: length_upt) linarith
  then show False using a by simp
qed

text \<open>\<open>baseLength f b\<close>: the name held by \<open>f\<close> has \<open>b\<close> characters before its first dot or its end.\<close>

definition baseLength :: "(nat \<Rightarrow> byte) \<Rightarrow> nat \<Rightarrow> bool" where
  "baseLength f b \<longleftrightarrow> b < 255 \<and> (\<forall>j < b. f j \<noteq> 0 \<and> f j \<noteq> 0x2E) \<and> (f b = 0 \<or> f b = 0x2E)"

lemma dosBase_run:
  assumes "baseLength f b" "k = min b 8" "j \<le> k" "length p = j"
  shows "dosBase f 11 j (p @ replicate (11 - j) 0x20) = (k, p @ map (toupper \<circ> f) [j..<k] @ replicate (11 - k) 0x20)"
  using assms(3,4)
proof (induction "k - j" arbitrary: j p)
  case 0
  then have j: "j = k" by simp
  have "\<not> k < strlenAt f" if "f k \<noteq> 0x2E" "k \<noteq> 8"
    using that assms(1,2) strlenAt_eq [of b f] by (auto simp: baseLength_def min_def split: if_splits)
  then show ?case using j by (subst dosBase.simps) auto
next
  case (Suc d)
  have jb: "j < b" "j < 8" "j < k" "d = k - Suc j" using Suc.hyps(2) assms(2) by linarith+
  have c: "f j \<noteq> 0x2E" "j < strlenAt f"
    using assms(1) jb(1) strlenAt_ge [of b f] by (auto simp: baseLength_def)
  have "11 - j = Suc (11 - Suc j)" using jb(2) by simp
  then have r: "(p @ replicate (11 - j) 0x20)[j := toupper (f j)] = (p @ [toupper (f j)]) @ replicate (11 - Suc j) 0x20"
    using Suc.prems(2) by (simp add: list_update_append)
  have "dosBase f 11 j (p @ replicate (11 - j) 0x20) = dosBase f 11 (Suc j) ((p @ [toupper (f j)]) @ replicate (11 - Suc j) 0x20)"
    unfolding r [symmetric] using c jb(2) by (subst dosBase.simps) simp
  also have "\<dots> = (k, (p @ [toupper (f j)]) @ map (toupper \<circ> f) [Suc j..<k] @ replicate (11 - k) 0x20)"
    by (rule Suc.hyps(1)) (use jb Suc.prems(2) in simp_all)
  finally show ?case using jb(3) by (simp add: upt_conv_Cons)
qed

lemma dosExt_append:
  assumes "length p = 8"
  shows "dosExt f i (p @ replicate 3 0x20) = p @ map (\<lambda>k. if f (i + 1 + k) = 0 then 0x20 else toupper (f (i + 1 + k))) [0, 1, 2]"
  using assms by (simp add: dosExt_def list_update_append numeral_3_eq_3)

lemma dosName_run:
  assumes "baseLength f b" "0 < b"
  shows "dosName f = map (toupper \<circ> f) [0..<min b 8] @ replicate (8 - b) 0x20 @
    (if b \<le> 8 \<and> f b = 0x2E then map (\<lambda>k. if f (b + 1 + k) = 0 then 0x20 else toupper (f (b + 1 + k))) [0, 1, 2]
     else replicate 3 0x20)"
proof -
  have f0: "f 0 \<noteq> 0x2E" using assms by (simp add: baseLength_def)
  let ?m = "min b 8"
  let ?p = "map (toupper \<circ> f) [0..<?m] @ replicate (8 - b) 0x20"
  have e: "replicate (11 - ?m) (0x20 :: byte) = replicate (8 - b) 0x20 @ replicate 3 0x20"
    by (simp flip: replicate_add)
  have base: "dosBase f 11 0 (replicate 11 0x20) = (?m, ?p @ replicate 3 0x20)"
    using dosBase_run [OF assms(1) refl, of 0 "[]"] e by simp
  have d: "dosName f = (if f ?m = 0x2E then dosExt f ?m (?p @ replicate 3 0x20) else ?p @ replicate 3 0x20)"
    unfolding dosName_def toDosFileName_def using f0 base by (simp add: Let_def)
  have m: "f ?m = 0x2E \<longleftrightarrow> b \<le> 8 \<and> f b = 0x2E" using assms(1) by (auto simp: baseLength_def min_def)
  have l: "length ?p = 8" by simp
  have x: "dosExt f ?m (?p @ replicate 3 0x20) = ?p @ map (\<lambda>k. if f (b + 1 + k) = 0 then 0x20 else toupper (f (b + 1 + k))) [0, 1, 2]"
    if "b \<le> 8" using that dosExt_append [OF l, of f b] by (simp only: min_absorb1)
  show ?thesis using d m x by auto
qed

section \<open>Sub-directories\<close>

lemma same_fs_resync: "disk_ready i k s \<Longrightarrow> same_fs i k s (resync i s)"
proof -
  assume d: "disk_ready i k s"
  have e: "disk (resync i s) = disk s" "fatfs (resync i s) = fatfs s" "FileTab (resync i s) = FileTab s"
    "processTable (resync i s) = processTable s" "mem (resync i s) = mem s"
    by simp_all
  then show "same_fs i k s (resync i s)" using d by (simp add: same_fs_def fs_rest_def disk_ready_def sector0_def fun_eq_iff)
qed

text \<open>
  \<open>spare g fs fs'\<close>: the tables agree outside the slot \<open>g\<close>, which is the first free one of both.  The directory
  searches use this slot and give it back.
\<close>

definition spare :: "nat \<Rightarrow> File list \<Rightarrow> File list \<Rightarrow> bool" where
  "spare g fs fs' \<longleftrightarrow> length fs' = NFILE \<and> (\<forall>j. j \<noteq> g \<longrightarrow> fs' ! j = fs ! j) \<and>
     findIndex (\<lambda>f. ReferenceCount f = 0) fs' = Some g"

definition freshFile :: "File \<Rightarrow> DirectoryEntry \<Rightarrow> byte list \<Rightarrow> File" where
  "freshFile x e name = x\<lparr>ReferenceCount := 1, FileName := byteString name, DirEntry := e, Size := FileSize e, Position := 0, Eof := 0, Type := FD_FILE\<rparr>"

lemma spare_slot:
  assumes "spare g fs fs'"
  shows "g < NFILE" "length fs' = NFILE" "ReferenceCount (fs' ! g) = 0" "\<forall>j < g. ReferenceCount (fs' ! j) \<noteq> 0" "\<forall>j. j \<noteq> g \<longrightarrow> fs' ! j = fs ! j"
proof -
  have s: "length fs' = NFILE" "\<forall>j. j \<noteq> g \<longrightarrow> fs' ! j = fs ! j" "findIndex (\<lambda>f. ReferenceCount f = 0) fs' = Some g"
    using assms unfolding spare_def by blast+
  then show "length fs' = NFILE" "\<forall>j. j \<noteq> g \<longrightarrow> fs' ! j = fs ! j" by blast+
  show "g < NFILE" "ReferenceCount (fs' ! g) = 0" "\<forall>j < g. ReferenceCount (fs' ! j) \<noteq> 0"
    using s(3) unfolding findIndex_Some s(1) by blast+
qed

lemma spare_update:
  assumes "spare g fs fs'" "ReferenceCount x = 0"
  shows "spare g fs (fs'[g := x])"
proof -
  note S = spare_slot [OF assms(1)]
  have "findIndex (\<lambda>f. ReferenceCount f = 0) (fs'[g := x]) = Some g" unfolding findIndex_Some using S(1,2,4) assms(2) by simp
  then show ?thesis using S(2,5) unfolding spare_def by simp
qed

lemma disk_ready_file: "disk_ready i k s \<Longrightarrow> length (FileTab s) = NFILE \<Longrightarrow> file_ready i s"
  using quietD by (auto simp: disk_ready_def file_ready_def)

lemma fsFat12CreateFileStructure_run:
  assumes "disk_ready i k s" "spare g fs (FileTab s)" "length name < 256"
  shows "\<exists>t. fsFat12CreateFileStructure e name s = Ret (Some g) t \<and>
    same_fs i k (set_files ((FileTab s)[g := freshFile (FileTab s ! g) e name]) s) t"
proof -
  note G = spare_slot [OF assms(2)]
  have "findIndex (\<lambda>f. ReferenceCount f = 0) (FileTab s) = Some g" using assms(2) by (simp add: spare_def)
  then have "fsFat12CreateFileStructure e name s = Ret (Some g) (set_files ((FileTab s)[g := freshFile (FileTab s ! g) e name]) (resync i s))"
    using allocateFileStructure_run [OF disk_ready_file [OF assms(1) G(2)]] G(1,2) assms(3)
    by (simp add: fsFat12CreateFileStructure_def kmonad freshFile_def)
  then show ?thesis using same_fs_set_files [OF same_fs_resync [OF assms(1)]] by blast
qed

lemma fileClose_fs:
  assumes "disk_ready i k s" "length (FileTab s) = NFILE" "g < NFILE" "ReferenceCount (FileTab s ! g) = 1" "Type (FileTab s ! g) \<noteq> FD_PIPE"
  shows "\<exists>t. fileClose g s = Ret () t \<and>
    same_fs i k (set_files ((FileTab s)[g := (FileTab s ! g)\<lparr>ReferenceCount := 0, Type := FD_NONE\<rparr>]) s) t"
  using fileClose_last [OF disk_ready_file [OF assms(1,2)] assms(4,3)] assms(5) same_fs_set_files [OF same_fs_resync [OF assms(1)]]
  by (auto simp: kmonad)

text \<open>
  A directory has size 0 in its entry, so the first sector read from it reaches the end of the file as the code
  sees it.
\<close>

lemma read_directory_sector:
  assumes "disk_ready i k s" "mounted s" "f < length (FileTab s)" "x = FileTab s ! f" "Type x = FD_FILE" "Eof x = 0"
    and "Size x = 0" "Position x = 0" "2 \<le> unat (FirstCluster (DirEntry x))"
  shows "\<exists>t. fsFat12Read (Some f) 512 s = Ret (512, take 512 (clusterData s (ucast (FirstCluster (DirEntry x))))) t \<and>
    same_fs i k (set_files ((FileTab s)[f := x\<lparr>Position := 512, Eof := 1\<rparr>]) s) t"
proof -
  note G = geometry [OF assms(2)]
  let ?c = "ucast (FirstCluster (DirEntry x)) :: u32"
  have c: "2 \<le> unat ?c" "unat ?c < 65536" using assms(9) unat_bounds(4) by (simp_all add: unat_bounds(2))
  have o: "unat (0 :: u32) < csize s" "unat (0 :: u32) mod 512 = 0" "(512 :: u32) \<noteq> 0" using G(5) by simp_all
  have r: "512 = min (unat (512 :: u32)) (csize s - unat (0 :: u32))" "512 = Position x + of_nat 512"
    using G(2) assms(8) by (simp_all add: csize_def)
  obtain t where t: "same_fs i k s t" "readClusters (Suc 511) f ?c 0 512 0 [] s =
      Ret (0 + of_nat 512, [] @ take 512 (drop (unat (0 :: u32)) (clusterData s ?c))) (set_files ((FileTab s)[f := x\<lparr>Position := 512, Eof := 1\<rparr>]) t)"
    using readClusters_step [OF assms(1-5) c o r(1) refl r(2), of 511 0 "[]"] assms(7) by (auto simp del: readClusters.simps)
  have "ClusterSize (mnt s) \<noteq> 0" using G(1,5) by auto
  moreover have "unat (512 :: u32) = Suc 511" by simp
  ultimately have "fsFat12Read (Some f) 512 s = readClusters (Suc 511) f ?c 0 512 0 [] s"
    using assms(4-6,8) by (simp only: fsFat12Read_def option.case bindK_getK getFile_def) (simp add: kmonad bindK_getK del: readClusters.simps)
  then show ?thesis using t(2) same_fs_set_files [OF t(1)] by auto
qed

definition dirSector :: "'a kfat_scheme \<Rightarrow> DirectoryEntry \<Rightarrow> byte list" where
  "dirSector s e = take 512 (clusterData s (ucast (FirstCluster e)))"

lemma close_spare:
  assumes "same_fs i k (set_files ((FileTab s)[g := x]) s) t" "spare g fs (FileTab s)" "ReferenceCount x = 1" "Type x = FD_FILE"
  obtains u where "fileClose g t = Ret () u" "same_fs i k (set_files (FileTab u) s) u" "spare g fs (FileTab u)"
proof -
  note S = same_fsD [OF assms(1)] and G = spare_slot [OF assms(2)]
  let ?y = "(FileTab t ! g)\<lparr>ReferenceCount := 0, Type := FD_NONE\<rparr>"
  have t: "FileTab t = (FileTab s)[g := x]" using S(4) by simp
  then have "FileTab t ! g = x" "length (FileTab t) = NFILE" using G(1,2) by simp_all
  then obtain u where u: "fileClose g t = Ret () u" "same_fs i k (set_files ((FileTab t)[g := ?y]) t) u"
    using fileClose_fs [OF S(1) _ G(1)] assms(3,4) by auto
  have ft: "FileTab u = (FileTab s)[g := ?y]" using same_fsD(4) [OF u(2)] t by simp
  have "same_fs i k (set_files (FileTab u) s) (set_files (FileTab u) t)"
    using same_fs_set_files [OF assms(1), of "FileTab u"] by simp
  moreover have "same_fs i k (set_files (FileTab u) t) u" using u(2) ft t by simp
  ultimately have "same_fs i k (set_files (FileTab u) s) u" by (rule same_fs_trans)
  then show thesis using that u(1) ft spare_update [OF assms(2), of ?y] by simp
qed

lemma fsFat12FindInSubDirectory_run:
  assumes "disk_ready i k s" "mounted s" "spare g fs (FileTab s)" "11 \<le> length junk" "FileSize e = 0" "2 \<le> unat (FirstCluster e)"
  shows "\<exists>t. fsFat12FindInSubDirectory f e junk s = Ret (lookupEntry (dosName f) (sectorEntries (dirSector s e))) t \<and>
    same_fs i k (set_files (FileTab t) s) t \<and> spare g fs (FileTab t)"
proof -
  note G = spare_slot [OF assms(3)]
  let ?x = "freshFile (FileTab s ! g) e []" and ?d = "dirSector s e"
  let ?x' = "?x\<lparr>Position := 512, Eof := 1\<rparr>"
  have x: "Type ?x = FD_FILE" "Eof ?x = 0" "Size ?x = 0" "Position ?x = 0" "DirEntry ?x = e" "ReferenceCount ?x = 1"
    using assms(5) by (simp_all add: freshFile_def)
  obtain t where t: "fsFat12CreateFileStructure e [] s = Ret (Some g) t" "same_fs i k (set_files ((FileTab s)[g := ?x]) s) t"
    using fsFat12CreateFileStructure_run [OF assms(1,3), of "[]" e] by auto
  note S = same_fsD [OF t(2)] and T = same_fs_geometry [OF t(2)]
  have ft: "FileTab t = (FileTab s)[g := ?x]" using S(4) by simp
  then have g: "g < length (FileTab t)" "?x = FileTab t ! g" using G(1,2) by simp_all
  have m: "mounted t" using T(1) assms(2) by simp
  have cd: "take 512 (clusterData t (ucast (FirstCluster (DirEntry ?x)))) = ?d" using T(2) x(5) by (simp add: dirSector_def)
  obtain u where u: "fsFat12Read (Some g) 512 t = Ret (512, ?d) u" "same_fs i k (set_files ((FileTab t)[g := ?x']) t) u"
    using read_directory_sector [OF S(1) m g x(1-4)] assms(6) x(5) unfolding cd by auto
  have su: "same_fs i k (set_files ((FileTab s)[g := ?x']) s) u"
    using same_fs_trans [OF same_fs_set_files [OF t(2), of "(FileTab s)[g := ?x']"]] u(2) ft by simp
  have l: "length ?d = 512" using length_clusterData [OF assms(2)] geometry(2) [OF assms(2)] by (simp add: dirSector_def csize_def)
  have gu: "FileTab u ! g = ?x'" using same_fsD(4) [OF su] G(1,2) by simp
  obtain v where v: "fileClose g u = Ret () v" "same_fs i k (set_files (FileTab v) s) v" "spare g fs (FileTab v)"
    by (rule close_spare [OF su assms(3)]) (use x in simp_all)
  obtain n :: nat where n: "2 ^ 32 = Suc (Suc n)" by (metis Suc_pred' add_2_eq_Suc' le_add_diff_inverse2 one_le_numeral one_le_power self_le_power zero_less_numeral)
  let ?dn = "dosNameOf f junk" and ?buf = "take 512 (drop 12 junk)"
  have sr: "searchSubSector ?dn (?d @ drop 512 ?buf) = lookupEntry (dosName f) (sectorEntries ?d)"
    using searchSectors(2) [OF l dosNameOf_dosName [OF assms(4)] dosName_chars] by simp
  have loop: "findSubLoop (Suc (Suc n)) g ?dn ?buf t = Ret (lookupEntry (dosName f) (sectorEntries ?d)) v"
  proof (cases "lookupEntry (dosName f) (sectorEntries ?d)")
    case None
    show ?thesis unfolding findSubLoop.simps using u(1) v(1) g(2) [symmetric] x(2) gu sr None l by (simp add: kmonad)
  next
    case (Some e')
    show ?thesis unfolding findSubLoop.simps using u(1) v(1) g(2) [symmetric] x(2) gu sr Some l by (simp add: kmonad)
  qed
  have "fsFat12FindInSubDirectory f e junk s = findSubLoop (Suc (Suc n)) g ?dn ?buf t"
    unfolding fsFat12FindInSubDirectory_def n using t(1) by (simp only: bindK_def outcome.case option.case)
  then show ?thesis using loop v(2,3) by auto
qed

section \<open>Paths\<close>

text \<open>
  The abstract path lookup.  \<open>pathParts\<close> splits a path at its separators, \<open>dosOf\<close> is the name of a component in a
  directory entry and \<open>walk\<close> follows the names from a directory, the root when there is none.  The entries of a sub-directory are
  those of all its clusters, up to the 4096 that a table of 12-bit entries can link.
\<close>

fun pathParts :: "byte list \<Rightarrow> byte list list" where
  "pathParts [] = [[]]"
| "pathParts (c # p) = (if isSeparator c then [] # pathParts p else (c # hd (pathParts p)) # tl (pathParts p))"

definition dosOf :: "byte list \<Rightarrow> byte list" where
  "dosOf nm = dosName (\<lambda>j. if j < length nm then nm ! j else 0)"

fun chainFrom :: "nat \<Rightarrow> 'a kfat_scheme \<Rightarrow> u32 \<Rightarrow> u32 list" where
  "chainFrom 0 s c = []"
| "chainFrom (Suc n) s c = (if c = 0 then [] else c # chainFrom n s (nextCluster s c))"

definition dirData :: "'a kfat_scheme \<Rightarrow> DirectoryEntry \<Rightarrow> byte list" where
  "dirData s e = fileData s (chainFrom 4096 s (ucast (FirstCluster e)))"

definition entriesOf :: "byte list \<Rightarrow> byte list list" where
  "entriesOf d = map (\<lambda>i. take 32 (drop (32 * i) d)) [0..<length d div 32]"

definition dirEntries :: "'a kfat_scheme \<Rightarrow> DirectoryEntry option \<Rightarrow> byte list list" where
  "dirEntries s cur = (case cur of None \<Rightarrow> rootEntries s | Some e \<Rightarrow> entriesOf (dirData s e))"

fun walk :: "'a kfat_scheme \<Rightarrow> DirectoryEntry option \<Rightarrow> byte list list \<Rightarrow> DirectoryEntry option" where
  "walk s cur [] = None"
| "walk s cur (n # ns) =
     (case lookupEntry n (dirEntries s cur) of
        None \<Rightarrow> None
      | Some e \<Rightarrow> if ns = [] then Some e else if Attrib e = 0x10 then walk s (Some e) ns else None)"

text \<open>
  The directories that \<open>walk\<close> passes have size 0 in their entries and a first cluster, and the components are
  names without an extension or with one of at least three characters.  The code reads only the first sixteen entries of a
  sub-directory; \<open>early n es\<close> says that the name \<open>n\<close> does not stand only behind them.
\<close>

definition early :: "byte list \<Rightarrow> byte list list \<Rightarrow> bool" where
  "early n es \<longleftrightarrow> n \<in> take 11 ` set (drop 16 es) \<longrightarrow> n \<in> take 11 ` set (take 16 es)"

definition dirOk :: "'a kfat_scheme \<Rightarrow> DirectoryEntry option \<Rightarrow> byte list \<Rightarrow> bool" where
  "dirOk s cur n \<longleftrightarrow>
     (case cur of None \<Rightarrow> True | Some e \<Rightarrow> FileSize e = 0 \<and> 2 \<le> unat (FirstCluster e) \<and> early n (entriesOf (dirData s e)))"

fun dirsOk :: "'a kfat_scheme \<Rightarrow> DirectoryEntry option \<Rightarrow> byte list list \<Rightarrow> bool" where
  "dirsOk s cur [] \<longleftrightarrow> True"
| "dirsOk s cur (n # ns) \<longleftrightarrow> dirOk s cur n \<and>
     (case lookupEntry n (dirEntries s cur) of
        None \<Rightarrow> True
      | Some e \<Rightarrow> ns = [] \<or> Attrib e \<noteq> 0x10 \<or> dirsOk s (Some e) ns)"

definition cleanPart :: "byte list \<Rightarrow> bool" where
  "cleanPart nm \<longleftrightarrow> nm \<noteq> [] \<and> 0 \<notin> set nm \<and>
     (nm = [0x2E] \<or> nm = [0x2E, 0x2E] \<or>
      hd nm \<noteq> 0x2E \<and> (dropWhile (\<lambda>c. c \<noteq> 0x2E) nm = [] \<or> 4 \<le> length (dropWhile (\<lambda>c. c \<noteq> 0x2E) nm)))"

lemma pathParts_split:
  "pathParts p = (let n = length (takeWhile (\<lambda>c. \<not> isSeparator c) p) in
     if n = length p then [p] else take n p # pathParts (drop (n + 1) p))"
  by (induction p) (simp_all add: Let_def)

lemma pathParts_nonempty [simp]: "pathParts p \<noteq> []"
  by (cases p) auto

lemma dosName_clean:
  assumes "cleanPart nm" "\<forall>j < length nm. f j = nm ! j" "f (length nm) = 0" "length nm < 255"
  shows "dosName f = dosOf nm"
proof -
  let ?f = "\<lambda>j. if j < length nm then nm ! j else 0"
  have nz: "\<forall>j < length nm. f j \<noteq> 0" using assms(1,2) by (metis cleanPart_def nth_mem)
  have len: "strlenAt f = length nm" "strlenAt ?f = length nm"
    using strlenAt_eq [OF nz assms(3,4)] strlenAt_eq [of "length nm" ?f] nz assms(2,4) by simp_all
  show ?thesis
  proof (cases "nm = [0x2E] \<or> nm = [0x2E, 0x2E]")
    case True
    have "f 0 = ?f 0" "f 1 = ?f 1" using True assms(2,3) by auto
    then show ?thesis using True len by (auto simp: dosName_def dosOf_def toDosFileName_def)
  next
    case False
    define b where "b = length (takeWhile (\<lambda>c. c \<noteq> 0x2E) nm)"
    have c: "nm = takeWhile (\<lambda>c. c \<noteq> 0x2E) nm @ dropWhile (\<lambda>c. c \<noteq> 0x2E) nm" by simp
    have nd: "nm ! j \<noteq> 0x2E" if "j < b" for j
      using that takeWhile_nth [of j "\<lambda>c. c \<noteq> 0x2E" nm] nth_mem [of j "takeWhile (\<lambda>c. c \<noteq> 0x2E) nm"] set_takeWhileD
      unfolding b_def by metis
    have bl: "b \<le> length nm" unfolding b_def by (rule length_takeWhile_le)
    have ext: "nm ! b = 0x2E \<and> b + 4 \<le> length nm" if "b < length nm"
    proof -
      have "dropWhile (\<lambda>c. c \<noteq> 0x2E) nm \<noteq> []" using that c b_def by (metis append_Nil2 less_irrefl)
      then have "4 \<le> length (dropWhile (\<lambda>c. c \<noteq> 0x2E) nm)" using assms(1) False by (auto simp: cleanPart_def)
      moreover have "length nm = b + length (dropWhile (\<lambda>c. c \<noteq> 0x2E) nm)" using c b_def by (metis length_append)
      ultimately show ?thesis using nth_length_takeWhile [of "\<lambda>c. c \<noteq> 0x2E" nm] that by (simp add: b_def)
    qed
    have "hd nm \<noteq> 0x2E" "nm \<noteq> []" using assms(1) False by (auto simp: cleanPart_def)
    then have b0: "0 < b" by (cases nm) (simp_all add: b_def)
    have agree: "f j = ?f j" if "j \<le> length nm" for j using that assms(2,3) by (cases "j = length nm") simp_all
    have base: "baseLength f b" "baseLength ?f b"
      using nd ext bl assms(2-4) nz by (auto simp: baseLength_def) (metis le_neq_implies_less)+
    have e: "f (b + 1 + j) = ?f (b + 1 + j)" if "f b = 0x2E" "j < 3" for j
    proof -
      have "b < length nm" using that(1) bl assms(3) by (cases "b = length nm") simp_all
      then show ?thesis using ext that(2) agree by simp
    qed
    have "map (toupper \<circ> f) [0..<min b 8] = map (toupper \<circ> ?f) [0..<min b 8]" using bl agree by auto
    then show ?thesis
      unfolding dosOf_def dosName_run [OF base(1) b0] dosName_run [OF base(2) b0]
      using agree [OF bl] e [of 0] e [of 1] e [of 2] by (simp del: map_map)
  qed
qed

lemma fsGetPathPart_run:
  assumes "length p < 20" "n = length (takeWhile (\<lambda>c. \<not> isSeparator c) p)" "cleanPart (take n p)"
  obtains pp where "fsGetPathPart p buf = Some (if n = length p then 0 else n, pp)" "dosName pp = dosOf (take n p)"
proof -
  let ?pp = "(\<lambda>j. if j < length p then p ! j else if j = length p then 0 else buf j)(n := 0)"
  have n: "n \<le> length p" unfolding assms(2) by (rule length_takeWhile_le)
  have "dosName ?pp = dosOf (take n p)" by (rule dosName_clean [OF assms(3)]) (use n assms(1) in auto)
  moreover have "fsGetPathPart p buf = Some (if n = length p then 0 else n, ?pp)"
    using assms(1) unfolding fsGetPathPart_def Let_def assms(2) [symmetric] by simp
  ultimately show thesis using that by blast
qed

lemma chainFrom_same_fs: "same_fs i k (set_files fs s) t \<Longrightarrow> chainFrom n t c = chainFrom n s c"
proof (induction n arbitrary: c)
  case (Suc n)
  have "nextCluster t c = nextCluster (set_files fs s) c" by (rule nextCluster_cong [OF same_fsD(5,6) [OF Suc.prems]])
  also have "\<dots> = nextCluster s c" by (rule nextCluster_cong) (simp_all add: set_files_def)
  finally show ?case using Suc by simp
qed simp

lemma dirData_same_fs: "same_fs i k (set_files fs s) t \<Longrightarrow> dirData t e = dirData s e"
  using fileData_same_fs [of i k "set_files fs s" t] chainFrom_same_fs [of i k fs s t] by (simp add: dirData_def)

lemma dirEntries_same_fs: "same_fs i k (set_files fs s) t \<Longrightarrow> dirEntries t cur = dirEntries s cur"
  by (frule same_fsD(2), frule same_fsD(8))
    (simp add: dirEntries_def rootEntries_def dirData_same_fs split: option.split)

text \<open>The first sixteen entries are those of the first sector, and for a name that is \<open>early\<close> the search may stop there.\<close>

lemma entriesOf_first:
  assumes "512 \<le> length d"
  shows "take 16 (entriesOf d) = sectorEntries (take 512 d)"
proof -
  have "0 + 16 \<le> length d div 32" using assms by (simp add: less_eq_div_iff_mult_less_eq)
  then have "take 16 (entriesOf d) = map (\<lambda>i. take 32 (drop (32 * i) d)) [0..<0 + 16]"
    unfolding entriesOf_def take_map by (simp only: take_upt)
  also have "\<dots> = sectorEntries (take 512 d)"
    unfolding sectorEntries_def add_0 by (rule map_cong [OF refl]) (auto simp: drop_take min_def)
  finally show ?thesis .
qed

lemma lookup_early:
  assumes "early n es"
  shows "lookupEntry n (take 16 es) = lookupEntry n es"
proof (cases "List.find (\<lambda>e. take 11 e = n) (take 16 es)")
  case None
  then have "n \<notin> take 11 ` set (take 16 es)" by (auto simp: find_None_iff)
  then have "List.find (\<lambda>e. take 11 e = n) (drop 16 es) = None" using assms by (auto simp: early_def find_None_iff)
  then show ?thesis using None find_append [of "\<lambda>e. take 11 e = n" "take 16 es" "drop 16 es"] by (simp add: lookupEntry_def)
next
  case (Some e)
  then show ?thesis using find_append [of "\<lambda>e. take 11 e = n" "take 16 es" "drop 16 es"] by (simp add: lookupEntry_def)
qed

lemma lookup_first:
  assumes "lookupEntry n (take 16 es) = Some e"
  shows "early n es" "lookupEntry n es = Some e"
proof -
  have "List.find (\<lambda>x. take 11 x = n) (take 16 es) \<noteq> None" using assms by (auto simp: lookupEntry_def)
  then obtain x where "x \<in> set (take 16 es)" "take 11 x = n" by (auto simp: find_None_iff)
  then show "early n es" by (auto simp: early_def)
  then show "lookupEntry n es = Some e" using lookup_early assms by metis
qed

lemma dirData_first:
  assumes "mounted s" "2 \<le> unat (FirstCluster e)"
  shows "take 16 (entriesOf (dirData s e)) = sectorEntries (dirSector s e)"
proof -
  let ?c = "ucast (FirstCluster e) :: u32"
  have "?c \<noteq> 0" using assms(2) by (metis unat_bounds(2) unat_0 not_numeral_le_zero)
  then obtain r where r: "dirData s e = clusterData s ?c @ r"
    using chainFrom.simps(2) [of 4095 s ?c] by (simp add: dirData_def fileData_def)
  have "512 \<le> length (clusterData s ?c)" using length_clusterData [OF assms(1)] geometry(2) [OF assms(1)] by (simp add: csize_def)
  then show ?thesis using entriesOf_first [of "dirData s e"] by (simp add: r dirSector_def)
qed

lemma walk_same_fs: "same_fs i k (set_files fs s) t \<Longrightarrow> walk t cur ns = walk s cur ns"
proof (induction ns arbitrary: cur)
  case (Cons n ns)
  then show ?case using dirEntries_same_fs [OF Cons.prems] by (simp split: option.split)
qed simp

lemma dirsOk_same_fs: "same_fs i k (set_files fs s) t \<Longrightarrow> dirsOk t cur ns = dirsOk s cur ns"
proof (induction ns arbitrary: cur)
  case (Cons n ns)
  then show ?case using dirEntries_same_fs [OF Cons.prems] dirData_same_fs [OF Cons.prems] by (simp add: dirOk_def split: option.split)
qed simp

text \<open>\<open>kept i k g fs s t\<close>: the file system is as in \<open>s\<close> and the file table agrees with \<open>fs\<close> except for the free slot \<open>g\<close>.\<close>

definition kept :: "nat \<Rightarrow> nat \<Rightarrow> nat \<Rightarrow> File list \<Rightarrow> 'a kfat_scheme \<Rightarrow> 'a kfat_scheme \<Rightarrow> bool" where
  "kept i k g fs s t \<longleftrightarrow> same_fs i k (set_files (FileTab t) s) t \<and> spare g fs (FileTab t)"

lemma kept_trans: "kept i k g fs s t \<Longrightarrow> kept i k g fs t u \<Longrightarrow> kept i k g fs s u"
  unfolding kept_def using same_fs_trans same_fs_set_files set_files_sel(2) by metis

lemma find_part:
  assumes "disk_ready i k s" "mounted s" "spare g fs (FileTab s)" "11 \<le> length junk" "dirOk s cur (dosName pp)"
  shows "\<exists>t. (case cur of None \<Rightarrow> fsFat12FindInRootDirectory pp junk | Some e \<Rightarrow> fsFat12FindInSubDirectory pp e junk) s =
    Ret (lookupEntry (dosName pp) (dirEntries s cur)) t \<and> kept i k g fs s t"
proof (cases cur)
  case None
  obtain t where t: "fsFat12FindInRootDirectory pp junk s = Ret (lookupEntry (dosName pp) (rootEntries s)) t" "same_fs i k s t"
    using fsFat12FindInRootDirectory_run [OF assms(1,2,4), of pp] by blast
  then show ?thesis using None assms(3) same_fsD(4) [OF t(2)] by (simp add: dirEntries_def kept_def)
next
  case (Some e)
  then have d: "FileSize e = 0" "2 \<le> unat (FirstCluster e)" "early (dosName pp) (entriesOf (dirData s e))"
    using assms(5) by (simp_all add: dirOk_def)
  have "lookupEntry (dosName pp) (sectorEntries (dirSector s e)) = lookupEntry (dosName pp) (entriesOf (dirData s e))"
    using lookup_early [OF d(3)] unfolding dirData_first [OF assms(2) d(2)] .
  then show ?thesis
    using fsFat12FindInSubDirectory_run [OF assms(1-4) d(1,2), of pp] Some by (simp add: dirEntries_def kept_def)
qed

definition openedFile :: "int \<Rightarrow> File \<Rightarrow> DirectoryEntry \<Rightarrow> byte list \<Rightarrow> File" where
  "openedFile directory x e filename = (freshFile x e filename)\<lparr>Type := (if directory = 1 then FD_DIR else FD_FILE)\<rparr>"

text \<open>What opening a path returns and leaves behind when the lookup of its names yields \<open>r\<close>.\<close>

definition openResult :: "nat \<Rightarrow> nat \<Rightarrow> nat \<Rightarrow> File list \<Rightarrow> int \<Rightarrow> byte list \<Rightarrow> 'a kfat_scheme \<Rightarrow> DirectoryEntry option \<Rightarrow>
    ('a kfat_scheme, nat option) outcome \<Rightarrow> bool" where
  "openResult i k g fs directory filename s r out \<longleftrightarrow>
     (case r of
        Some e \<Rightarrow>
          if directory = 1 \<and> Attrib e \<noteq> 0x10 then \<exists>t. out = Ret None t \<and> kept i k g fs s t
          else \<exists>x t. out = Ret (Some g) t \<and> same_fs i k (set_files (fs[g := openedFile directory x e filename]) s) t
      | None \<Rightarrow> \<exists>t. out = Ret None t \<and> kept i k g fs s t)"

lemma openResult_kept:
  assumes "kept i k g fs s t" "openResult i k g fs d nm t r out"
  shows "openResult i k g fs d nm s r out"
proof -
  have "same_fs i k (set_files gs s) u" if "same_fs i k (set_files gs t) u" for gs u
    using assms(1) same_fs_trans [OF same_fs_set_files that] set_files_sel(2) unfolding kept_def by metis
  then show ?thesis
    using assms(2) kept_trans [OF assms(1)] unfolding openResult_def by (cases r) (simp_all split: if_splits, blast+)
qed

lemma create_opened:
  assumes "disk_ready i k s" "spare g fs (FileTab s)" "length fs = NFILE" "length filename < 256"
  shows "openResult i k g fs directory filename s (Some e)
    ((if directory = 1 \<and> Attrib e \<noteq> 0x10 then returnK None
      else bindK (fsFat12CreateFileStructure e filename) (\<lambda>fileStructure.
        if directory = 1
        then (case fileStructure of None \<Rightarrow> faultK
          | Some f \<Rightarrow> bindK (updFile f (\<lambda>x. x\<lparr>Type := FD_DIR\<rparr>)) (\<lambda>_. returnK (Some f)))
        else returnK fileStructure)) s)"
proof -
  note G = spare_slot [OF assms(2)]
  let ?x = "FileTab s ! g"
  have fs: "(FileTab s)[g := y] = fs[g := y]" for y
    using G(1,2,5) assms(3) by (auto simp: list_eq_iff_nth_eq nth_list_update)
  obtain t where t: "fsFat12CreateFileStructure e filename s = Ret (Some g) t"
      "same_fs i k (set_files (fs[g := freshFile ?x e filename]) s) t"
    using fsFat12CreateFileStructure_run [OF assms(1,2,4)] unfolding fs by blast
  have ft: "FileTab t = fs[g := freshFile ?x e filename]" using same_fsD(4) [OF t(2)] by simp
  show ?thesis
  proof (cases "directory = 1")
    case False
    have "openedFile directory ?x e filename = freshFile ?x e filename" using False by (simp add: openedFile_def freshFile_def)
    then have "\<exists>x. same_fs i k (set_files (fs[g := openedFile directory x e filename]) s) t" using t(2) by metis
    then show ?thesis using False t(1) unfolding openResult_def by (simp add: kmonad)
  next
    case True
    have "same_fs i k (set_files (fs[g := openedFile directory ?x e filename]) s) (set_files (fs[g := openedFile directory ?x e filename]) t)"
      using same_fs_set_files [OF t(2), of "fs[g := openedFile directory ?x e filename]"] by simp
    then show ?thesis
      using True t ft G(1) assms(1-3) same_fs_refl unfolding openResult_def kept_def
      by (auto simp: kmonad openedFile_def)
  qed
qed

lemma openLoop_run:
  assumes "disk_ready i k s" "mounted s" "spare g fs (FileTab s)" "length fs = NFILE" "11 \<le> length junk" "length filename < 256"
    and "length p < 20" "\<forall>c \<in> set (pathParts p). cleanPart c" "dirsOk s cur (map dosOf (pathParts p))"
  shows "openResult i k g fs directory filename s (walk s cur (map dosOf (pathParts p)))
    (openLoop p buf cur filename directory junk s)"
  using assms
proof (induction "length p" arbitrary: p cur buf s rule: less_induct)
  case less
  note A = less.prems
  define n where "n = length (takeWhile (\<lambda>c. \<not> isSeparator c) p)"
  have nl: "n \<le> length p" unfolding n_def by (rule length_takeWhile_le)
  have parts: "pathParts p = (if n = length p then [p] else take n p # pathParts (drop (n + 1) p))"
    using pathParts_split [of p] unfolding Let_def n_def .
  have hd: "take n p \<in> set (pathParts p)" "map dosOf (pathParts p) = dosOf (take n p) # (if n = length p then [] else map dosOf (pathParts (drop (n + 1) p)))"
    unfolding parts using nl by auto
  have cl: "cleanPart (take n p)" using A(8) hd(1) by blast
  obtain pp where pp: "fsGetPathPart p buf = Some (if n = length p then 0 else n, pp)" "dosName pp = dosOf (take n p)"
    by (rule fsGetPathPart_run [OF A(7) n_def cl])
  have n0: "n \<noteq> 0" using cl by (auto simp: cleanPart_def)
  have ok: "dirOk s cur (dosName pp)" using A(9) unfolding hd(2) pp(2) by simp
  obtain t where t: "(case cur of None \<Rightarrow> fsFat12FindInRootDirectory pp junk | Some e \<Rightarrow> fsFat12FindInSubDirectory pp e junk) s =
      Ret (lookupEntry (dosOf (take n p)) (dirEntries s cur)) t" "kept i k g fs s t"
    using find_part [OF A(1-3,5) ok] unfolding pp(2) by blast
  let ?l = "lookupEntry (dosOf (take n p)) (dirEntries s cur)"
  have K: "same_fs i k (set_files (FileTab t) s) t" "spare g fs (FileTab t)" using t(2) by (simp_all add: kept_def)
  note S = same_fsD [OF K(1)]
  show ?case
  proof (cases ?l)
    case None
    have "openLoop p buf cur filename directory junk s = Ret None t"
      by (subst openLoop.simps) (use pp(1) t(1) None in \<open>simp add: bindK_def returnK_def\<close>)
    then show ?thesis using None t(2) unfolding hd(2) by (simp add: openResult_def)
  next
    case (Some e)
    show ?thesis
    proof (cases "n = length p")
      case True
      have "openLoop p buf cur filename directory junk s = (if directory = 1 \<and> Attrib e \<noteq> 0x10 then returnK None
          else bindK (fsFat12CreateFileStructure e filename) (\<lambda>fileStructure.
            if directory = 1
            then (case fileStructure of None \<Rightarrow> faultK
              | Some f \<Rightarrow> bindK (updFile f (\<lambda>x. x\<lparr>Type := FD_DIR\<rparr>)) (\<lambda>_. returnK (Some f)))
            else returnK fileStructure)) t"
        by (subst openLoop.simps) (use pp(1) t(1) Some True in \<open>simp add: bindK_def [of _ _ s]\<close>)
      then show ?thesis
        using openResult_kept [OF t(2) create_opened [OF S(1) K(2) A(4,6)]] Some True unfolding hd(2) by simp
    next
      case False
      have run: "openLoop p buf cur filename directory junk s =
          (if Attrib e \<noteq> 0x10 then returnK None else openLoop (drop (n + 1) p) pp (Some e) filename directory junk) t"
        by (subst openLoop.simps) (use pp(1) t(1) Some False n0 in \<open>simp add: bindK_def [of _ _ s]\<close>)
      show ?thesis
      proof (cases "Attrib e = 0x10")
        case dir: True
        have lt: "length (drop (n + 1) p) < length p" "length (drop (n + 1) p) < 20" using A(7) nl False by simp_all
        have m: "mounted t" using same_fs_geometry(1) [OF K(1)] A(2) by simp
        have cs: "\<forall>c \<in> set (pathParts (drop (n + 1) p)). cleanPart c" using A(8) False unfolding parts by simp
        have ds: "dirsOk t (Some e) (map dosOf (pathParts (drop (n + 1) p)))"
          using A(9) Some dir False unfolding hd(2) dirsOk_same_fs [OF K(1)] by simp
        have "walk s cur (map dosOf (pathParts p)) = walk t (Some e) (map dosOf (pathParts (drop (n + 1) p)))"
          using Some dir False unfolding hd(2) walk_same_fs [OF K(1)] by simp
        then show ?thesis
          using run dir openResult_kept [OF t(2) less.hyps [OF lt(1) S(1) m K(2) A(4-6) lt(2) cs ds, of pp]] by simp
      next
        case nodir: False
        then have "walk s cur (map dosOf (pathParts p)) = None" using Some False unfolding hd(2) by simp
        then show ?thesis using run nodir t(2) by (simp add: openResult_def returnK_def)
      qed
    qed
  qed
qed

lemma fsFat12Open_run:
  assumes "disk_ready i k s" "mounted s" "length (FileTab s) = NFILE" "findIndex (\<lambda>f. ReferenceCount f = 0) (FileTab s) = Some g"
    and "11 \<le> length junk" "length filename < 256" "openPath cwd filename = c # p" "length p < 20"
    and "\<forall>c \<in> set (pathParts p). cleanPart c" "dirsOk s None (map dosOf (pathParts p))"
  shows "openResult i k g (FileTab s) directory filename s (walk s None (map dosOf (pathParts p)))
    (fsFat12Open cwd filename directory pathPart junk s)"
proof -
  have "spare g (FileTab s) (FileTab s)" using assms(3,4) by (simp add: spare_def)
  from openLoop_run [OF assms(1,2) this assms(3,5,6,8-10)] show ?thesis by (simp add: fsFat12Open_def assms(7))
qed

section \<open>Names on the floppy\<close>

lemma floppy_names:
  "dosOf [0x53, 0x55, 0x42] = take 11 entrySub" "dosOf [0x61, 0x2E, 0x74, 0x78, 0x74] = take 11 entryA"
  "dosOf [0x48, 0x65, 0x6C, 0x6C, 0x6F, 0x2E, 0x74, 0x78, 0x74] = take 11 entryHello"
proof -
  have b: "baseLength (\<lambda>j. if j < length nm then nm ! j else 0) n"
    if "n < 255" "n \<le> length nm" "0 \<notin> set (take n nm)" "0x2E \<notin> set (take n nm)" "n = length nm \<or> nm ! n = 0x2E" for nm n
  proof -
    have "nm ! j \<in> set (take n nm)" if "j < n" for j using that \<open>n \<le> length nm\<close> by (auto simp: in_set_conv_nth)
    then have "nm ! j \<noteq> 0 \<and> nm ! j \<noteq> 0x2E" if "j < n" for j using that \<open>0 \<notin> set (take n nm)\<close> \<open>0x2E \<notin> set (take n nm)\<close> by metis
    then show ?thesis using that(1,2,5) by (auto simp: baseLength_def)
  qed
  have u: "[0..<3] = [0, 1, 2]" "[0..<1] = [0]" "[0..<5] = [0, 1, 2, 3, 4 :: nat]" by (simp_all add: upt_rec)
  have r: "replicate 3 (0x20 :: byte) = [0x20, 0x20, 0x20]" "replicate 5 (0x20 :: byte) = [0x20, 0x20, 0x20, 0x20, 0x20]"
      "replicate 7 (0x20 :: byte) = [0x20, 0x20, 0x20, 0x20, 0x20, 0x20, 0x20]"
    by (simp_all add: numeral_eq_Suc)
  show "dosOf [0x53, 0x55, 0x42] = take 11 entrySub"
    using dosName_run [OF b [of 3 "[0x53, 0x55, 0x42]"]] by (simp add: dosOf_def entrySub_def toupper_def u r)
  show "dosOf [0x61, 0x2E, 0x74, 0x78, 0x74] = take 11 entryA"
    using dosName_run [OF b [of 1 "[0x61, 0x2E, 0x74, 0x78, 0x74]"]] by (simp add: dosOf_def entryA_def toupper_def u r)
  show "dosOf [0x48, 0x65, 0x6C, 0x6C, 0x6F, 0x2E, 0x74, 0x78, 0x74] = take 11 entryHello"
    using dosName_run [OF b [of 5 "[0x48, 0x65, 0x6C, 0x6C, 0x6F, 0x2E, 0x74, 0x78, 0x74]"]] by (simp add: dosOf_def entryHello_def toupper_def u r)
qed

lemma first_entries: "sectorEntries (a @ b @ r) = a # b # map (\<lambda>i. take 32 (drop (32 * i) (a @ b @ r))) [2..<16]"
  if "length a = 32" "length b = 32"
proof -
  have u: "[0..<16] = 0 # 1 # [2..<16]" by (simp add: upt_rec)
  show ?thesis unfolding sectorEntries_def u using that by simp
qed

lemma floppy_lookup:
  assumes "mounted t" "sector0 t = floppy" "bpb t = parseBpb (floppy 0)"
  shows "lookupEntry (take 11 entrySub) (rootEntries t) = Some (parseDirectoryEntry entrySub 0)"
    "lookupEntry (take 11 entryHello) (rootEntries t) = Some (parseDirectoryEntry entryHello 0)"
    "lookupEntry (take 11 entryA) (sectorEntries (dirSector t (parseDirectoryEntry entrySub 0))) = Some (parseDirectoryEntry entryA 0)"
proof -
  note G = floppy_geometry [OF assms]
  have l: "length entrySub = 32" "length entryHello = 32" "length entryA = 32" "length (replicate 32 0) = 32"
    by (simp_all add: entrySub_def entryHello_def entryA_def)
  have "floppy 2 = entrySub @ entryHello @ replicate 448 0" using l by (simp add: floppy_def padded_def)
  then have r: "rootEntries t = sectorEntries (entrySub @ entryHello @ replicate 448 0)"
    using G(5,6) assms(2) by (simp add: rootEntries_def)
  have "take 11 entrySub \<noteq> take 11 entryHello" by (simp add: entrySub_def entryHello_def)
  then show "lookupEntry (take 11 entrySub) (rootEntries t) = Some (parseDirectoryEntry entrySub 0)"
      "lookupEntry (take 11 entryHello) (rootEntries t) = Some (parseDirectoryEntry entryHello 0)"
    unfolding r first_entries [OF l(1,2)] by (simp_all add: lookupEntry_def)
  have "replicate 480 (0 :: byte) = replicate 32 0 @ replicate 448 0" by (simp flip: replicate_add)
  then have f: "floppy 5 = entryA @ replicate 32 0 @ replicate 448 0" using l(3) by (simp add: floppy_def padded_def)
  have "FirstCluster (parseDirectoryEntry entrySub 0) = 4" by (simp add: parseDirectoryEntry_def entrySub_def le16_def)
  then have "dirSector t (parseDirectoryEntry entrySub 0) = floppy 5" using G(4) by (simp add: dirSector_def length_floppy)
  then show "lookupEntry (take 11 entryA) (sectorEntries (dirSector t (parseDirectoryEntry entrySub 0))) = Some (parseDirectoryEntry entryA 0)"
    unfolding f using first_entries [OF l(3,4)] by (simp add: lookupEntry_def)
qed

section \<open>Properties\<close>

text \<open>
  C27: searching the root directory.  The search goes through the sectors of the root directory and returns the first
  entry whose eleven name bytes are the 8.3 form of the name, as the lookup in the list of all
  entries does, and nothing when there is none.  The files, the processes and the disk are unchanged.
\<close>

theorem root_search_is_lookup:
  assumes "disk_ready i k s" "mounted s" "11 \<le> length junk"
  shows "\<exists>t. fsFat12FindInRootDirectory f junk s = Ret (lookupEntry (dosName f) (rootEntries s)) t \<and> same_fs i k s t"
  by (rule fsFat12FindInRootDirectory_run [OF assms])

theorem root_search_is_lookup_witness:
  "\<exists>(s :: kfat) t. fsFat12FindInRootDirectory (\<lambda>j. if j < 3 then [0x53, 0x55, 0x42] ! j else 0) (replicate 12 0) s =
    Ret (Some (parseDirectoryEntry entrySub 0)) t"
proof -
  obtain s :: kfat where s: "disk_ready 0 0 s" "mounted s" "sector0 s = floppy" "bpb s = parseBpb (floppy 0)"
    using floppy_mounted by metis
  have l: "11 \<le> length (replicate 12 (0 :: byte))" by simp
  have d: "dosName (\<lambda>j. if j < 3 then [0x53, 0x55, 0x42] ! j else 0) = take 11 entrySub"
    using floppy_names(1) by (simp add: dosOf_def numeral_3_eq_3)
  show ?thesis
    using root_search_is_lookup [OF s(1,2) l, of "\<lambda>j. if j < 3 then [0x53, 0x55, 0x42] ! j else 0"]
    unfolding d floppy_lookup(1) [OF s(2-4)] by blast
qed

text \<open>
  C7: opening a path.  \<^verbatim>\<open>fsFat12Open\<close> implements the abstract lookup, in which a sub-directory has the entries of all its clusters.
  The path is shorter than 20 characters after its first, its components are names with no extension or one of at
  least three characters, a slot of the file table is free, and on the way no name stands only behind the first sixteen entries
  of a sub-directory, which are all that the code reads.  Then it opens the entry that following the names from the root
  finds, in the first free slot; it returns no file, and leaves all used slots as they were, when a component is missing, when
  one on the way is no directory, or when a directory was asked for and the entry is none.
\<close>

theorem open_resolves_path:
  assumes "disk_ready i k s" "mounted s" "length (FileTab s) = NFILE" "findIndex (\<lambda>f. ReferenceCount f = 0) (FileTab s) = Some g"
    and "11 \<le> length junk" "length filename < 256" "openPath cwd filename = c # p" "length p < 20"
    and "\<forall>c \<in> set (pathParts p). cleanPart c" "dirsOk s None (map dosOf (pathParts p))"
  shows "openResult i k g (FileTab s) directory filename s (walk s None (map dosOf (pathParts p)))
    (fsFat12Open cwd filename directory pathPart junk s)"
  by (rule fsFat12Open_run [OF assms])

lemma floppy_free: "FileTab s = replicate NFILE blank_file \<Longrightarrow> length (FileTab s) = NFILE \<and> findIndex (\<lambda>f. ReferenceCount f = 0) (FileTab s) = Some 0"
  unfolding findIndex_Some by (simp add: NFILE_def blank_file_def)

theorem open_resolves_path_witness:
  "\<exists>(s :: kfat) t. fsFat12Open [0x2F] [0x2F, 0x53, 0x55, 0x42, 0x2F, 0x61, 0x2E, 0x74, 0x78, 0x74] 0 (\<lambda>_. 0) (replicate 12 0) s = Ret (Some 0) t \<and>
    DirEntry (FileTab t ! 0) = parseDirectoryEntry entryA 0"
proof -
  obtain s :: kfat where s: "disk_ready 0 0 s" "mounted s" "sector0 s = floppy" "bpb s = parseBpb (floppy 0)" "FileTab s = replicate NFILE blank_file"
    using floppy_mounted by metis
  note F = floppy_free [OF s(5)] and L = floppy_lookup [OF s(2-4)]
  let ?p = "[0x53, 0x55, 0x42, 0x2F, 0x61, 0x2E, 0x74, 0x78, 0x74] :: byte list" and ?c = "0x2F :: byte"
  have parts: "pathParts ?p = [[0x53, 0x55, 0x42], [0x61, 0x2E, 0x74, 0x78, 0x74]]" by (simp add: isSeparator_def)
  then have names: "map dosOf (pathParts ?p) = [take 11 entrySub, take 11 entryA]" using floppy_names by simp
  have d: "Attrib (parseDirectoryEntry entrySub 0) = 0x10" "FileSize (parseDirectoryEntry entrySub 0) = 0" "FirstCluster (parseDirectoryEntry entrySub 0) = 4"
    by (simp_all add: parseDirectoryEntry_def entrySub_def le16_def le32_def)
  have "2 \<le> unat (FirstCluster (parseDirectoryEntry entrySub 0))" using d(3) by simp
  from lookup_first [OF L(3) [folded dirData_first [OF s(2) this]]]
  have w: "walk s None (map dosOf (pathParts ?p)) = Some (parseDirectoryEntry entryA 0)" "dirsOk s None (map dosOf (pathParts ?p))"
    unfolding names using L d by (simp_all add: dirEntries_def dirOk_def)
  have cl: "\<forall>c \<in> set (pathParts ?p). cleanPart c" unfolding parts by (simp add: cleanPart_def)
  have op: "openPath [0x2F] (?c # ?p) = ?c # ?p" by (simp add: openPath_def isSeparator_def MAXCWDSIZE_def)
  have "openResult 0 0 0 (FileTab s) 0 (?c # ?p) s (Some (parseDirectoryEntry entryA 0)) (fsFat12Open [0x2F] (?c # ?p) 0 (\<lambda>_. 0) (replicate 12 0) s)"
    using open_resolves_path [OF s(1,2) conjunct1 [OF F] conjunct2 [OF F] _ _ op _ cl w(2), of "replicate 12 0" 0] unfolding w(1) by simp
  then obtain x t where t: "fsFat12Open [0x2F] (?c # ?p) 0 (\<lambda>_. 0) (replicate 12 0) s = Ret (Some 0) t"
      "same_fs 0 0 (set_files ((FileTab s)[0 := openedFile 0 x (parseDirectoryEntry entryA 0) (?c # ?p)]) s) t"
    by (auto simp: openResult_def)
  then show ?thesis using same_fsD(4) [OF t(2)] F by (intro exI [of _ s] exI [of _ t]) (simp add: openedFile_def freshFile_def NFILE_def)
qed

text \<open>
  C6: opening and reading.  Opening a file by its path and reading it returns the bytes that the clusters of its
  directory entry hold on the disk: the lookup, the allocation of the file structure, the walk along the
  table and the reads through the buffer cache together.
\<close>

theorem open_then_read:
  assumes "disk_ready i k s" "mounted s" "length (FileTab s) = NFILE" "findIndex (\<lambda>f. ReferenceCount f = 0) (FileTab s) = Some g"
    and "11 \<le> length junk" "length filename < 256" "openPath cwd filename = c # p" "length p < 20"
    and "\<forall>c \<in> set (pathParts p). cleanPart c" "dirsOk s None (map dosOf (pathParts p))"
    and "walk s None (map dosOf (pathParts p)) = Some e" "isChain s cs" "hd cs = ucast (FirstCluster e)" "0 < unat (FileSize e)"
    and "unat (FileSize e) \<le> csize s * length cs" "csize s * length cs < unat (FileSize e) + csize s" "csize s * length cs < 2 ^ 32"
    and "n = min (unat len) (csize s * length cs)"
  shows "\<exists>t u. fsFat12Open cwd filename 0 pathPart junk s = Ret (Some g) t \<and>
    fsFat12Read (Some g) len t = Ret (of_nat n, take n (fileData s cs)) u \<and> sector0 u = sector0 s \<and>
    (\<forall>j. j \<noteq> g \<longrightarrow> FileTab u ! j = FileTab s ! j)"
proof -
  obtain x t where t: "fsFat12Open cwd filename 0 pathPart junk s = Ret (Some g) t"
      "same_fs i k (set_files ((FileTab s)[g := openedFile 0 x e filename]) s) t"
    using fsFat12Open_run [OF assms(1-10), of 0 pathPart] unfolding assms(11) openResult_def by auto
  note S = same_fsD [OF t(2)] and T = same_fs_geometry [OF t(2)]
  let ?y = "openedFile 0 x e filename"
  have g: "g < NFILE" using assms(3,4) findIndex_bound by metis
  have ft: "FileTab t = (FileTab s)[g := ?y]" using S(4) by simp
  have y: "Type ?y = FD_FILE" "Eof ?y = 0" "Position ?y = 0" "Size ?y = FileSize e" "DirEntry ?y = e"
    by (simp_all add: openedFile_def freshFile_def)
  have f: "g < length (FileTab t)" "?y = FileTab t ! g" using ft g assms(3) by simp_all
  have fs: "isChain t cs" "csize t = csize s" "mounted t" "fileData t cs = fileData s cs"
    using isChain_cong [OF S(5,6), of cs] T fileData_same_fs [OF t(2), of cs] assms(2,12) by simp_all
  have c: "hd cs = ucast (FirstCluster (DirEntry ?y))" "unat (Position ?y) mod 512 = 0" "unat (Position ?y) < unat (Size ?y)"
      "unat (Size ?y) \<le> csize t * length cs" "csize t * length cs < unat (Size ?y) + csize t" "csize t * length cs < 2 ^ 32"
      "n = min (unat len) (csize t * length cs - unat (Position ?y))"
    using assms(13-18) y fs(2) by simp_all
  obtain u where u: "fsFat12Read (Some g) len t = Ret (of_nat n, take n (drop (unat (Position ?y)) (fileData t cs))) u"
      "same_fs i k (set_files ((FileTab t)[g := ?y\<lparr>Position := Position ?y + of_nat n, Eof := (if Size ?y \<le> Position ?y + of_nat n then 1 else 0)\<rparr>]) t) u"
    using fsFat12Read_run [OF S(1) fs(3) f y(1,2) fs(1) c refl] by blast
  have "FileTab u ! j = FileTab s ! j" if "j \<noteq> g" for j using same_fsD(4) [OF u(2)] ft that by simp
  then show ?thesis using t(1) u(1) same_fsD(2) [OF u(2)] S(2) y(3) fs(4) by simp
qed

theorem open_then_read_witness:
  "\<exists>(s :: kfat) t u. fsFat12Open [0x2F] [0x48, 0x65, 0x6C, 0x6C, 0x6F, 0x2E, 0x74, 0x78, 0x74] 0 (\<lambda>_. 0) (replicate 12 0) s = Ret (Some 0) t \<and>
    fsFat12Read (Some 0) 514 t = Ret (514, replicate 512 7 @ [9, 9]) u"
proof -
  obtain s :: kfat where s: "disk_ready 0 0 s" "mounted s" "sector0 s = floppy" "bpb s = parseBpb (floppy 0)" "FileTab s = replicate NFILE blank_file"
      "\<forall>j < length (pack12 floppyTable). mem s (fatArray (fatfs s) + of_nat j) = pack12 floppyTable ! j"
    using floppy_mounted by metis
  note F = floppy_free [OF s(5)] and L = floppy_lookup [OF s(2-4)] and G = floppy_geometry [OF s(2-4)]
  let ?p = "[0x48, 0x65, 0x6C, 0x6C, 0x6F, 0x2E, 0x74, 0x78, 0x74] :: byte list" and ?e = "parseDirectoryEntry entryHello 0"
  have parts: "pathParts ?p = [?p]" by (simp add: isSeparator_def)
  have names: "map dosOf (pathParts ?p) = [take 11 entryHello]" unfolding parts using floppy_names by simp
  have w: "walk s None (map dosOf (pathParts ?p)) = Some ?e" "dirsOk s None (map dosOf (pathParts ?p))"
    unfolding names using L by (simp_all add: dirEntries_def dirOk_def)
  have cl: "\<forall>c \<in> set (pathParts ?p). cleanPart c" unfolding parts by (simp add: cleanPart_def)
  have op: "openPath [0x2F] ?p = 0x2F # ?p" by (simp add: openPath_def isSeparator_def MAXCWDSIZE_def)
  have e: "FirstCluster ?e = 2" "FileSize ?e = 600"
    by (simp_all add: parseDirectoryEntry_def entryHello_def le16_def le32_def)
  have l: "11 \<le> length (replicate 12 (0 :: byte))" "length ?p < 256" "length ?p < 20" by simp_all
  have fd: "take 514 (fileData s [2, 3]) = replicate 512 7 @ [9, 9]" using G(2,3) by (simp add: fileData_def numeral_2_eq_2)
  have "\<exists>t u. fsFat12Open [0x2F] ?p 0 (\<lambda>_. 0) (replicate 12 0) s = Ret (Some 0) t \<and>
      fsFat12Read (Some 0) 514 t = Ret (of_nat 514, take 514 (fileData s [2, 3])) u \<and> sector0 u = sector0 s \<and>
      (\<forall>j. j \<noteq> 0 \<longrightarrow> FileTab u ! j = FileTab s ! j)"
    by (rule open_then_read [OF s(1,2) conjunct1 [OF F] conjunct2 [OF F] l(1,2) op l(3) cl w(2,1) floppy_chain(1) [OF s(6)]])
      (use e G(1) in simp_all)
  then show ?thesis unfolding fd by auto
qed

text \<open>
  C40: 8.3 names.  The conversion upper-cases up to eight characters before the first dot, pads with spaces, and takes the
  three bytes that follow the dot as the extension, a zero byte leaving a space; a longer base name loses
  its extension.  The three bytes are taken even when the name ends before them.
\<close>

theorem dos_name_form:
  assumes "baseLength f b" "0 < b" "length buf = 11"
  shows "toDosFileName f (buf @ r) 11 = map (toupper \<circ> f) [0..<min b 8] @ replicate (8 - b) 0x20 @
    (if b \<le> 8 \<and> f b = 0x2E then map (\<lambda>k. if f (b + 1 + k) = 0 then 0x20 else toupper (f (b + 1 + k))) [0, 1, 2]
     else replicate 3 0x20) @ r"
  unfolding toDosFileName_buffer [OF assms(3)] dosName_run [OF assms(1,2)] by simp

text \<open>
  The component \<^verbatim>\<open>a.c\<close> of the path \<^verbatim>\<open>a.c/b\<close>: the byte of the path after its end becomes part of the extension.
\<close>

theorem dos_name_form_witness:
  "toDosFileName (\<lambda>j. [0x61, 0x2E, 0x63, 0, 0x62, 0] ! j) (replicate 11 0 @ [0]) 11 =
    [0x41, 0x20, 0x20, 0x20, 0x20, 0x20, 0x20, 0x20, 0x43, 0x20, 0x42, 0]"
proof -
  have "baseLength (\<lambda>j. [0x61, 0x2E, 0x63, 0, 0x62, 0] ! j) 1" by (simp add: baseLength_def)
  moreover have "replicate 7 (0x20 :: byte) = [0x20, 0x20, 0x20, 0x20, 0x20, 0x20, 0x20]" by (simp add: numeral_eq_Suc)
  moreover have "length (replicate 11 (0 :: byte)) = 11" by simp
  ultimately show ?thesis
    using dos_name_form [of "\<lambda>j. [0x61, 0x2E, 0x63, 0, 0x62, 0] ! j" 1 "replicate 11 0" "[0]"] by (simp add: toupper_def upt_rec)
qed

end
