(* ===== verification/Umalloc.thy ===== *)
theory Umalloc
  imports Prelude
begin

text \<open>
  The allocator of the user programs (\<^verbatim>\<open>umalloc.c\<close>): a circular list of free blocks in address order, searched first
  fit.  A block starts with a header of eight bytes; \<open>hptr\<close> and \<open>hsize\<close> are the two fields of the headers in
  memory by address, and sizes count headers.  \<open>brk\<close> is the size of the process.  \<open>sbrk\<close> is the effect of the system
  call on it, as \<^verbatim>\<open>sys_sbrk\<close> and \<^verbatim>\<open>growProcess\<close> of the kernel compute it from the signed argument; growing fails at
  the kernel's addresses and when the argument \<open>enough\<close>, the kernel's supply of pages, says so.  A search that does not end
  is \<open>None\<close>.
\<close>

section \<open>Definitions\<close>

record Heap =
  hptr :: "u32 \<Rightarrow> u32"
  hsize :: "u32 \<Rightarrow> u32"
  base :: u32
  freep :: u32
  brk :: u32

partial_function (option) findPlace :: "(u32 \<Rightarrow> u32) \<Rightarrow> u32 \<Rightarrow> u32 \<Rightarrow> u32 option" where
  "findPlace nxt bp p =
     (if p < bp \<and> bp < nxt p then Some p
      else if nxt p \<le> p \<and> (p < bp \<or> bp < nxt p) then Some p
      else findPlace nxt bp (nxt p))"

definition joinUpper :: "u32 \<Rightarrow> u32 \<Rightarrow> Heap \<Rightarrow> Heap" where
  "joinUpper bp p s =
     (let q = hptr s p in
      if bp + 8 * hsize s bp = q
      then s\<lparr>hsize := (hsize s)(bp := hsize s bp + hsize s q), hptr := (hptr s)(bp := hptr s q)\<rparr>
      else s\<lparr>hptr := (hptr s)(bp := q)\<rparr>)"

definition joinLower :: "u32 \<Rightarrow> u32 \<Rightarrow> Heap \<Rightarrow> Heap" where
  "joinLower bp p s =
     (if p + 8 * hsize s p = bp
      then s\<lparr>hsize := (hsize s)(p := hsize s p + hsize s bp), hptr := (hptr s)(p := hptr s bp)\<rparr>
      else s\<lparr>hptr := (hptr s)(p := bp)\<rparr>)"

definition free :: "u32 \<Rightarrow> Heap \<Rightarrow> Heap option" where
  "free ap s =
     (let bp = ap - 8 in
      map_option (\<lambda>p. (joinLower bp p (joinUpper bp p s))\<lparr>freep := p\<rparr>) (findPlace (hptr s) bp (freep s)))"

definition sbrk :: "(u32 \<Rightarrow> u32 \<Rightarrow> bool) \<Rightarrow> u32 \<Rightarrow> Heap \<Rightarrow> u32 \<times> Heap" where
  "sbrk enough n s =
     (let newsz = brk s + n in
      if 0 < sint n then (if newsz < KERNBASE \<and> enough (brk s) newsz then (brk s, s\<lparr>brk := newsz\<rparr>) else (- 1, s))
      else if sint n < 0 then (if brk s \<le> newsz then (brk s, s) else if newsz = 0 then (- 1, s) else (brk s, s\<lparr>brk := newsz\<rparr>))
      else (brk s, s))"

definition morecore :: "(u32 \<Rightarrow> u32 \<Rightarrow> bool) \<Rightarrow> u32 \<Rightarrow> Heap \<Rightarrow> (u32 \<times> Heap) option" where
  "morecore enough nu s =
     (let nu = (if nu < 4096 then 4096 else nu) in
      case sbrk enough (nu * 8) s of (p, s) \<Rightarrow>
        if p = - 1 then Some (0, s)
        else map_option (\<lambda>s. (freep s, s)) (free (p + 8) (s\<lparr>hsize := (hsize s)(p := nu)\<rparr>)))"

definition carve :: "u32 \<Rightarrow> u32 \<Rightarrow> u32 \<Rightarrow> Heap \<Rightarrow> u32 \<times> Heap" where
  "carve nunits prevp p s =
     (if hsize s p = nunits then (p + 8, s\<lparr>hptr := (hptr s)(prevp := hptr s p), freep := prevp\<rparr>)
      else let rest = hsize s p - nunits; q = p + 8 * rest in
        (q + 8, s\<lparr>hsize := (hsize s)(p := rest, q := nunits), freep := prevp\<rparr>))"

partial_function (option) mallocLoop :: "(u32 \<Rightarrow> u32 \<Rightarrow> bool) \<Rightarrow> u32 \<Rightarrow> u32 \<Rightarrow> u32 \<Rightarrow> Heap \<Rightarrow> (u32 \<times> Heap) option" where
  "mallocLoop enough nunits prevp p s =
     (if nunits \<le> hsize s p then Some (carve nunits prevp p s)
      else if p = freep s
      then Option.bind (morecore enough nunits s) (\<lambda>(p, s).
        if p = 0 then Some (0, s) else mallocLoop enough nunits p (hptr s p) s)
      else mallocLoop enough nunits p (hptr s p) s)"

definition initialised :: "Heap \<Rightarrow> Heap" where
  "initialised s =
     (if freep s = 0 then s\<lparr>hptr := (hptr s)(base s := base s), hsize := (hsize s)(base s := 0), freep := base s\<rparr> else s)"

definition malloc :: "(u32 \<Rightarrow> u32 \<Rightarrow> bool) \<Rightarrow> u32 \<Rightarrow> Heap \<Rightarrow> (u32 \<times> Heap) option" where
  "malloc enough nbytes s =
     (let nunits = (nbytes + 8 - 1) div 8 + 1; s = initialised s in
      mallocLoop enough nunits (freep s) (hptr s (freep s)) s)"

section \<open>Rings\<close>

text \<open>\<open>ring f xs\<close>: following \<open>f\<close> from any element of \<open>xs\<close> goes round the list.\<close>

definition ring :: "('a \<Rightarrow> 'a) \<Rightarrow> 'a list \<Rightarrow> bool" where
  "ring f xs \<longleftrightarrow> xs \<noteq> [] \<and> map f xs = rotate1 xs"

lemma ring_rotate: "ring f xs \<Longrightarrow> ring f (rotate n xs)"
  unfolding ring_def by (metis rotate1_rotate_swap rotate_is_Nil_conv rotate_map)

lemma ring_at: "ring f (us @ p # vs) \<longleftrightarrow> ring f (p # vs @ us)"
proof -
  have "rotate (length us) (us @ p # vs) = p # vs @ us" by (simp add: rotate_append)
  moreover have "rotate (length (p # vs)) ((p # vs) @ us) = us @ p # vs" by (simp only: rotate_append)
  ultimately show ?thesis using ring_rotate by (metis append_Cons)
qed

lemma ring_insert: "ring f (p # ws) \<Longrightarrow> b \<notin> set (p # ws) \<Longrightarrow> distinct (p # ws) \<Longrightarrow> ring (f(b := f p, p := b)) (p # b # ws)"
  by (cases ws) (auto simp: ring_def)

lemma ring_remove: "ring f (p # y # ws) \<Longrightarrow> distinct (p # y # ws) \<Longrightarrow> ring (f(p := f y)) (p # ws)"
  by (cases ws) (auto simp: ring_def)

lemma ring_next: "ring f (p # ws) \<Longrightarrow> f p = hd (ws @ [p])"
  by (cases ws) (auto simp: ring_def)

lemma ring_cong: "ring f xs \<Longrightarrow> (\<And>x. x \<in> set xs \<Longrightarrow> g x = f x) \<Longrightarrow> ring g xs"
  unfolding ring_def by (metis map_cong)

lemma ring_replace: "ring f (p # y # ws) \<Longrightarrow> b \<notin> set (p # y # ws) \<Longrightarrow> distinct (p # y # ws) \<Longrightarrow>
    ring (f(b := f y, p := b)) (p # b # ws)"
  by (cases ws) (auto simp: ring_def)

definition placed :: "(u32 \<Rightarrow> u32) \<Rightarrow> u32 \<Rightarrow> u32 \<Rightarrow> bool" where
  "placed nxt bp p \<longleftrightarrow> p < bp \<and> bp < nxt p \<or> nxt p \<le> p \<and> (p < bp \<or> bp < nxt p)"

lemma findPlace_ring:
  assumes "ring f (p # us @ q # vs)" "\<forall>x \<in> set (p # us). \<not> placed f b x" "placed f b q"
  shows "findPlace f b p = Some q"
  using assms
proof (induction us arbitrary: p vs)
  case Nil
  then have "f p = q" using ring_next [of f p "q # vs"] by simp
  moreover have "findPlace f b q = Some q" using Nil(3) by (subst findPlace.simps) (auto simp: placed_def)
  ultimately show ?case using Nil(2) by (subst findPlace.simps) (auto simp: placed_def)
next
  case (Cons u us)
  have "ring f (u # us @ q # vs @ [p])" using Cons.prems(1) ring_at [of f "[p]" u "us @ q # vs"] by simp
  then have "findPlace f b u = Some q" using Cons.prems(2,3) by (intro Cons.IH) simp_all
  moreover have "f p = u" using ring_next [OF Cons.prems(1)] by simp
  ultimately show ?case using Cons.prems(2) by (subst findPlace.simps) (auto simp: placed_def)
qed

lemma findPlace_found:
  assumes "ring f xs" "p \<in> set xs" "q \<in> set xs" "\<forall>x \<in> set xs. placed f b x \<longleftrightarrow> x = q"
  shows "findPlace f b p = Some q"
proof (cases "p = q")
  case True
  then show ?thesis using assms(2,4) by (subst findPlace.simps) (auto simp: placed_def)
next
  case False
  obtain us vs where xs: "xs = us @ p # vs" using assms(2) by (meson split_list)
  then have r: "ring f (p # vs @ us)" "q \<in> set (vs @ us)" using assms(1,3) False by (auto simp: ring_at)
  then obtain ws zs where w: "vs @ us = ws @ q # zs" "q \<notin> set ws" by (meson split_list_first)
  have "set ws \<subseteq> set (vs @ us)" unfolding w(1) by auto
  then have "\<forall>x \<in> set (p # ws). \<not> placed f b x" using w(2) False assms(4) unfolding xs by auto
  then show ?thesis using findPlace_ring [OF r(1) [unfolded w(1)]] assms(3,4) by blast
qed

section \<open>The invariant\<close>

text \<open>
  \<open>heap_inv s xs L\<close>: the free list is the static header \<open>base\<close> followed by the blocks \<open>xs\<close> in address order, and \<open>L\<close> are the
  headers of the blocks in use.  All blocks lie between \<open>base\<close> and the end of the process, no two overlap, and no two
  free ones touch.
\<close>

abbreviation ending :: "Heap \<Rightarrow> u32 \<Rightarrow> nat" where
  "ending s p \<equiv> unat p + 8 * unat (hsize s p)"

definition block_ok :: "Heap \<Rightarrow> u32 \<Rightarrow> bool" where
  "block_ok s p \<longleftrightarrow> 0 < unat (hsize s p) \<and> unat (base s) + 8 \<le> unat p \<and> ending s p \<le> unat (brk s)"

definition apart :: "Heap \<Rightarrow> u32 set \<Rightarrow> bool" where
  "apart s B \<longleftrightarrow> (\<forall>p \<in> B. \<forall>q \<in> B. unat p < unat q \<longrightarrow> ending s p \<le> unat q)"

definition coalesced :: "Heap \<Rightarrow> u32 set \<Rightarrow> bool" where
  "coalesced s B \<longleftrightarrow> (\<forall>p \<in> B. \<forall>q \<in> B. ending s p \<noteq> unat q)"

definition heap_inv :: "Heap \<Rightarrow> u32 list \<Rightarrow> u32 set \<Rightarrow> bool" where
  "heap_inv s xs L \<longleftrightarrow>
     ring (hptr s) (base s # xs) \<and> sorted_wrt (<) (base s # xs) \<and> freep s \<in> set (base s # xs) \<and>
     hsize s (base s) = 0 \<and> 0 < unat (base s) \<and> unat (base s) + 8 \<le> unat (brk s) \<and> unat (brk s) < 2 ^ 31 \<and>
     set xs \<inter> L = {} \<and> (\<forall>p \<in> set xs \<union> L. block_ok s p) \<and> apart s (set xs \<union> L) \<and> coalesced s (set xs)"

lemma ending_word:
  fixes p n :: u32
  shows "unat p + 8 * unat n < 2 ^ 32 \<Longrightarrow> unat (p + 8 * n) = unat p + 8 * unat n"
  by (simp add: unat_word_ariths)

lemma ending_eq: "ending s p < 2 ^ 32 \<Longrightarrow> p + 8 * hsize s p = q \<longleftrightarrow> ending s p = unat q"
  by (metis ending_word word_unat_eq_iff)

text \<open>The place of a block in the list: after the blocks below it, before those above.\<close>

lemma sorted_split:
  fixes b :: u32
  assumes "sorted_wrt (<) xs" "b \<notin> set xs"
  shows "\<exists>us vs. xs = us @ vs \<and> (\<forall>x \<in> set us. x < b) \<and> (\<forall>x \<in> set vs. b < x)"
  using assms
proof (induction xs)
  case (Cons x xs)
  show ?case
  proof (cases "x < b")
    case True
    obtain us vs where "xs = us @ vs" "\<forall>x \<in> set us. x < b" "\<forall>x \<in> set vs. b < x" using Cons by auto
    then show ?thesis using True by (intro exI [of _ "x # us"] exI [of _ vs]) simp
  next
    case False
    then have "\<forall>y \<in> set (x # xs). b < y" using Cons.prems by (auto intro: order.strict_trans simp: not_less order.order_iff_strict)
    then show ?thesis by (intro exI [of _ "[]"] exI [of _ "x # xs"]) simp
  qed
qed simp

lemma ring_successor:
  assumes "ring f (B # ws)" "B # ws = ys @ x # zs"
  shows "f x = hd (zs @ [B])"
proof (cases ys)
  case Nil
  then show ?thesis using assms ring_next [of f x zs] by auto
next
  case (Cons y ys')
  then have "ring f (x # zs @ B # ys')" using assms ring_at [of f ys x zs] by simp
  from ring_next [OF this] show ?thesis by (cases zs) simp_all
qed

lemma placed_predecessor:
  assumes ring: "ring f (B # us @ vs)" and sorted: "sorted_wrt (<) (B # us @ vs)"
    and b: "B < b" "\<forall>x \<in> set us. x < b" "\<forall>x \<in> set vs. b < x"
    and x: "x \<in> set (B # us @ vs)"
  shows "placed f b x \<longleftrightarrow> x = last (B # us)"
proof -
  let ?L = "last (B # us)"
  have "?L \<in> set (B # us)" by (rule last_in_set) simp
  then have L: "?L < b" "B \<le> ?L" using b sorted by (auto intro: less_imp_le)
  have max: "y \<le> ?L" if "y \<in> set (B # us @ vs)" "y < b" for y
  proof -
    have "y \<in> set (butlast (B # us) @ [?L])" using that b(3) by (subst append_butlast_last_id) (auto dest: order.asym)
    moreover have "sorted_wrt (<) (butlast (B # us) @ [?L])"
      using sorted sorted_wrt_append [of "(<)" "B # us" vs] by (subst append_butlast_last_id) simp_all
    ultimately show ?thesis by (auto simp: sorted_wrt_append intro: less_imp_le)
  qed
  obtain ys zs where eq: "B # us @ vs = ys @ x # zs" using x by (meson split_list)
  have nx: "f x = hd (zs @ [B])" by (rule ring_successor [OF ring eq])
  have bx: "b \<noteq> y" if "y \<in> set (B # us @ vs)" for y using that b by auto
  show ?thesis
  proof (cases zs)
    case Nil
    have "y \<le> x" if "y \<in> set (B # us @ vs)" for y
      using sorted that unfolding eq Nil by (auto simp: sorted_wrt_append intro: less_imp_le)
    then have "?L \<le> x" "B \<le> x" using L(2) by auto
    then show ?thesis using nx Nil L b(1) max [OF x] by (auto simp: placed_def)
  next
    case (Cons z zs')
    have z: "z \<in> set (B # us @ vs)" "x < z" using sorted unfolding eq Cons by (auto simp: sorted_wrt_append)
    have "y \<le> x \<or> z \<le> y" if "y \<in> set (B # us @ vs)" for y
      using sorted that unfolding eq Cons by (auto simp: sorted_wrt_append intro: less_imp_le)
    then have "?L \<le> x \<or> z \<le> ?L" using \<open>?L \<in> set (B # us)\<close> by auto
    moreover have "b < z \<or> z < b" using bx [OF z(1)] by (simp add: neq_iff)
    ultimately show ?thesis using nx Cons z L(1) max [OF x] max [OF z(1)]
      by (auto simp only: placed_def list.sel append.simps intro: order_antisym dest: leD order.strict_trans1 order.strict_trans)
  qed
qed

section \<open>Freeing\<close>

lemma heap_invD:
  assumes "heap_inv s xs L"
  shows "ring (hptr s) (base s # xs)" "sorted_wrt (<) (base s # xs)" "freep s \<in> set (base s # xs)"
    "hsize s (base s) = 0" "unat (brk s) < 2 ^ 31" "set xs \<inter> L = {}" "\<forall>p \<in> set xs \<union> L. block_ok s p"
    "apart s (set xs \<union> L)" "coalesced s (set xs)"
  using assms unfolding heap_inv_def by blast+

text \<open>What the two joins do to the list, for a block \<open>b\<close> between \<open>us\<close> and \<open>vs\<close>.\<close>

definition freed_list :: "Heap \<Rightarrow> u32 \<Rightarrow> u32 list \<Rightarrow> u32 list \<Rightarrow> u32 list" where
  "freed_list s b us vs =
     us @ (if us \<noteq> [] \<and> ending s (last us) = unat b then [] else [b]) @
     (if vs \<noteq> [] \<and> ending s b = unat (hd vs) then tl vs else vs)"

definition freed_size :: "Heap \<Rightarrow> u32 \<Rightarrow> u32 list \<Rightarrow> u32 list \<Rightarrow> u32 \<Rightarrow> u32" where
  "freed_size s b us vs =
     (let n = (if vs \<noteq> [] \<and> ending s b = unat (hd vs) then hsize s b + hsize s (hd vs) else hsize s b);
          h = (hsize s)(b := n)
      in if us \<noteq> [] \<and> ending s (last us) = unat b then h(last us := h (last us) + n) else h)"

lemma between_facts:
  assumes inv: "heap_inv s (us @ vs) (insert b L)"
  shows "base s < b" "b \<notin> set (us @ vs)" "ending s b < 2 ^ 32" "us \<noteq> [] \<Longrightarrow> ending s (last us) < 2 ^ 32"
    "distinct (base s # us @ vs)" "b \<noteq> base s"
proof -
  note d = heap_invD [OF inv]
  show "base s < b" using d(7) by (auto simp: block_ok_def word_less_nat_alt)
  then show "b \<noteq> base s" by simp
  show "b \<notin> set (us @ vs)" using d(6) by auto
  show "ending s b < 2 ^ 32" using d(5,7) by (auto simp: block_ok_def)
  show "ending s (last us) < 2 ^ 32" if "us \<noteq> []" using that d(5) bspec [OF d(7), of "last us"] by (simp add: block_ok_def)
  show "distinct (base s # us @ vs)" using d(2) by (metis strict_sorted_iff)
qed

text \<open>The tests of the code in these terms.\<close>

lemma upper_test:
  assumes inv: "heap_inv s (us @ vs) (insert b L)" and p: "p = last (base s # us)"
  shows "hptr s p = hd (vs @ [base s])" "b + 8 * hsize s b = hptr s p \<longleftrightarrow> vs \<noteq> [] \<and> ending s b = unat (hd vs)"
proof -
  have "base s # us @ vs = butlast (base s # us) @ p # vs"
    unfolding p by (metis append_butlast_last_id append_Cons append_Nil append_assoc list.distinct(1))
  then show nx: "hptr s p = hd (vs @ [base s])" using ring_successor heap_invD(1) [OF inv] by metis
  have "ending s b \<noteq> unat (base s)" using heap_invD(7) [OF inv] by (auto simp: block_ok_def)
  then show "b + 8 * hsize s b = hptr s p \<longleftrightarrow> vs \<noteq> [] \<and> ending s b = unat (hd vs)"
    unfolding nx using between_facts(3) [OF inv] by (cases vs) (simp_all add: ending_eq)
qed

lemma lower_test:
  assumes inv: "heap_inv s (us @ vs) (insert b L)" and p: "p = last (base s # us)"
  shows "p + 8 * hsize s p = b \<longleftrightarrow> us \<noteq> [] \<and> ending s (last us) = unat b" "p \<noteq> b"
proof -
  note f = between_facts [OF inv] and d = heap_invD [OF inv]
  have "p \<in> set (base s # us)" unfolding p by (rule last_in_set) simp
  then show "p \<noteq> b" using f(2,6) by auto
  show "p + 8 * hsize s p = b \<longleftrightarrow> us \<noteq> [] \<and> ending s (last us) = unat b"
    using f(4,6) d(4) by (cases "us = []") (simp_all add: p ending_eq)
qed

lemmas join_tests = upper_test lower_test

lemma joinUpper_eq:
  assumes inv: "heap_inv s (us @ vs) (insert b L)" and p: "p = last (base s # us)"
  shows "joinUpper b p s =
    (if vs \<noteq> [] \<and> ending s b = unat (hd vs)
     then s\<lparr>hsize := (hsize s)(b := hsize s b + hsize s (hd vs)), hptr := (hptr s)(b := hptr s (hd vs))\<rparr>
     else s\<lparr>hptr := (hptr s)(b := hptr s p)\<rparr>)"
  using upper_test(1) [OF assms] unfolding joinUpper_def Let_def upper_test(2) [OF assms] by auto

lemma joined_hsize:
  assumes inv: "heap_inv s (us @ vs) (insert b L)" and p: "p = last (base s # us)"
  shows "hsize (joinLower b p (joinUpper b p s)) = freed_size s b us vs"
  unfolding joinUpper_eq [OF assms] joinLower_def freed_size_def Let_def
  using lower_test [OF assms] by (auto simp: p fun_upd_twist)

lemma joined_hptr:
  assumes inv: "heap_inv s (us @ vs) (insert b L)" and p: "p = last (base s # us)"
  shows "hptr (joinLower b p (joinUpper b p s)) =
    (let q = hptr s (if vs \<noteq> [] \<and> ending s b = unat (hd vs) then hd vs else p) in
     (hptr s)(b := q, p := if us \<noteq> [] \<and> ending s (last us) = unat b then q else b))"
  unfolding joinUpper_eq [OF assms] joinLower_def Let_def
  using lower_test [OF assms] by (auto simp: p)

lemma joined_ring:
  assumes inv: "heap_inv s (us @ vs) (insert b L)" and p: "p = last (base s # us)"
  shows "ring (hptr (joinLower b p (joinUpper b p s))) (base s # freed_list s b us vs)"
proof -
  let ?f = "hptr s"
  obtain ws where bu: "base s # us = ws @ [p]" unfolding p by (metis append_butlast_last_id list.distinct(1))
  note t = join_tests [OF assms] and f = between_facts [OF inv]
  have r: "ring ?f (p # vs @ ws)" using heap_invD(1) [OF inv] bu ring_at [of ?f ws p vs] by (metis append_Cons append_assoc append_Nil)
  have "set (base s # us) = insert p (set ws)" "distinct (ws @ [p] @ vs)"
    using f(5) bu by (metis Un_insert_right list.simps(15) set_append sup_bot_right empty_set, metis append_Cons append_assoc)
  then have dist: "distinct (p # vs @ ws)" and b: "b \<notin> set (p # vs @ ws)" using f(2,6) by auto
  have goal: "ring g (base s # us @ zs) \<longleftrightarrow> ring g (p # zs @ ws)" for g zs
    using bu ring_at [of g ws p zs] by (metis append_Cons append_assoc append_Nil)
  let ?up = "vs \<noteq> [] \<and> ending s b = unat (hd vs)"
  define q zs where "q = ?f (if ?up then hd vs else p)" and "zs = (if ?up then tl vs else vs)"
  have "ring (?f(p := q)) (p # zs @ ws)"
    using r dist ring_remove [of ?f p "hd vs" "tl vs @ ws"] by (cases vs) (auto simp: q_def zs_def simp del: fun_upd_apply)
  then have "ring (?f(b := q, p := q)) (p # zs @ ws)"
  proof (rule ring_cong)
    fix x assume "x \<in> set (p # zs @ ws)"
    then have "x \<noteq> b" using b by (auto simp: zs_def split: if_splits dest: list.set_sel(2))
    then show "(?f(b := q, p := q)) x = (?f(p := q)) x" by simp
  qed
  moreover have "ring (?f(b := q, p := b)) (p # b # zs @ ws)"
    using r dist b ring_replace [of ?f p "hd vs" "tl vs @ ws" b] ring_insert [of ?f p "vs @ ws" b]
    by (cases vs) (auto simp: q_def zs_def simp del: fun_upd_apply)
  ultimately show ?thesis
    unfolding joined_hptr [OF assms] Let_def q_def [symmetric] freed_list_def zs_def [symmetric] goal by simp
qed

text \<open>The layout part of the invariant, and that merging two touching free blocks keeps it.\<close>

definition layout :: "Heap \<Rightarrow> u32 list \<Rightarrow> u32 set \<Rightarrow> bool" where
  "layout s xs L \<longleftrightarrow>
     sorted_wrt (<) (base s # xs) \<and> unat (brk s) < 2 ^ 31 \<and>
     set xs \<inter> L = {} \<and> (\<forall>p \<in> set xs \<union> L. block_ok s p) \<and> apart s (set xs \<union> L)"

lemma layout_insert:
  assumes inv: "heap_inv s (us @ vs) (insert b L)" and b: "b \<notin> L" "\<forall>x \<in> set us. x < b" "\<forall>x \<in> set vs. b < x"
  shows "layout s (us @ b # vs) L"
proof -
  note d = heap_invD [OF inv] and f = between_facts [OF inv]
  have "sorted_wrt (<) (base s # us @ b # vs)" using d(2) f(1) b(2,3) by (auto simp: sorted_wrt_append)
  moreover have "set (us @ b # vs) \<union> L = set (us @ vs) \<union> insert b L" by auto
  ultimately show ?thesis using d(5-8) b(1) unfolding layout_def by auto
qed

lemma merged_ending:
  assumes "layout s (us @ p # q # vs) L" "ending s p = unat q"
  shows "ending (s\<lparr>hsize := (hsize s)(p := hsize s p + hsize s q)\<rparr>) p = ending s q"
proof -
  have "ending s q < 2 ^ 31" using assms(1) by (auto simp: layout_def block_ok_def)
  then have "unat (hsize s p) + unat (hsize s q) < 2 ^ 32" using assms(2) by simp
  then have "unat (hsize s p + hsize s q) = unat (hsize s p) + unat (hsize s q)" by (simp add: unat_word_ariths)
  then show ?thesis using assms(2) by simp
qed

lemma layout_merge:
  assumes lay: "layout s (us @ p # q # vs) L" and touch: "ending s p = unat q"
  shows "layout (s\<lparr>hsize := (hsize s)(p := hsize s p + hsize s q)\<rparr>) (us @ p # vs) L" (is "layout ?t _ _")
proof -
  note m = merged_ending [OF assms]
  have ok: "\<forall>x \<in> set (us @ p # q # vs) \<union> L. block_ok s x" and ap: "apart s (set (us @ p # q # vs) \<union> L)"
    and srt: "sorted_wrt (<) (base s # us @ p # q # vs)" and dj: "set (us @ p # q # vs) \<inter> L = {}" and br: "unat (brk s) < 2 ^ 31"
    using lay unfolding layout_def by blast+
  have pq: "unat p < unat q" using touch ok by (auto simp: block_ok_def)
  have old: "ending ?t x = ending s x" if "x \<noteq> p" for x using that by simp
  have "block_ok ?t p" using ok m pq by (auto simp: block_ok_def)
  moreover have "block_ok ?t x" if "x \<in> set (us @ vs) \<union> L" "x \<noteq> p" for x using that ok by (auto simp: block_ok_def)
  ultimately have "\<forall>x \<in> set (us @ p # vs) \<union> L. block_ok ?t x" by auto
  moreover have "apart ?t (set (us @ p # vs) \<union> L)"
    unfolding apart_def
  proof (intro ballI impI)
    fix x y assume xy: "x \<in> set (us @ p # vs) \<union> L" "y \<in> set (us @ p # vs) \<union> L" "unat x < unat y"
    have "y \<noteq> q" using xy(2) srt dj by (auto simp: sorted_wrt_append)
    then have ne: "unat y \<noteq> unat q" by (simp add: word_unat_eq_iff)
    show "ending ?t x \<le> unat y"
    proof (cases "x = p")
      case True
      have "ending s p \<le> unat y" using ap xy True by (auto simp: apart_def)
      then have "unat q < unat y" using touch ne by simp
      then show ?thesis using ap xy True m by (auto simp: apart_def)
    next
      case False
      then show ?thesis using ap xy old by (auto simp: apart_def)
    qed
  qed
  ultimately show ?thesis using srt dj br unfolding layout_def by (auto simp: sorted_wrt_append)
qed

lemma layout_upper:
  assumes "layout s (us @ b # vs) L"
  shows "layout (s\<lparr>hsize := (hsize s)(b := if vs \<noteq> [] \<and> ending s b = unat (hd vs) then hsize s b + hsize s (hd vs) else hsize s b)\<rparr>)
    (us @ b # (if vs \<noteq> [] \<and> ending s b = unat (hd vs) then tl vs else vs)) L"
proof (cases "vs \<noteq> [] \<and> ending s b = unat (hd vs)")
  case True
  then have "layout s (us @ b # hd vs # tl vs) L" using assms by simp
  from layout_merge [OF this] True show ?thesis by simp
next
  case False
  have "s\<lparr>hsize := (hsize s)(b := hsize s b)\<rparr> = s" by simp
  with False assms show ?thesis by (simp del: fun_upd_apply fun_upd_triv add: if_not_P)
qed

lemma layout_freed:
  assumes "layout s (us @ b # vs) L"
  shows "layout (s\<lparr>hsize := freed_size s b us vs\<rparr>) (freed_list s b us vs) L"
proof -
  define zs where "zs = (if vs \<noteq> [] \<and> ending s b = unat (hd vs) then tl vs else vs)"
  define t where "t = s\<lparr>hsize := (hsize s)(b := if vs \<noteq> [] \<and> ending s b = unat (hd vs) then hsize s b + hsize s (hd vs) else hsize s b)\<rparr>"
  have lay: "layout t (us @ b # zs) L" unfolding t_def zs_def by (rule layout_upper [OF assms])
  show ?thesis
  proof (cases "us \<noteq> [] \<and> ending s (last us) = unat b")
    case True
    have "last us < b" using assms True by (auto simp: layout_def sorted_wrt_append)
    then have "last us \<noteq> b" by simp
    then have tp: "hsize t (last us) = hsize s (last us)" by (simp add: t_def)
    have us: "us @ ys = butlast us @ last us # ys" for ys using True by simp
    have "layout t (butlast us @ last us # b # zs) L" using lay us by metis
    from layout_merge [OF this] True tp
    have "layout (t\<lparr>hsize := (hsize t)(last us := hsize t (last us) + hsize t b)\<rparr>) (butlast us @ last us # zs) L" by simp
    moreover have "t\<lparr>hsize := (hsize t)(last us := hsize t (last us) + hsize t b)\<rparr> = s\<lparr>hsize := freed_size s b us vs\<rparr>"
      using True by (simp add: t_def freed_size_def Let_def)
    moreover have "freed_list s b us vs = butlast us @ last us # zs" using True us unfolding freed_list_def zs_def [symmetric] by simp
    ultimately show ?thesis by simp
  next
    case False
    then have "t = s\<lparr>hsize := freed_size s b us vs\<rparr>" unfolding t_def freed_size_def Let_def by (simp only: if_False)
    moreover have "freed_list s b us vs = us @ b # zs" using False unfolding freed_list_def zs_def [symmetric] by (simp only: if_False) simp
    ultimately show ?thesis using lay by simp
  qed
qed

lemma layoutD:
  assumes "layout s (us @ b # vs) L"
  shows "\<forall>x \<in> set us. x < b" "\<forall>x \<in> set vs. b < x" "distinct (us @ b # vs)" "\<forall>x \<in> set (us @ b # vs). unat x < ending s x"
    "x \<in> set us \<Longrightarrow> ending s x = unat b \<Longrightarrow> x = last us" "x \<in> set vs \<Longrightarrow> ending s b = unat x \<Longrightarrow> x = hd vs"
proof -
  have srt: "sorted_wrt (<) (us @ b # vs)" and ap: "apart s (set (us @ b # vs))" and ok: "\<forall>x \<in> set (us @ b # vs). block_ok s x"
    using assms unfolding layout_def by (auto simp: apart_def)
  show "\<forall>x \<in> set us. x < b" "\<forall>x \<in> set vs. b < x" using srt by (auto simp: sorted_wrt_append)
  show "distinct (us @ b # vs)" using srt by (metis strict_sorted_iff)
  show "\<forall>x \<in> set (us @ b # vs). unat x < ending s x" using ok by (auto simp: block_ok_def)
  show "x = last us" if x: "x \<in> set us" "ending s x = unat b"
  proof (rule ccontr)
    assume "x \<noteq> last us"
    moreover obtain ws p where u: "us = ws @ [p]" using x(1) by (cases us rule: rev_cases) auto
    ultimately have "x < p" "p < b" using x(1) srt by (auto simp: sorted_wrt_append)
    then have "ending s x \<le> unat p" "unat p < unat b" using ap x(1) u by (auto simp: apart_def word_less_nat_alt)
    then show False using x(2) by simp
  qed
  show "x = hd vs" if x: "x \<in> set vs" "ending s b = unat x"
  proof (rule ccontr)
    assume "x \<noteq> hd vs"
    moreover obtain y ys where v: "vs = y # ys" using x(1) by (cases vs) auto
    ultimately have "b < y" "y < x" using x(1) srt by (auto simp: sorted_wrt_append)
    then have "ending s b \<le> unat y" "unat y < unat x" using ap x(1) v by (auto simp: apart_def word_less_nat_alt)
    then show False using x(2) by simp
  qed
qed

text \<open>A block of the new list ends where some block of the old one ended, and what touched \<open>b\<close> is now part of the same block.\<close>

lemma upper_ending:
  assumes lay: "layout s (us @ b # vs) L"
  defines "n \<equiv> (if vs \<noteq> [] \<and> ending s b = unat (hd vs) then hsize s b + hsize s (hd vs) else hsize s b)"
  shows "unat b + 8 * unat n = ending s (if vs \<noteq> [] \<and> ending s b = unat (hd vs) then hd vs else b)"
proof (cases "vs \<noteq> [] \<and> ending s b = unat (hd vs)")
  case True
  then show ?thesis using merged_ending [of s us b "hd vs" "tl vs" L] lay by (simp add: n_def)
qed (auto simp: n_def)

lemma freed_size_lower:
  assumes lay: "layout s (us @ b # vs) L" and low: "us \<noteq> [] \<and> ending s (last us) = unat b"
  shows "ending (s\<lparr>hsize := freed_size s b us vs\<rparr>) (last us) =
    ending s (if vs \<noteq> [] \<and> ending s b = unat (hd vs) then hd vs else b)"
proof -
  define n where "n = (if vs \<noteq> [] \<and> ending s b = unat (hd vs) then hsize s b + hsize s (hd vs) else hsize s b)"
  define zs where "zs = (if vs \<noteq> [] \<and> ending s b = unat (hd vs) then tl vs else vs)"
  define t where "t = s\<lparr>hsize := (hsize s)(b := n)\<rparr>"
  have "last us < b" using layoutD(1) [OF lay] low by simp
  then have ne: "hsize t (last us) = hsize s (last us)" "hsize t b = n" by (auto simp: t_def)
  have us: "us @ ys = butlast us @ last us # ys" for ys using low by simp
  have "layout t (us @ b # zs) L" unfolding t_def n_def zs_def by (rule layout_upper [OF lay])
  from merged_ending [OF this [unfolded us]] low ne
  have "unat (last us) + 8 * unat (hsize s (last us) + n) = unat b + 8 * unat n" by simp
  also have "\<dots> = ending s (if vs \<noteq> [] \<and> ending s b = unat (hd vs) then hd vs else b)"
    unfolding n_def by (rule upper_ending [OF lay])
  also have "hsize s (last us) + n = freed_size s b us vs (last us)"
    unfolding freed_size_def n_def [symmetric] Let_def using low ne(1) by (simp add: t_def)
  finally show ?thesis by simp
qed

lemma freed_size_other: "x \<noteq> b \<Longrightarrow> us \<noteq> [] \<and> ending s (last us) = unat b \<longrightarrow> x \<noteq> last us \<Longrightarrow> freed_size s b us vs x = hsize s x"
  by (auto simp: freed_size_def Let_def)

lemma freed_size_single: "\<not> (us \<noteq> [] \<and> ending s (last us) = unat b) \<Longrightarrow>
    freed_size s b us vs b = (if vs \<noteq> [] \<and> ending s b = unat (hd vs) then hsize s b + hsize s (hd vs) else hsize s b)"
  unfolding freed_size_def Let_def by (simp only: if_False fun_upd_same)

lemma freed_ending:
  assumes lay: "layout s (us @ b # vs) L" and x: "x \<in> set (freed_list s b us vs)"
  shows "\<exists>y \<in> set (us @ b # vs). ending (s\<lparr>hsize := freed_size s b us vs\<rparr>) x = ending s y \<and>
    (y = b \<longrightarrow> \<not> (vs \<noteq> [] \<and> ending s b = unat (hd vs))) \<and> (us \<noteq> [] \<and> y = last us \<longrightarrow> ending s (last us) \<noteq> unat b)"
    (is "\<exists>y \<in> _. ending ?t x = _ \<and> (_ \<longrightarrow> \<not> ?up) \<and> _")
proof -
  let ?low = "us \<noteq> [] \<and> ending s (last us) = unat b"
  have mem: "x \<in> set (us @ b # vs)" "x = b \<longrightarrow> \<not> ?low"
    using x layoutD(3) [OF lay] by (auto simp: freed_list_def split: if_splits dest: list.set_sel(2))
  show ?thesis
  proof (cases "x = b \<or> ?low \<and> x = last us")
    case True
    let ?y = "if ?up then hd vs else b"
    have e: "ending ?t x = ending s ?y"
    proof (cases "x = b")
      case True
      then show ?thesis using mem(2) upper_ending [OF lay] freed_size_single by simp
    next
      case False
      then show ?thesis using True freed_size_lower [OF lay] by simp
    qed
    have "?y \<in> set (b # vs)" "?y = b \<longrightarrow> \<not> ?up" using layoutD(3) [OF lay] by (cases vs; auto)+
    with e obtain y where "ending ?t x = ending s y" "y \<in> set (b # vs)" "y = b \<longrightarrow> \<not> ?up" by (rule that)
    moreover have "us \<noteq> [] \<longrightarrow> last us \<notin> set (b # vs)" using layoutD(3) [OF lay] by (metis disjoint_iff distinct_append last_in_set)
    ultimately show ?thesis by (intro bexI [of _ y] conjI impI) (blast, blast, blast, auto)
  next
    case False
    then have "freed_size s b us vs x = hsize s x" by (intro freed_size_other) blast+
    then have "ending ?t x = ending s x" by simp
    then show ?thesis using mem(1) False by blast
  qed
qed

lemma coalesced_freed:
  assumes lay: "layout s (us @ b # vs) L" and co: "coalesced s (set (us @ vs))"
  shows "coalesced (s\<lparr>hsize := freed_size s b us vs\<rparr>) (set (freed_list s b us vs))" (is "coalesced ?t _")
  unfolding coalesced_def
proof (intro ballI notI)
  fix x y assume x: "x \<in> set (freed_list s b us vs)" and y: "y \<in> set (freed_list s b us vs)" and eq: "ending ?t x = unat y"
  note d = layoutD [OF lay]
  obtain z where z: "z \<in> set (us @ b # vs)" "ending s z = unat y" "z = b \<longrightarrow> \<not> (vs \<noteq> [] \<and> ending s b = unat (hd vs))"
    "us \<noteq> [] \<and> z = last us \<longrightarrow> ending s (last us) \<noteq> unat b"
    using freed_ending [OF lay x] unfolding eq by metis
  have "unat z < ending s z" using d(4) z(1) by blast
  then have lt: "z < y" using z(2) by (simp add: word_less_nat_alt)
  consider "y \<in> set us" | "y = b" | "y \<in> set vs" using y by (auto simp: freed_list_def split: if_splits dest: list.set_sel(2))
  then show False
  proof cases
    case 1
    then have "z \<in> set us" using lt z(1) d(1,2) by (auto dest: order.strict_trans order.asym)
    then show False using co z(2) 1 by (auto simp: coalesced_def)
  next
    case 2
    then have "z \<in> set us" using lt z(1) d(2) by (auto dest: order.asym)
    then show False using d(5) [of z] z(2,4) 2 by auto
  next
    case 3
    then show False using z d(6) [of y] co by (auto simp: coalesced_def)
  qed
qed

text \<open>Freeing a block in use gives its memory back: the list stays in order and coalesced, the other blocks stay as they were.\<close>

lemma join_fields [simp]:
  "base (joinLower b p s) = base s" "brk (joinLower b p s) = brk s" "base (joinUpper b p s) = base s" "brk (joinUpper b p s) = brk s"
  by (simp_all add: joinLower_def joinUpper_def Let_def)

lemma heap_inv_layout: "heap_inv s xs L \<longleftrightarrow>
    layout s xs L \<and> ring (hptr s) (base s # xs) \<and> freep s \<in> set (base s # xs) \<and> hsize s (base s) = 0 \<and>
    0 < unat (base s) \<and> unat (base s) + 8 \<le> unat (brk s) \<and> coalesced s (set xs)"
  unfolding heap_inv_def layout_def by blast

lemma layout_cong: "hsize t = hsize s \<Longrightarrow> base t = base s \<Longrightarrow> brk t = brk s \<Longrightarrow> layout t xs L \<longleftrightarrow> layout s xs L"
  "hsize t = hsize s \<Longrightarrow> coalesced t B \<longleftrightarrow> coalesced s B"
  by (simp_all add: layout_def apart_def block_ok_def coalesced_def)

definition largest :: "Heap \<Rightarrow> u32 list \<Rightarrow> nat \<Rightarrow> bool" where
  "largest s xs n \<longleftrightarrow> (\<exists>x \<in> set xs. n \<le> unat (hsize s x))"

lemma largest_freed:
  assumes lay: "layout s (us @ b # vs) L"
  shows "largest (s\<lparr>hsize := freed_size s b us vs\<rparr>) (freed_list s b us vs) (unat (hsize s b))"
proof -
  let ?up = "vs \<noteq> [] \<and> ending s b = unat (hd vs)" and ?low = "us \<noteq> [] \<and> ending s (last us) = unat b"
  let ?x = "if ?low then last us else b"
  have "ending (s\<lparr>hsize := freed_size s b us vs\<rparr>) ?x = ending s (if ?up then hd vs else b)"
    proof (cases ?low)
    case False
    have "hsize (s\<lparr>hsize := freed_size s b us vs\<rparr>) b = freed_size s b us vs b" by simp
    then show ?thesis using upper_ending [OF lay] False by (simp only: freed_size_single [OF False] if_False)
  next
    case True
    then show ?thesis using freed_size_lower [OF lay] by (simp only: if_True simp_thms)
  qed
  moreover have "ending s b \<le> ending s (if ?up then hd vs else b)" by simp
  moreover have "unat ?x \<le> unat b" by auto
  ultimately have "unat (hsize s b) \<le> unat (freed_size s b us vs ?x)" by simp
  moreover have "?x \<in> set (freed_list s b us vs)" by (auto simp: freed_list_def)
  ultimately show ?thesis unfolding largest_def by auto
qed

lemma free_step:
  assumes inv: "heap_inv s xs (insert b L)" and b: "b \<notin> L"
  obtains t ys where "free (b + 8) s = Some t" "heap_inv t ys L" "\<forall>q \<in> L. hsize t q = hsize s q" "base t = base s" "brk t = brk s"
    "largest t ys (unat (hsize s b))"
proof -
  obtain us vs where xs: "xs = us @ vs" and lt: "\<forall>x \<in> set us. x < b" "\<forall>x \<in> set vs. b < x"
    using sorted_split [of xs b] heap_invD(2,6) [OF inv] by auto
  note inv' = inv [unfolded xs] and d = heap_invD [OF inv [unfolded xs]] and f = between_facts [OF inv [unfolded xs]]
  let ?p = "last (base s # us)"
  have fp: "findPlace (hptr s) b (freep s) = Some ?p"
    using placed_predecessor [OF d(1,2) f(1) lt] by (intro findPlace_found [OF d(1,3)]) auto
  define t where "t = (joinLower b ?p (joinUpper b ?p s))\<lparr>freep := ?p\<rparr>"
  have free: "free (b + 8) s = Some t" using fp by (simp add: free_def Let_def t_def)
  have hs: "hsize t = freed_size s b us vs" unfolding t_def using joined_hsize [OF inv' refl] by simp
  have lay: "layout s (us @ b # vs) L" by (rule layout_insert [OF inv' b lt])
  have mem: "q \<noteq> b \<and> (us \<noteq> [] \<longrightarrow> q \<noteq> last us)" if "q = base s \<or> q \<in> L" for q
  proof -
    have "us \<noteq> [] \<Longrightarrow> last us \<in> set (us @ vs)" by simp
    then show ?thesis using that f(5,6) d(6) b by (metis disjoint_iff distinct.simps(2) insertI2)
  qed
  have "heap_inv t (freed_list s b us vs) L"
    unfolding heap_inv_layout
  proof (intro conjI)
    show "layout t (freed_list s b us vs) L" "coalesced t (set (freed_list s b us vs))"
      using layout_freed [OF lay] coalesced_freed [OF lay] d(9) layout_cong [of t "s\<lparr>hsize := freed_size s b us vs\<rparr>"] hs by (simp_all add: t_def)
    show "ring (hptr t) (base t # freed_list s b us vs)" using joined_ring [OF inv' refl] by (simp add: t_def)
    have "?p \<in> set (base s # us)" by (rule last_in_set) simp
    then show "freep t \<in> set (base t # freed_list s b us vs)" by (auto simp: t_def freed_list_def)
    show "hsize t (base t) = 0" using d(4) mem freed_size_other [of "base s" b us s vs] hs by (simp add: t_def)
    show "0 < unat (base t)" "unat (base t) + 8 \<le> unat (brk t)" using inv by (simp_all add: t_def heap_inv_def)
  qed
  moreover have "\<forall>q \<in> L. hsize t q = hsize s q" using mem hs freed_size_other by auto
  moreover have "largest t (freed_list s b us vs) (unat (hsize s b))" using largest_freed [OF lay] hs by (simp add: largest_def)
  ultimately show thesis using that [OF free] by (simp add: t_def)
qed

section \<open>Allocating\<close>

lemma ring_inj: "ring f xs \<Longrightarrow> distinct xs \<Longrightarrow> x \<in> set xs \<Longrightarrow> y \<in> set xs \<Longrightarrow> f x = f y \<Longrightarrow> x = y"
  unfolding ring_def by (metis distinct_map distinct1_rotate inj_onD)

lemma predecessor:
  assumes inv: "heap_inv s (us @ p # vs) L" and prev: "prev \<in> set (base s # us @ p # vs)" "hptr s prev = p"
  shows "prev = last (base s # us)"
proof -
  obtain ws where bu: "base s # us = ws @ [last (base s # us)]" by (metis append_butlast_last_id list.distinct(1))
  then have "base s # us @ p # vs = ws @ last (base s # us) # p # vs" by (metis append_Cons append_assoc append_Nil)
  from ring_successor [OF heap_invD(1) [OF inv] this] have "hptr s (last (base s # us)) = p" by simp
  moreover have "last (base s # us) \<in> set (base s # us @ p # vs)" using bu by (metis UnCI append_Cons in_set_conv_decomp set_append)
  moreover have "distinct (base s # us @ p # vs)" using heap_invD(2) [OF inv] by (metis strict_sorted_iff)
  ultimately show ?thesis using ring_inj [OF heap_invD(1) [OF inv]] prev by metis
qed

text \<open>A block taken whole leaves the list.\<close>

lemma take_whole:
  assumes inv: "heap_inv s (us @ p # vs) L" and prev: "prev = last (base s # us)"
  shows "heap_inv (s\<lparr>hptr := (hptr s)(prev := hptr s p), freep := prev\<rparr>) (us @ vs) (insert p L)" (is "heap_inv ?t _ _")
proof -
  note d = heap_invD [OF inv]
  obtain ws where bu: "base s # us = ws @ [prev]" unfolding prev by (metis append_butlast_last_id list.distinct(1))
  have at: "ring f (base s # us @ zs) \<longleftrightarrow> ring f (prev # zs @ ws)" for f zs
    using bu ring_at [of f ws prev zs] by (metis append_Cons append_assoc append_Nil)
  have dist: "distinct (base s # us @ p # vs)" using d(2) by (metis strict_sorted_iff)
  then have "distinct (ws @ prev # p # vs)" using bu by (metis append_Cons append_assoc append_Nil)
  then have "ring (hptr ?t) (base s # us @ vs)" using d(1) ring_remove [of "hptr s" prev p "vs @ ws"] unfolding at by (simp add: Int_commute)
  moreover have "prev \<in> set (base s # us)" unfolding prev by (rule last_in_set) simp
  moreover have "set (us @ vs) \<union> insert p L = set (us @ p # vs) \<union> L" by auto
  moreover have "sorted_wrt (<) (base s # us @ vs)" using d(2) by (auto simp: sorted_wrt_append)
  moreover have "set (us @ vs) \<inter> insert p L = {}" using dist d(6) by auto
  ultimately show ?thesis using inv by (auto simp: heap_inv_def block_ok_def apart_def coalesced_def)
qed

text \<open>A larger block is cut in two and its upper part is handed out.\<close>

lemma take_part:
  assumes inv: "heap_inv s xs L" and p: "p \<in> set xs" and n: "0 < unat n" "unat n < unat (hsize s p)" and prev: "prev \<in> set (base s # xs)"
  defines "q \<equiv> p + 8 * (hsize s p - n)"
  shows "heap_inv (s\<lparr>hsize := (hsize s)(p := hsize s p - n, q := n), freep := prev\<rparr>) xs (insert q L)" (is "heap_inv ?t _ _")
    "q \<notin> set xs \<union> L"
proof -
  note d = heap_invD [OF inv]
  have rest: "unat (hsize s p - n) = unat (hsize s p) - unat n" using n(2) by (simp add: unat_sub word_le_nat_alt)
  have ok: "block_ok s p" using d(7) p by blast
  then have "ending s p < 2 ^ 31" using d(5) by (simp add: block_ok_def)
  then have q: "unat q = unat p + 8 * (unat (hsize s p) - unat n)"
    unfolding q_def using rest n ending_word [of p "hsize s p - n"] by simp
  have inside: "unat p < unat q" "unat q < ending s p" "unat q + 8 * unat n = ending s p" using q n by auto
  show fresh: "q \<notin> set xs \<union> L"
    using inside d(8) p by (fastforce simp: apart_def)
  have ne: "p \<noteq> q" using fresh p by auto
  have e: "ending ?t x = (if x = p then unat q else if x = q then ending s p else ending s x)" for x
    using ne inside rest q by simp
  have "block_ok ?t p" "block_ok ?t q" using ok n rest inside ne e [of p] e [of q] by (simp_all add: block_ok_def)
  moreover have "block_ok ?t x" if "x \<in> set xs \<union> L" "x \<noteq> p" for x
    using that d(7) fresh e [of x] by (auto simp: block_ok_def)
  ultimately have "\<forall>x \<in> set xs \<union> insert q L. block_ok ?t x" by auto
  moreover have "apart ?t (set xs \<union> insert q L)"
    unfolding apart_def
  proof (intro ballI impI)
    fix x y assume xy: "x \<in> set xs \<union> insert q L" "y \<in> set xs \<union> insert q L" "unat x < unat y"
    have far: "unat z < unat q \<and> z \<noteq> p \<longrightarrow> ending s z \<le> unat p" "unat p < unat z \<longrightarrow> ending s p \<le> unat z" if "z \<in> set xs \<union> L" for z
    proof -
      show up: "unat p < unat z \<longrightarrow> ending s p \<le> unat z" using d(8) p that by (auto simp: apart_def)
      have "unat z < unat p \<longrightarrow> ending s z \<le> unat p" using d(8) p that by (auto simp: apart_def)
      then show "unat z < unat q \<and> z \<noteq> p \<longrightarrow> ending s z \<le> unat p" using up inside(2) by (auto simp: word_unat_eq_iff nat_neq_iff)
    qed
    show "ending ?t x \<le> unat y"
      unfolding e using xy far [of x] far [of y] inside d(8) p by (auto simp: apart_def)
  qed
  moreover have "coalesced ?t (set xs)"
  proof -
    have "unat q \<noteq> unat y" if "y \<in> set xs" for y using fresh that by (metis UnI1 word_unat_eq_iff)
    then show ?thesis unfolding coalesced_def e using d(9) fresh by (auto simp: coalesced_def)
  qed
  ultimately show "heap_inv ?t xs (insert q L)"
    using inv fresh prev p unfolding heap_inv_def by (auto simp: block_ok_def)
qed

text \<open>\<open>allocated s L n r t\<close>: in \<open>t\<close> the pointer \<open>r\<close> is a new block of \<open>n\<close> units and the blocks \<open>L\<close> are as in \<open>s\<close>.\<close>

definition allocated :: "Heap \<Rightarrow> u32 set \<Rightarrow> u32 \<Rightarrow> u32 \<times> Heap \<Rightarrow> bool" where
  "allocated s L n rt \<longleftrightarrow>
     (let (r, t) = rt; b = r - 8 in
      b \<notin> L \<and> (\<exists>ys. heap_inv t ys (insert b L)) \<and> hsize t b = n \<and> (\<forall>q \<in> L. hsize t q = hsize s q) \<and> base t = base s)"

lemma ring_closed: "ring f xs \<Longrightarrow> x \<in> set xs \<Longrightarrow> f x \<in> set xs"
  unfolding ring_def by (metis image_eqI image_set set_rotate1)

lemma carve_step:
  assumes inv: "heap_inv s xs L" and prev: "prev \<in> set (base s # xs)" and n: "0 < n" "n \<le> hsize s (hptr s prev)"
  shows "allocated s L n (carve n prev (hptr s prev) s)"
proof -
  let ?p = "hptr s prev"
  note d = heap_invD [OF inv]
  have "?p \<noteq> base s" using n d(4) by auto
  then have p: "?p \<in> set xs" using ring_closed [OF d(1) prev] by simp
  show ?thesis
  proof (cases "hsize s ?p = n")
    case True
    obtain us vs where xs: "xs = us @ ?p # vs" using p by (meson split_list)
    have "prev = last (base s # us)" using predecessor [of s us ?p vs L prev] inv prev xs by metis
    then have "heap_inv (s\<lparr>hptr := (hptr s)(prev := hptr s ?p), freep := prev\<rparr>) (us @ vs) (insert ?p L)"
      using take_whole [of s us ?p vs L prev] inv xs by metis
    moreover have "?p \<notin> L" using d(6) p by auto
    ultimately show ?thesis using True by (auto simp: allocated_def carve_def Let_def)
  next
    case False
    then have lt: "0 < unat n" "unat n < unat (hsize s ?p)" using n by (auto simp: word_less_nat_alt word_le_nat_alt word_unat_eq_iff)
    note tp = take_part [OF inv p lt prev]
    have "q \<noteq> ?p + 8 * (hsize s ?p - n) \<and> q \<noteq> ?p" if "q \<in> L" for q using that tp(2) d(6) p by auto
    then show ?thesis using False tp by (auto simp: allocated_def carve_def Let_def)
  qed
qed

text \<open>The search goes on past blocks that are too small.\<close>

lemma scan:
  assumes "ring (hptr s) (prev # us @ vs)" "\<forall>x \<in> set us. \<not> n \<le> hsize s x \<and> x \<noteq> freep s"
  shows "mallocLoop enough n prev (hptr s prev) s = mallocLoop enough n (last (prev # us)) (hptr s (last (prev # us))) s"
  using assms
proof (induction us arbitrary: prev vs)
  case (Cons u us)
  have "ring (hptr s) (u # us @ vs @ [prev])" using Cons.prems(1) ring_at [of "hptr s" "[prev]" u "us @ vs"] by simp
  then have "mallocLoop enough n u (hptr s u) s = mallocLoop enough n (last (u # us)) (hptr s (last (u # us))) s"
    using Cons.prems(2) by (intro Cons.IH) simp_all
  moreover have "hptr s prev = u" using ring_next [OF Cons.prems(1)] by simp
  ultimately show ?case using Cons.prems(2) by (subst mallocLoop.simps) simp
qed simp

lemma freep_first:
  assumes inv: "heap_inv s xs L"
  obtains ws where "ring (hptr s) (freep s # ws)" "set (freep s # ws) = set (base s # xs)" "distinct (freep s # ws)"
proof -
  obtain us vs where eq: "base s # xs = us @ freep s # vs" using heap_invD(3) [OF inv] by (meson split_list)
  have "distinct (us @ freep s # vs)" using heap_invD(2) [OF inv] unfolding eq by (metis strict_sorted_iff)
  then show thesis using that [of "vs @ us"] heap_invD(1) [OF inv] unfolding eq ring_at by auto
qed

lemma first_fit:
  assumes inv: "heap_inv s xs L" and n: "0 < n" and big: "largest s xs (unat n)"
  shows "\<exists>rt. mallocLoop enough n (freep s) (hptr s (freep s)) s = Some rt \<and> allocated s L n rt"
proof -
  obtain ws where ws: "ring (hptr s) (freep s # ws)" "set (freep s # ws) = set (base s # xs)" "distinct (freep s # ws)"
    by (rule freep_first [OF inv])
  obtain x where "x \<in> set (ws @ [freep s])" "n \<le> hsize s x"
    using big ws(2) by (auto simp: largest_def word_le_nat_alt)
  then obtain us q vs where uv: "ws @ [freep s] = us @ q # vs" "n \<le> hsize s q" "\<forall>x \<in> set us. \<not> n \<le> hsize s x"
    using split_list_first_prop [of "ws @ [freep s]" "\<lambda>x. n \<le> hsize s x"] by blast
  have pre: "ws = us @ butlast (q # vs)" "butlast (q # vs) @ [freep s] = q # vs"
    using uv(1) by (metis butlast_append butlast_snoc list.distinct(1), metis append_butlast_last_id last_appendR last_snoc list.distinct(1))
  let ?l = "last (freep s # us)"
  obtain ys where ys: "freep s # us = ys @ [?l]" by (metis append_butlast_last_id list.distinct(1))
  then have eq: "freep s # ws = ys @ ?l # butlast (q # vs)" using pre(1) by (metis append_Cons append_assoc append_Nil)
  have q: "hptr s ?l = q" using ring_successor [OF ws(1) eq] pre(2) by simp
  have l: "?l \<in> set (base s # xs)" unfolding ws(2) [symmetric] eq by simp
  have small: "\<forall>x \<in> set us. \<not> n \<le> hsize s x \<and> x \<noteq> freep s" using ws(3) uv(3) unfolding pre(1) by auto
  have "mallocLoop enough n (freep s) (hptr s (freep s)) s = mallocLoop enough n ?l q s"
    using scan [OF ws(1) [unfolded pre(1)] small, of enough] unfolding q .
  also have "\<dots> = Some (carve n ?l q s)" using uv(2) by (subst mallocLoop.simps) simp
  finally show ?thesis using carve_step [OF inv l n] uv(2) unfolding q by simp
qed

text \<open>When no block is large enough the search comes back to \<open>freep\<close> and asks for memory.\<close>

lemma no_fit:
  assumes inv: "heap_inv s xs L" and n: "0 < n" and small: "\<not> largest s xs (unat n)"
  shows "mallocLoop enough n (freep s) (hptr s (freep s)) s =
    Option.bind (morecore enough n s) (\<lambda>(p, s). if p = 0 then Some (0, s) else mallocLoop enough n p (hptr s p) s)"
proof -
  obtain ws where ws: "ring (hptr s) (freep s # ws)" "set (freep s # ws) = set (base s # xs)" "distinct (freep s # ws)"
    by (rule freep_first [OF inv])
  have "\<not> n \<le> hsize s x" if "x \<in> set (freep s # ws)" for x
    using that small n heap_invD(4) [OF inv] unfolding ws(2) by (auto simp: largest_def word_le_nat_alt word_less_nat_alt)
  then have sm: "\<forall>x \<in> set ws. \<not> n \<le> hsize s x \<and> x \<noteq> freep s" "\<not> n \<le> hsize s (freep s)" using ws(3) by auto
  let ?l = "last (freep s # ws)"
  obtain ys where ys: "freep s # ws = ys @ [?l]" by (metis append_butlast_last_id list.distinct(1))
  have "hptr s ?l = freep s" using ring_successor [OF ws(1) ys] by simp
  then have "mallocLoop enough n (freep s) (hptr s (freep s)) s = mallocLoop enough n ?l (freep s) s"
    using scan [of s "freep s" ws "[]" n enough] ws(1) sm(1) by simp
  then show ?thesis using sm(2) by (subst (asm) (2) mallocLoop.simps) simp
qed

lemma grown_heap:
  assumes inv: "heap_inv s xs L" and nu: "0 < unat nu" and fits: "unat (brk s) + 8 * unat nu < 2 ^ 31"
  shows "heap_inv (s\<lparr>brk := brk s + nu * 8, hsize := (hsize s)(brk s := nu)\<rparr>) xs (insert (brk s) L)" (is "heap_inv ?t _ _")
    "brk s \<notin> L"
proof -
  note d = heap_invD [OF inv]
  have b: "unat (brk ?t) = unat (brk s) + 8 * unat nu" using fits ending_word [of "brk s" nu] by (simp add: mult.commute)
  have lt: "unat x < unat (brk s)" "ending s x \<le> unat (brk s)" if "x \<in> set xs \<union> L" for x
    using bspec [OF d(7) that] by (simp_all add: block_ok_def)
  then have ne: "x \<noteq> brk s" if "x \<in> set xs \<union> L" for x using that by blast
  then show "brk s \<notin> L" by blast
  have "unat (base s) < unat (brk s)" using inv by (auto simp: heap_inv_def)
  then have nb: "base s \<noteq> brk s" by auto
  have "block_ok ?t x" if "x \<in> set xs \<union> L" for x
    using bspec [OF d(7) that] b ne [OF that] by (simp add: block_ok_def)
  moreover have "block_ok ?t (brk s)" using nu b inv by (simp add: block_ok_def heap_inv_def)
  moreover have "apart ?t (set xs \<union> insert (brk s) L)" using d(8) lt ne by (auto simp: apart_def dest: order.asym)
  moreover have "coalesced ?t (set xs)" using d(9) ne by (auto simp: coalesced_def)
  ultimately show "heap_inv ?t xs (insert (brk s) L)"
    using inv b fits ne nb unfolding heap_inv_def by auto
qed

lemma morecore_step:
  assumes inv: "heap_inv s xs L" and n: "0 < n" "8 * unat n < 2 ^ 31"
  shows "morecore enough n s = Some (0, s) \<or>
    (\<exists>t ys. morecore enough n s = Some (freep t, t) \<and> freep t \<noteq> 0 \<and> heap_inv t ys L \<and> largest t ys (unat n) \<and>
       (\<forall>q \<in> L. hsize t q = hsize s q) \<and> base t = base s)"
proof -
  define nu where "nu = (if n < 4096 then 4096 else n)"
  have nu: "0 < unat nu" "8 * unat nu < 2 ^ 31" "unat n \<le> unat nu" using n by (auto simp: nu_def word_less_nat_alt)
  have w: "unat (nu * 8) = 8 * unat nu" using nu(2) by (simp add: unat_word_ariths mult.commute)
  then have pos: "0 < sint (nu * 8)" using nu sint_positive [of "nu * 8"] by simp
  have sum: "unat (brk s + nu * 8) = unat (brk s) + 8 * unat nu" using heap_invD(5) [OF inv] nu(2) ending_word [of "brk s" nu] by (simp add: mult.commute)
  have brk: "brk s \<noteq> - 1"
  proof
    assume "brk s = - 1"
    then have "unat (brk s) = 2 ^ 32 - 1" by (simp add: unsigned_minus_1_eq_mask mask_eq_exp_minus_1)
    then show False using heap_invD(5) [OF inv] by simp
  qed
  show ?thesis
  proof (cases "brk s + nu * 8 < KERNBASE \<and> enough (brk s) (brk s + nu * 8)")
    case False
    then have "sbrk enough (nu * 8) s = (- 1, s)" using pos by (auto simp: sbrk_def Let_def)
    then show ?thesis by (simp add: morecore_def nu_def [symmetric] Let_def)
  next
    case True
    then have fits: "unat (brk s) + 8 * unat nu < 2 ^ 31" using sum by (simp add: word_less_nat_alt KERNBASE_def)
    let ?s = "s\<lparr>brk := brk s + nu * 8, hsize := (hsize s)(brk s := nu)\<rparr>"
    obtain t ys where t: "free (brk s + 8) ?s = Some t" "heap_inv t ys L" "\<forall>q \<in> L. hsize t q = hsize ?s q" "base t = base ?s"
      "largest t ys (unat (hsize ?s (brk s)))"
      using free_step [OF grown_heap(1) [OF inv nu(1) fits] grown_heap(2) [OF inv nu(1) fits]] by metis
    have "morecore enough n s = Some (freep t, t)"
      using True pos brk t(1) by (simp add: morecore_def nu_def [symmetric] Let_def sbrk_def)
    moreover have "freep t \<noteq> 0" using t(2) by (auto simp: heap_inv_def block_ok_def)
    moreover have "largest t ys (unat n)" using t(5) nu(3) by (auto simp: largest_def intro: order.trans)
    moreover have "\<forall>q \<in> L. hsize t q = hsize s q" using t(3) grown_heap(2) [OF inv nu(1) fits] by auto
    ultimately show ?thesis using t(2,4) by auto
  qed
qed

text \<open>One call of \<open>malloc\<close> on a heap in order.\<close>

lemma loop_step:
  assumes inv: "heap_inv s xs L" and n: "0 < n" "8 * unat n < 2 ^ 31"
  shows "mallocLoop enough n (freep s) (hptr s (freep s)) s = Some (0, s) \<or>
    (\<exists>rt. mallocLoop enough n (freep s) (hptr s (freep s)) s = Some rt \<and> allocated s L n rt)"
proof (cases "largest s xs (unat n)")
  case True
  then show ?thesis using first_fit [OF inv n(1)] by blast
next
  case False
  note loop = no_fit [OF inv n(1) False, of enough]
  consider "morecore enough n s = Some (0, s)"
    | t ys where "morecore enough n s = Some (freep t, t)" "freep t \<noteq> 0" "heap_inv t ys L" "largest t ys (unat n)"
      "\<forall>q \<in> L. hsize t q = hsize s q" "base t = base s"
    using morecore_step [OF inv n, of enough] by blast
  then show ?thesis
  proof cases
    case 1
    then show ?thesis using loop by simp
  next
    case 2
    obtain rt where "mallocLoop enough n (freep t) (hptr t (freep t)) t = Some rt" "allocated t L n rt"
      using first_fit [OF 2(3) n(1) 2(4)] by blast
    then show ?thesis using loop 2 by (auto simp: allocated_def Let_def)
  qed
qed

text \<open>A heap before its first use has no list yet.\<close>

definition heap_ok :: "Heap \<Rightarrow> u32 set \<Rightarrow> bool" where
  "heap_ok s L \<longleftrightarrow>
     freep s = 0 \<and> L = {} \<and> 0 < unat (base s) \<and> unat (base s) + 8 \<le> unat (brk s) \<and> unat (brk s) < 2 ^ 31 \<or>
     (\<exists>xs. heap_inv s xs L)"

lemma initialised_inv:
  assumes "heap_ok s L"
  shows "\<exists>xs. heap_inv (initialised s) xs L" "base (initialised s) = base s" "\<forall>q \<in> L. hsize (initialised s) q = hsize s q"
proof -
  have nz: "freep s \<noteq> 0" if "heap_inv s xs L" for xs using that by (auto simp: heap_inv_def block_ok_def)
  consider (fresh) "freep s = 0" "L = {}" "0 < unat (base s)" "unat (base s) + 8 \<le> unat (brk s)" "unat (brk s) < 2 ^ 31"
    | (used) "freep s \<noteq> 0" "\<exists>xs. heap_inv s xs L"
    using assms nz unfolding heap_ok_def by metis
  then have "(\<exists>xs. heap_inv (initialised s) xs L) \<and> base (initialised s) = base s \<and> (\<forall>q \<in> L. hsize (initialised s) q = hsize s q)"
  proof cases
    case fresh
    then have "heap_inv (initialised s) [] {}"
      by (simp add: heap_inv_def initialised_def ring_def apart_def coalesced_def)
    then show ?thesis using fresh by (auto simp: initialised_def)
  qed (simp add: initialised_def)
  then show "\<exists>xs. heap_inv (initialised s) xs L" "base (initialised s) = base s" "\<forall>q \<in> L. hsize (initialised s) q = hsize s q"
    by blast+
qed

lemma nunits_bound:
  fixes nbytes :: u32
  assumes "unat nbytes \<le> 0x7FFFFFE8"
  defines "n \<equiv> (nbytes + 8 - 1) div 8 + 1"
  shows "0 < n" "8 * unat n < 2 ^ 31" "unat nbytes + 8 \<le> 8 * unat n"
proof -
  have "unat (nbytes + 8 - 1) = unat nbytes + 7" using assms(1) by (simp add: unat_word_ariths)
  then have "unat n = (unat nbytes + 7) div 8 + 1" using assms(1) by (simp add: n_def unat_word_ariths)
  then show "0 < n" "8 * unat n < 2 ^ 31" "unat nbytes + 8 \<le> 8 * unat n" using assms(1) by (auto simp: word_less_nat_alt)
qed

lemma malloc_step:
  assumes ok: "heap_ok s L" and size: "unat nbytes \<le> 0x7FFFFFE8"
  obtains t where "malloc enough nbytes s = Some (0, t)" "heap_ok t L" "\<forall>q \<in> L. hsize t q = hsize s q"
    | r t where "malloc enough nbytes s = Some (r, t)" "r \<noteq> 0" "r - 8 \<notin> L" "heap_ok t (insert (r - 8) L)"
      "unat nbytes + 8 \<le> 8 * unat (hsize t (r - 8))" "\<forall>q \<in> L. hsize t q = hsize s q"
proof -
  let ?n = "(nbytes + 8 - 1) div 8 + 1" and ?s = "initialised s"
  note n = nunits_bound [OF size]
  obtain xs where inv: "heap_inv ?s xs L" using initialised_inv(1) [OF ok] by blast
  have m: "malloc enough nbytes s = mallocLoop enough ?n (freep ?s) (hptr ?s (freep ?s)) ?s" by (simp add: malloc_def Let_def)
  from loop_step [OF inv n(1,2), of enough] show thesis
  proof (elim disjE exE conjE)
    assume "mallocLoop enough ?n (freep ?s) (hptr ?s (freep ?s)) ?s = Some (0, ?s)"
    moreover have "heap_ok ?s L" using inv by (auto simp: heap_ok_def)
    ultimately show thesis using that(1) [of ?s] m initialised_inv(3) [OF ok] by simp
  next
    fix rt assume rt: "mallocLoop enough ?n (freep ?s) (hptr ?s (freep ?s)) ?s = Some rt" "allocated ?s L ?n rt"
    obtain r t where eq: "rt = (r, t)" by (cases rt)
    have "unat (r - 8) < 2 ^ 31" using rt(2) unfolding eq allocated_def Let_def by (auto simp: heap_inv_def block_ok_def)
    then have "r \<noteq> 0" by (auto simp: unat_word_ariths)
    then show thesis
      using rt(2) m rt(1) n(3) initialised_inv(3) [OF ok] unfolding eq
      by (intro that(2) [of r t]) (auto simp: allocated_def Let_def heap_ok_def)
  qed
qed

section \<open>The allocator as an interface\<close>

text \<open>
  What a program may rely on: \<open>ok s P\<close> says that \<open>P\<close> are the pointers in use, \<open>room s r\<close> is the space behind one of
  them.  A run of calls keeps the list of the pointers it has and what it asked for; it frees only what it has.
  The allocation may behave differently at every call: its first argument is the number of calls still to come.
\<close>

datatype heap_call = Malloc u32 | Free nat

fun heap_step :: "(u32 \<Rightarrow> 's \<Rightarrow> (u32 \<times> 's) option) \<Rightarrow> (u32 \<Rightarrow> 's \<Rightarrow> 's option) \<Rightarrow> heap_call \<Rightarrow> 's \<times> (u32 \<times> u32) list \<Rightarrow> ('s \<times> (u32 \<times> u32) list) option" where
  "heap_step alloc release (Malloc n) (s, live) = map_option (\<lambda>(r, s). (s, if r = 0 then live else (r, n) # live)) (alloc n s)"
| "heap_step alloc release (Free k) (s, live) =
     (if k < length live then map_option (\<lambda>s. (s, take k live @ drop (Suc k) live)) (release (fst (live ! k)) s) else Some (s, live))"

fun heap_run :: "(nat \<Rightarrow> u32 \<Rightarrow> 's \<Rightarrow> (u32 \<times> 's) option) \<Rightarrow> (u32 \<Rightarrow> 's \<Rightarrow> 's option) \<Rightarrow> heap_call list \<Rightarrow> 's \<times> (u32 \<times> u32) list \<Rightarrow> ('s \<times> (u32 \<times> u32) list) option" where
  "heap_run alloc release [] c = Some c"
| "heap_run alloc release (call # calls) c = Option.bind (heap_step (alloc (length calls)) release call c) (heap_run alloc release calls)"

definition request_ok :: "nat \<Rightarrow> heap_call \<Rightarrow> bool" where
  "request_ok bound call = (case call of Malloc n \<Rightarrow> unat n \<le> bound | Free k \<Rightarrow> True)"

locale allocator =
  fixes ok :: "'s \<Rightarrow> u32 set \<Rightarrow> bool" and room :: "'s \<Rightarrow> u32 \<Rightarrow> nat" and bound :: nat
    and alloc :: "nat \<Rightarrow> u32 \<Rightarrow> 's \<Rightarrow> (u32 \<times> 's) option" and release :: "u32 \<Rightarrow> 's \<Rightarrow> 's option"
  assumes alloc_law: "ok s P \<Longrightarrow> unat n \<le> bound \<Longrightarrow> \<exists>r t. alloc k n s = Some (r, t) \<and> (\<forall>q \<in> P. room t q = room s q) \<and>
      (if r = 0 then ok t P else r \<notin> P \<and> ok t (insert r P) \<and> unat n \<le> room t r)"
    and release_law: "ok s (insert r P) \<Longrightarrow> r \<notin> P \<Longrightarrow> \<exists>t. release r s = Some t \<and> (\<forall>q \<in> P. room t q = room s q) \<and> ok t P"
begin

definition held :: "'s \<times> (u32 \<times> u32) list \<Rightarrow> bool" where
  "held c \<longleftrightarrow> ok (fst c) (fst ` set (snd c)) \<and> distinct (map fst (snd c)) \<and> (\<forall>x \<in> set (snd c). unat (snd x) \<le> room (fst c) (fst x))"

lemma held_step:
  assumes "held c" "request_ok bound call"
  shows "\<exists>d. heap_step (alloc i) release call c = Some d \<and> held d"
proof (cases call)
  case (Malloc n)
  obtain s live where c: "c = (s, live)" by (cases c)
  obtain r t where "alloc i n s = Some (r, t)" "\<forall>q \<in> fst ` set live. room t q = room s q"
    "if r = 0 then ok t (fst ` set live) else r \<notin> fst ` set live \<and> ok t (insert r (fst ` set live)) \<and> unat n \<le> room t r"
    using alloc_law [of s "fst ` set live" n i] assms Malloc by (auto simp: held_def request_ok_def c)
  then show ?thesis using assms(1) Malloc by (auto simp: held_def c split: if_splits)
next
  case (Free k)
  obtain s live where c: "c = (s, live)" by (cases c)
  show ?thesis
  proof (cases "k < length live")
    case True
    define us x vs where "us = take k live" and "x = live ! k" and "vs = drop (Suc k) live"
    have live: "live = us @ x # vs" unfolding us_def x_def vs_def using True by (rule id_take_nth_drop)
    have P: "fst ` set live = insert (fst x) (fst ` set (us @ vs))" "fst x \<notin> fst ` set (us @ vs)" "distinct (map fst (us @ vs))"
      using assms(1) unfolding c live by (auto simp: held_def)
    obtain t where t: "release (fst x) s = Some t" "\<forall>q \<in> fst ` set (us @ vs). room t q = room s q" "ok t (fst ` set (us @ vs))"
      using release_law [of s "fst x" "fst ` set (us @ vs)"] assms(1) P(1,2) by (auto simp: held_def c)
    have "heap_step (alloc i) release call c = Some (t, us @ vs)" using Free True t(1) by (simp add: c us_def x_def vs_def)
    moreover have "held (t, us @ vs)" using assms(1) P(3) t(2,3) unfolding c live by (auto simp: held_def)
    ultimately show ?thesis by blast
  qed (use Free assms c in simp)
qed

lemma held_run: "held c \<Longrightarrow> list_all (request_ok bound) calls \<Longrightarrow> \<exists>d. heap_run alloc release calls c = Some d \<and> held d"
proof (induction calls arbitrary: c)
  case (Cons call calls)
  then show ?case using held_step [of c call "length calls"] by fastforce
qed simp

end

text \<open>\<open>malloc\<close> and \<open>free\<close> keep this contract for requests of at most \<open>0x7FFFFFE8\<close> bytes, whatever the supply of memory is at each call.\<close>

definition in_use :: "Heap \<Rightarrow> u32 set \<Rightarrow> bool" where
  "in_use s P \<longleftrightarrow> heap_ok s ((\<lambda>r. r - 8) ` P)"

definition payload :: "Heap \<Rightarrow> u32 \<Rightarrow> nat" where
  "payload s r = 8 * unat (hsize s (r - 8)) - 8"

interpretation umalloc: allocator in_use payload "0x7FFFFFE8" "\<lambda>k. malloc (enough k)" free for enough
proof
  fix s P k and n :: u32
  assume use: "in_use s P" "unat n \<le> 0x7FFFFFE8"
  show "\<exists>r t. malloc (enough k) n s = Some (r, t) \<and> (\<forall>q \<in> P. payload t q = payload s q) \<and>
      (if r = 0 then in_use t P else r \<notin> P \<and> in_use t (insert r P) \<and> unat n \<le> payload t r)"
    (is "\<exists>r t. ?Q r t")
  proof (rule malloc_step [OF use(1) [unfolded in_use_def] use(2), of "enough k"])
    fix t assume "malloc (enough k) n s = Some (0, t)" "heap_ok t ((\<lambda>r. r - 8) ` P)" "\<forall>q \<in> (\<lambda>r. r - 8) ` P. hsize t q = hsize s q"
    then have "?Q 0 t" by (simp add: payload_def in_use_def)
    then show ?thesis by blast
  next
    fix r t assume "malloc (enough k) n s = Some (r, t)" "r \<noteq> 0" "r - 8 \<notin> (\<lambda>r. r - 8) ` P" "heap_ok t (insert (r - 8) ((\<lambda>r. r - 8) ` P))"
      "unat n + 8 \<le> 8 * unat (hsize t (r - 8))" "\<forall>q \<in> (\<lambda>r. r - 8) ` P. hsize t q = hsize s q"
    then have "?Q r t" by (auto simp: payload_def in_use_def)
    then show ?thesis by blast
  qed
next
  fix s r P
  assume use: "in_use s (insert r P)" "r \<notin> P"
  then obtain xs where "heap_inv s xs (insert (r - 8) ((\<lambda>r. r - 8) ` P))" by (auto simp: in_use_def heap_ok_def)
  moreover have "r - 8 \<notin> (\<lambda>r. r - 8) ` P" using use(2) by auto
  ultimately obtain t ys where "free (r - 8 + 8) s = Some t" "heap_inv t ys ((\<lambda>r. r - 8) ` P)" "\<forall>q \<in> (\<lambda>r. r - 8) ` P. hsize t q = hsize s q"
    by (rule free_step)
  then show "\<exists>t. free r s = Some t \<and> (\<forall>q \<in> P. payload t q = payload s q) \<and> in_use t P"
    by (auto simp: in_use_def payload_def heap_ok_def)
qed

definition fresh_heap :: "u32 \<Rightarrow> u32 \<Rightarrow> Heap" where
  "fresh_heap b e = \<lparr>hptr = \<lambda>_. 0, hsize = \<lambda>_. 0, base = b, freep = 0, brk = e\<rparr>"

lemma header_pointer: "unat (r - 8 :: u32) < 2 ^ 31 \<Longrightarrow> unat r = unat (r - 8) + 8"
  using unat_word_ariths(1) [of "r - 8" 8] by simp

lemma in_use_block:
  assumes use: "in_use s P" and r: "r \<in> P"
  shows "block_ok s (r - 8)" "unat r = unat (r - 8) + 8" "unat r + payload s r = ending s (r - 8)" "apart s ((\<lambda>r. r - 8) ` P)"
proof -
  obtain xs where inv: "heap_inv s xs ((\<lambda>r. r - 8) ` P)" using use r by (auto simp: in_use_def heap_ok_def)
  show ok: "block_ok s (r - 8)" using bspec [OF heap_invD(7) [OF inv], of "r - 8"] r by blast
  then have "unat (r - 8) < 2 ^ 31" using heap_invD(5) [OF inv] by (simp add: block_ok_def)
  from header_pointer [OF this] show "unat r = unat (r - 8) + 8" .
  then show "unat r + payload s r = ending s (r - 8)" using ok by (simp add: payload_def block_ok_def)
  show "apart s ((\<lambda>r. r - 8) ` P)" using heap_invD(8) [OF inv] by (auto simp: apart_def)
qed

lemma in_use_memory:
  assumes use: "in_use s P" and r: "r \<in> P"
  shows "unat (base s) + 16 \<le> unat r" "unat r + payload s r \<le> unat (brk s)"
  using in_use_block [OF assms] by (simp_all add: block_ok_def)

lemma in_use_apart:
  assumes use: "in_use s P" and r: "r \<in> P" and q: "q \<in> P" and lt: "unat r < unat q"
  shows "unat r + payload s r \<le> unat q - 8"
proof -
  note b = in_use_block [OF use r] and c = in_use_block [OF use q]
  have "unat (r - 8) < unat (q - 8)" using b(2) c(2) lt by simp
  then have "ending s (r - 8) \<le> unat (q - 8)" using b(4) r q by (auto simp: apart_def)
  then show ?thesis using b(3) c(2) by simp
qed

text \<open>
  C9: the user allocator never hands out overlapping memory.  From a fresh heap, any sequence of \<open>malloc\<close> calls of at most
  \<open>0x7FFFFFE8\<close> bytes and \<open>free\<close> calls on pointers in use runs to its end, whichever requests for memory the kernel refuses
  at which of the calls.  The
  regions then in use have the sizes asked for, lie inside the memory of the process above the allocator's own header, and
  are pairwise disjoint.
\<close>

theorem malloc_free_safe:
  assumes mem: "0 < unat b" "unat b + 8 \<le> unat e" "unat e < 2 ^ 31"
    and calls: "list_all (request_ok 0x7FFFFFE8) calls"
  shows "\<exists>t live. heap_run (\<lambda>k. malloc (enough k)) free calls (fresh_heap b e, []) = Some (t, live) \<and> distinct (map fst live) \<and>
    (\<forall>(r, n) \<in> set live. unat (base t) + 16 \<le> unat r \<and> unat r + unat n \<le> unat (brk t)) \<and>
    (\<forall>(r, n) \<in> set live. \<forall>(q, m) \<in> set live. unat r < unat q \<longrightarrow> unat r + unat n \<le> unat q - 8)"
proof -
  have "umalloc.held (fresh_heap b e, [])" using mem by (simp add: umalloc.held_def in_use_def heap_ok_def fresh_heap_def)
  then obtain d where d: "heap_run (\<lambda>k. malloc (enough k)) free calls (fresh_heap b e, []) = Some d" "umalloc.held d"
    using umalloc.held_run calls by blast
  obtain t live where eq: "d = (t, live)" by (cases d)
  have use: "in_use t (fst ` set live)" and dist: "distinct (map fst live)" and room: "\<And>r n. (r, n) \<in> set live \<Longrightarrow> unat n \<le> payload t r"
    using d(2) unfolding eq umalloc.held_def by force+
  have "unat (base t) + 16 \<le> unat r \<and> unat r + unat n \<le> unat (brk t)" if "(r, n) \<in> set live" for r n
    using that room [OF that] in_use_memory [OF use, of r] by force
  moreover have "unat r + unat n \<le> unat q - 8" if "(r, n) \<in> set live" "(q, m) \<in> set live" "unat r < unat q" for r n q m
    using that room [OF that(1)] in_use_apart [OF use, of r q] by force
  ultimately show ?thesis using d(1) dist unfolding eq by blast
qed

theorem malloc_free_safe_witness:
  "\<exists>t live. heap_run (\<lambda>k. malloc (\<lambda>_ _. k \<noteq> 2)) free [Malloc 84, Malloc 12, Free 1, Malloc 84] (fresh_heap 0x2000 0x3000, []) = Some (t, live) \<and>
    distinct (map fst live) \<and>
    (\<forall>(r, n) \<in> set live. unat (base t) + 16 \<le> unat r \<and> unat r + unat n \<le> unat (brk t)) \<and>
    (\<forall>(r, n) \<in> set live. \<forall>(q, m) \<in> set live. unat r < unat q \<longrightarrow> unat r + unat n \<le> unat q - 8)"
  by (rule malloc_free_safe) (simp_all add: request_ok_def)

end
