(* ===== verification/Uvm.thy ===== *)
theory Uvm
  imports Vm
begin

text \<open>
  User address spaces: what the operations of \<open>Vm\<close> do to the processor's view of a page table and to the
  free pages.  Releasing a range returns exactly the frames mapped there; growing maps fresh zeroed
  pages; copying gives a child equal contents in pages of its own.
\<close>

unbundle bit_operations_syntax

section \<open>Releasing user pages\<close>

text \<open>
  \<open>frame e\<close> is the kernel address of the page an entry maps.  \<open>uspace\<close> adds to \<open>aspace\<close> that the user part of
  the address space maps pages of the allocator, each once, none of them free or part of the table.
\<close>

definition frame :: "u32 \<Rightarrow> u32" where
  "frame e = P2V (PTE_ADDR e)"

definition uspace :: "nat \<Rightarrow> 'a vm_scheme \<Rightarrow> u32 \<Rightarrow> u32 list \<Rightarrow> bool" where
  "uspace i s d xs \<longleftrightarrow> aspace i s d xs \<and> KERNBASE < kernelEnd s \<and>
     (\<forall>wa e. page_aligned wa \<longrightarrow> wa < KERNBASE \<longrightarrow> walk (mem s) d wa = Some e \<longrightarrow>
        page_ok (kernelEnd s) (frame e) \<and> frame e \<notin> set xs \<and> frame e \<notin> pt_pages (mem s) d) \<and>
     (\<forall>wa wb e f. page_aligned wa \<longrightarrow> page_aligned wb \<longrightarrow> wa < KERNBASE \<longrightarrow> wb < KERNBASE \<longrightarrow>
        walk (mem s) d wa = Some e \<longrightarrow> walk (mem s) d wb = Some f \<longrightarrow> frame e = frame f \<longrightarrow> wa = wb)"

lemma uspace_aspace: "uspace i s d xs \<Longrightarrow> aspace i s d xs"
  by (simp add: uspace_def)

lemma uspace_frame:
  assumes "uspace i s d xs" "page_aligned wa" "wa < KERNBASE" "walk (mem s) d wa = Some e"
  shows "page_ok (kernelEnd s) (frame e)" "frame e \<notin> set xs" "frame e \<notin> pt_pages (mem s) d"
  using assms unfolding uspace_def by blast+

lemma uspace_inj:
  assumes "uspace i s d xs" "page_aligned wa" "wa < KERNBASE" "walk (mem s) d wa = Some e"
    "page_aligned wb" "wb < KERNBASE" "walk (mem s) d wb = Some f" "frame e = frame f"
  shows "wa = wb"
  using assms unfolding uspace_def by blast

lemma uspaceI:
  assumes "aspace i s d xs" "KERNBASE < kernelEnd s"
    and "\<And>wa e. page_aligned wa \<Longrightarrow> wa < KERNBASE \<Longrightarrow> walk (mem s) d wa = Some e \<Longrightarrow>
        page_ok (kernelEnd s) (frame e) \<and> frame e \<notin> set xs \<and> frame e \<notin> pt_pages (mem s) d"
    and "\<And>wa wb e f. page_aligned wa \<Longrightarrow> page_aligned wb \<Longrightarrow> wa < KERNBASE \<Longrightarrow> wb < KERNBASE \<Longrightarrow>
        walk (mem s) d wa = Some e \<Longrightarrow> walk (mem s) d wb = Some f \<Longrightarrow> frame e = frame f \<Longrightarrow> wa = wb"
  shows "uspace i s d xs"
  using assms unfolding uspace_def by blast

lemma frame_nonzero: "page_ok kend (frame e) \<Longrightarrow> KERNBASE < kend \<Longrightarrow> PTE_ADDR e \<noteq> 0"
proof
  assume "page_ok kend (frame e)" "KERNBASE < kend" "PTE_ADDR e = 0"
  then have "kend \<le> KERNBASE" "KERNBASE < kend" by (simp_all add: page_ok_def frame_def P2V_def)
  then show False by (simp add: not_less [symmetric])
qed

lemma walk_Some_table: "walk m d a = Some e \<Longrightarrow> has_table m d (PDX a) \<and> e AND PTE_P \<noteq> 0 \<and>
    load32 m (table_at m d (PDX a) + 4 * PTX a) = e"
  by (auto simp: walk_def Let_def split: if_splits)

lemma free_outside_pages:
  assumes as: "aspace i s d xs" and v: "page_ok (kernelEnd s) v" "v \<notin> set xs" "v \<notin> pt_pages (mem s) d"
  shows "\<exists>t. freePhysicalMemoryPage v s = Ret () t \<and> aspace i t d (v # xs) \<and> vm_touch i s t \<and>
    pt_pages (mem t) d = pt_pages (mem s) d \<and> (\<forall>wa. walk (mem t) d wa = walk (mem s) d wa) \<and>
    (\<forall>a. \<not> in_page v a \<longrightarrow> mem t a = mem s a) \<and>
    (\<forall>i. unat i < 1024 \<longrightarrow> has_table (mem t) d i = has_table (mem s) d i \<and> table_at (mem t) d i = table_at (mem s) d i)"
proof -
  have ok: "kmem_ready i s" "free_list s xs" "pt_ok (kernelEnd s) (mem s) d" "pt_pages (mem s) d \<inter> set xs = {}"
    using as by (simp_all add: aspace_def)
  obtain t where t: "freePhysicalMemoryPage v s = Ret () t" "free_list t (v # xs)" "kmem_ready i t"
      "kernelEnd t = kernelEnd s" "\<forall>a. \<not> in_page v a \<longrightarrow> mem t a = mem s a"
    using free_list_free [OF ok(1,2) v(1,2)] by blast
  have touch: "vm_touch i s t"
    using t(1) freePhysicalMemoryPage_run [OF ok(1) v(1)] by auto
  have d: "page_aligned d" using ok(3) by (rule pt_ok_dir)
  have same: "mem t a = mem s a" if "p \<in> pt_pages (mem s) d" "in_page p a" for p a
  proof -
    have "page_ok (kernelEnd s) p" using that(1) ok(3) by (simp add: pt_ok_def)
    then have "\<not> in_page v a"
      using in_page_unique [of p v a] that v(1,3) by (auto dest: page_ok_aligned)
    then show ?thesis using t(5) by simp
  qed
  have c: "pt_pages (mem t) d = pt_pages (mem s) d" "\<And>wa. walk (mem t) d wa = walk (mem s) d wa"
      "\<And>kend. pt_ok kend (mem t) d = pt_ok kend (mem s) d"
    using pt_cong [OF d, of "mem s" "mem t"] same by blast+
  have "pde_at (mem t) d j = pde_at (mem s) d j" if "unat j < 1024" for j
    using that same [OF pt_pages_dir] by (rule pde_cong [OF d])
  then have tabs: "has_table (mem t) d j = has_table (mem s) d j \<and> table_at (mem t) d j = table_at (mem s) d j"
    if "unat j < 1024" for j
    using that by (simp add: has_table_def table_at_def)
  have "aspace i t d (v # xs)"
    using t ok v(3) c(1,3) by (simp add: aspace_def)
  then show ?thesis using t touch c(1,2) tabs by blast
qed

lemma unmap_page:
  assumes us: "uspace i s d xs" and a: "page_aligned a" "a < KERNBASE" and e: "walk (mem s) d a = Some e"
  shows "\<exists>t u. freePhysicalMemoryPage (frame e) s = Ret () t \<and>
    u = t\<lparr>mem := store32 (mem t) (table_at (mem s) d (PDX a) + 4 * PTX a) 0\<rparr> \<and>
    uspace i u d (frame e # xs) \<and> vm_touch i s u \<and> pt_pages (mem u) d = pt_pages (mem s) d \<and>
    (\<forall>wa. page_aligned wa \<longrightarrow> walk (mem u) d wa = (if wa = a then None else walk (mem s) d wa)) \<and>
    (\<forall>b. \<not> in_page (frame e) b \<longrightarrow> (\<forall>p \<in> pt_pages (mem s) d. \<not> in_page p b) \<longrightarrow> mem u b = mem s b)"
proof -
  note f = uspace_frame [OF us a e]
  obtain t where t: "freePhysicalMemoryPage (frame e) s = Ret () t" "aspace i t d (frame e # xs)" "vm_touch i s t"
      "pt_pages (mem t) d = pt_pages (mem s) d" "\<And>wa. walk (mem t) d wa = walk (mem s) d wa"
      "\<And>b. \<not> in_page (frame e) b \<Longrightarrow> mem t b = mem s b"
      "has_table (mem t) d (PDX a) = has_table (mem s) d (PDX a)"
      "table_at (mem t) d (PDX a) = table_at (mem s) d (PDX a)"
    using free_outside_pages [OF uspace_aspace [OF us] f] PDX_bound [of a] by blast
  let ?u = "t\<lparr>mem := store32 (mem t) (table_at (mem t) d (PDX a) + 4 * PTX a) 0\<rparr>"
  have ht: "has_table (mem t) d (PDX a)" using walk_Some_table [OF e] t(7) by simp
  note w = write_entry [OF t(2) ht a(1) refl, where e = 0]
  have step: "aspace i ?u d (frame e # xs)" "pt_pages (mem ?u) d = pt_pages (mem s) d" "vm_touch i s ?u"
    using w(1) t(3,4) walk_store(1) [OF _ ht a(1) refl, of "kernelEnd t", where e = 0] t(2)
    by (simp_all add: pt_step_def aspace_def)
  have walk: "walk (mem ?u) d wa = (if wa = a then None else walk (mem s) d wa)" if "page_aligned wa" for wa
    using w(2) [OF that] t(5) by simp
  have kend: "kernelEnd ?u = kernelEnd s" using vm_touch_fields [OF step(3)] by simp
  have "uspace i ?u d (frame e # xs)"
  proof (rule uspaceI [OF step(1)])
    show "KERNBASE < kernelEnd ?u" using us kend by (simp add: uspace_def)
  next
    fix wa g assume g: "page_aligned wa" "wa < KERNBASE" "walk (mem ?u) d wa = Some g"
    then have "wa \<noteq> a" "walk (mem s) d wa = Some g" using walk by (auto split: if_splits)
    then show "page_ok (kernelEnd ?u) (frame g) \<and> frame g \<notin> set (frame e # xs) \<and> frame g \<notin> pt_pages (mem ?u) d"
      using uspace_frame [OF us g(1,2)] uspace_inj [OF us g(1,2) _ a e] kend step(2) by auto
  next
    fix wa wb g h
    assume "page_aligned wa" "page_aligned wb" "wa < KERNBASE" "wb < KERNBASE"
      "walk (mem ?u) d wa = Some g" "walk (mem ?u) d wb = Some h" "frame g = frame h"
    then show "wa = wb" using walk uspace_inj [OF us] by (metis option.distinct(1))
  qed
  moreover have "mem ?u b = mem s b"
    if "\<not> in_page (frame e) b" "\<forall>p \<in> pt_pages (mem s) d. \<not> in_page p b" for b
    using w(1) that t(4,6) step(2) unfolding pt_step_def by auto
  ultimately show ?thesis using t(1,8) step walk by (intro exI [of _ t] exI [of _ ?u]) auto
qed

definition mapped_frames :: "memory \<Rightarrow> u32 \<Rightarrow> u32 \<Rightarrow> u32 \<Rightarrow> u32 set" where
  "mapped_frames m d a b = {frame e |wa e. page_aligned wa \<and> a \<le> wa \<and> wa < b \<and> walk m d wa = Some e}"

lemma unat_PDX: "unat (PDX a) = unat a div 4194304"
proof -
  have "unat a div 4194304 < 1024" using unat_u32_bound [of a] by linarith
  then show ?thesis
    unfolding PDX_take unsigned_take_bit_eq unsigned_drop_bit_eq
    by (simp add: take_bit_eq_mod drop_bit_eq_div)
qed

lemma next_directory_entry:
  assumes "a < KERNBASE"
  shows "unat (PGADDR (PDX a + 1) 0 0) = (unat a div 4194304 + 1) * 4194304"
proof -
  have q: "unat a div 4194304 < 512"
    using assms by (simp add: word_less_unat KERNBASE_def)
  have "unat (PDX a + 1) = unat a div 4194304 + 1"
    using q by (simp add: unat_word_ariths unat_PDX)
  then have "unat (push_bit 22 (PDX a + 1)) = (unat a div 4194304 + 1) * 4194304"
    unfolding unsigned_push_bit_eq using q by (simp add: push_bit_eq_mult take_bit_eq_mod)
  then show ?thesis by (simp add: PGADDR_def)
qed

lemma fuel_step:
  fixes r :: nat
  assumes "(r + 4095) div 4096 \<le> Suc n" and "r' \<le> r - 4096"
  shows "(r' + 4095) div 4096 \<le> n"
proof -
  have "r + 4095 < 4096 + 4096 * ((r + 4095) div 4096)" by (rule dividend_less_times_div) simp
  also have "\<dots> \<le> 4096 + 4096 * Suc n" using assms(1) by simp
  finally have "r < Suc n * 4096 + 1" by simp
  then have "r' + 4095 < Suc n * 4096" using assms(2) by (cases "4096 \<le> r") simp_all
  then have "(r' + 4095) div 4096 < Suc n" by (rule less_mult_imp_div_less)
  then show ?thesis by simp
qed

lemma aligned_interval:
  assumes "page_aligned a" "page_aligned wa" "unat a + 4096 < 4294967296"
  shows "a + PGSIZE \<le> wa \<longleftrightarrow> a \<le> wa \<and> wa \<noteq> a"
proof -
  obtain k k' where "unat a = 4096 * k" "unat wa = 4096 * k'"
    using page_multiple [OF assms(1)] page_multiple [OF assms(2)] by metis
  moreover have "unat (a + PGSIZE) = unat a + 4096"
    using assms(3) unfolding PGSIZE_def by (subst unat_add_u32) simp_all
  ultimately show ?thesis by (auto simp: word_le_unat word_unat_eq_iff)
qed

lemma unmapped_region:
  assumes "\<not> has_table m d (PDX a)" "a \<le> wa" "unat wa < (unat a div 4194304 + 1) * 4194304"
  shows "walk m d wa = None"
proof -
  have "unat wa div 4194304 = unat a div 4194304"
  proof (rule antisym)
    have "unat wa div 4194304 < unat a div 4194304 + 1"
      using assms(3) by (rule less_mult_imp_div_less)
    then show "unat wa div 4194304 \<le> unat a div 4194304" by simp
    show "unat a div 4194304 \<le> unat wa div 4194304"
      using assms(2) by (simp add: word_le_unat div_le_mono)
  qed
  then have "PDX wa = PDX a" by (simp add: word_unat_eq_iff unat_PDX)
  then show ?thesis using assms(1) by (simp add: walk_def)
qed

lemma present_walk: "has_table m d (PDX a) \<Longrightarrow> walk m d a =
    (if load32 m (table_at m d (PDX a) + 4 * PTX a) AND PTE_P = 0 then None
     else Some (load32 m (table_at m d (PDX a) + 4 * PTX a)))"
  by (simp add: walk_def Let_def)

text \<open>
  \<open>released_range i d a b s xs t ys\<close>: from \<open>s\<close> to \<open>t\<close> every user page between \<open>a\<close> and \<open>b\<close> was unmapped and its frame
  returned to the free list, and nothing else changed outside the page table and the freed pages.
\<close>

definition released_range ::
  "nat \<Rightarrow> u32 \<Rightarrow> u32 \<Rightarrow> u32 \<Rightarrow> 'a vm_scheme \<Rightarrow> u32 list \<Rightarrow> 'a vm_scheme \<Rightarrow> u32 list \<Rightarrow> bool" where
  "released_range i d a b s xs t ys \<longleftrightarrow> uspace i t d ys \<and> vm_touch i s t \<and>
     pt_pages (mem t) d = pt_pages (mem s) d \<and>
     (\<forall>wa. page_aligned wa \<longrightarrow> walk (mem t) d wa = (if a \<le> wa \<and> wa < b then None else walk (mem s) d wa)) \<and>
     set ys = set xs \<union> mapped_frames (mem s) d a b \<and>
     (\<forall>c. (\<forall>p \<in> set ys \<union> pt_pages (mem s) d. \<not> in_page p c) \<longrightarrow> mem t c = mem s c)"

lemma mapped_frames_empty: "\<not> a < b \<Longrightarrow> mapped_frames m d a b = {}"
  unfolding mapped_frames_def by (auto dest: le_less_trans)

lemma released_range_empty: "uspace i s d xs \<Longrightarrow> \<not> a < b \<Longrightarrow> released_range i d a b s xs s xs"
  by (auto simp: released_range_def mapped_frames_empty dest: le_less_trans)

lemma released_range_skip:
  assumes "released_range i d c b s xs t ys" and "a \<le> c"
    and "\<And>wa. page_aligned wa \<Longrightarrow> a \<le> wa \<Longrightarrow> wa < c \<Longrightarrow> walk (mem s) d wa = None"
  shows "released_range i d a b s xs t ys"
proof -
  have "mapped_frames (mem s) d a b = mapped_frames (mem s) d c b"
    unfolding mapped_frames_def using assms(2,3) by (fastforce intro: order_trans simp: not_less)
  moreover have "walk (mem t) d wa = (if a \<le> wa \<and> wa < b then None else walk (mem s) d wa)"
    if "page_aligned wa" for wa
  proof -
    have "walk (mem t) d wa = (if c \<le> wa \<and> wa < b then None else walk (mem s) d wa)"
      using assms(1) that by (simp add: released_range_def)
    then show ?thesis
      using assms(2) assms(3) [OF that] by (cases "wa < c") (auto simp: not_less intro: order_trans)
  qed
  ultimately show ?thesis using assms(1) unfolding released_range_def by simp
qed

lemma released_range_cons:
  assumes s: "uspace i s d xs" and a: "page_aligned a" "a < b" "unat a + 4096 < 4294967296"
    and e: "walk (mem s) d a = Some e"
    and u: "vm_touch i s u" "pt_pages (mem u) d = pt_pages (mem s) d"
      "\<And>wa. page_aligned wa \<Longrightarrow> walk (mem u) d wa = (if wa = a then None else walk (mem s) d wa)"
      "\<And>c. \<not> in_page (frame e) c \<Longrightarrow> \<forall>p \<in> pt_pages (mem s) d. \<not> in_page p c \<Longrightarrow> mem u c = mem s c"
    and r: "released_range i d (a + PGSIZE) b u (frame e # xs) t ys"
  shows "released_range i d a b s xs t ys"
proof -
  note iv = aligned_interval [OF a(1) _ a(3)]
  have walk: "walk (mem t) d wa = (if a \<le> wa \<and> wa < b then None else walk (mem s) d wa)" if "page_aligned wa" for wa
    using r u(3) [OF that] iv [OF that] that a(2) by (cases "wa = a") (auto simp: released_range_def)
  have "mapped_frames (mem s) d a b = insert (frame e) (mapped_frames (mem u) d (a + PGSIZE) b)"
  proof (intro set_eqI iffI)
    fix f assume "f \<in> mapped_frames (mem s) d a b"
    then obtain wa g where g: "f = frame g" "page_aligned wa" "a \<le> wa" "wa < b" "walk (mem s) d wa = Some g"
      by (auto simp: mapped_frames_def)
    show "f \<in> insert (frame e) (mapped_frames (mem u) d (a + PGSIZE) b)"
    proof (cases "wa = a")
      case False
      then have "a + PGSIZE \<le> wa" "walk (mem u) d wa = Some g" using g iv u(3) by simp_all
      then show ?thesis using g unfolding mapped_frames_def by blast
    qed (use g e in simp)
  next
    fix f assume "f \<in> insert (frame e) (mapped_frames (mem u) d (a + PGSIZE) b)"
    then consider "f = frame e" | wa g where "f = frame g" "page_aligned wa" "a + PGSIZE \<le> wa" "wa < b" "walk (mem u) d wa = Some g"
      by (auto simp: mapped_frames_def)
    then show "f \<in> mapped_frames (mem s) d a b"
    proof cases
      case 1
      then show ?thesis using a e unfolding mapped_frames_def by blast
    next
      case 2
      then have "a \<le> wa" "walk (mem s) d wa = Some g" using iv u(3) by (auto split: if_splits)
      then show ?thesis using 2 unfolding mapped_frames_def by blast
    qed
  qed
  then have ys: "set ys = set xs \<union> mapped_frames (mem s) d a b"
    using r by (auto simp: released_range_def)
  have same: "mem t c = mem s c" if c: "\<forall>p \<in> set ys \<union> pt_pages (mem s) d. \<not> in_page p c" for c
  proof -
    have "frame e \<in> set ys" using r by (simp add: released_range_def)
    then have "mem u c = mem s c" using c by (intro u(4)) auto
    then show ?thesis using r c u(2) unfolding released_range_def by metis
  qed
  have "kmem_ready i s" using s by (simp add: uspace_def aspace_def)
  then have "vm_touch i s t" using vm_touch_trans u(1) r by (auto simp: released_range_def)
  then show ?thesis using r walk ys same u(2) by (simp add: released_range_def)
qed

lemma releaseUserPages_loop_run:
  assumes "uspace i s d xs" "page_aligned a" "oldsz \<le> KERNBASE" "(unat oldsz - unat a + 4095) div 4096 \<le> n"
  shows "\<exists>t ys. releaseUserPages_loop n d a oldsz s = Ret () t \<and> released_range i d a oldsz s xs t ys"
  using assms
proof (induction n arbitrary: a s xs)
  case 0
  then have na: "\<not> a < oldsz" by (simp add: word_less_unat)
  then show ?case using released_range_empty [OF 0(1) na] by auto
next
  case (Suc n)
  show ?case
  proof (cases "a < oldsz")
    case False
    then show ?thesis using released_range_empty [OF Suc.prems(1) False] by auto
  next
    case True
    then have ua: "unat a < 2147483648"
      using Suc.prems(3) unfolding word_less_unat word_le_unat KERNBASE_def by simp
    then have a: "a < KERNBASE" "unat a + 4096 < 4294967296" by (simp_all add: word_less_unat KERNBASE_def)
    have un: "unat (a + PGSIZE) = unat a + 4096"
      using a(2) unfolding PGSIZE_def by (subst unat_add_u32) simp_all
    have fuel: "(unat oldsz - unat b + 4095) div 4096 \<le> n" if "unat a + 4096 \<le> unat b" for b :: u32
      using diff_le_mono2 [OF that, of "unat oldsz"] by (intro fuel_step [OF Suc.prems(4)]) (simp only: diff_diff_left)
    have next_al: "page_aligned (a + PGSIZE)" using Suc.prems(2) by (rule next_page_aligned)
    have as: "aspace i s d xs" using Suc.prems(1) by (rule uspace_aspace)
    consider (no_table) "\<not> has_table (mem s) d (PDX a)"
      | (absent) "has_table (mem s) d (PDX a)" "walk (mem s) d a = None"
      | (present) e where "has_table (mem s) d (PDX a)" "walk (mem s) d a = Some e"
      by (cases "walk (mem s) d a") auto
    then show ?thesis
    proof cases
      case no_table
      let ?b = "PGADDR (PDX a + 1) 0 0 - PGSIZE + PGSIZE"
      have ub: "unat ?b = (unat a div 4194304 + 1) * 4194304"
        using next_directory_entry [OF a(1)] by simp
      obtain k where k: "unat a = 4096 * k" using Suc.prems(2) by (rule page_multiple)
      define q where "q = unat a div 4194304"
      have "unat a < 4194304 + 4194304 * q" unfolding q_def by (rule dividend_less_times_div) simp
      then have "k < 1024 + 1024 * q" unfolding k by linarith
      then have "4096 * Suc k \<le> 4096 * (1024 + 1024 * q)" by (intro mult_le_mono2) simp
      then have "4096 * k + 4096 \<le> (q + 1) * 4194304" by simp
      then have ab: "unat a + 4096 \<le> unat ?b" unfolding ub q_def k .
      have "page_aligned ?b" unfolding page_aligned_unat ub by (simp add: mod_eq_0_iff_dvd)
      then obtain t ys where t: "releaseUserPages_loop n d ?b oldsz s = Ret () t"
          "released_range i d ?b oldsz s xs t ys"
        using Suc.IH [OF Suc.prems(1) _ Suc.prems(3) fuel [OF ab]] by blast
      have "released_range i d a oldsz s xs t ys"
        using t(2) ab ub unmapped_region [OF no_table]
        by (elim released_range_skip) (simp_all add: word_le_unat word_less_unat)
      then show ?thesis using t(1) True no_table by (auto simp: kmonad getPageTableEntry_lookup)
    next
      case absent
      obtain t ys where t: "releaseUserPages_loop n d (a + PGSIZE) oldsz s = Ret () t"
          "released_range i d (a + PGSIZE) oldsz s xs t ys"
        using Suc.IH [OF Suc.prems(1) next_al Suc.prems(3) fuel] un by auto
      have "released_range i d a oldsz s xs t ys"
        using t(2)
      proof (rule released_range_skip)
        show "a \<le> a + PGSIZE" using un by (simp add: word_le_unat)
        show "walk (mem s) d wa = None" if "page_aligned wa" "a \<le> wa" "wa < a + PGSIZE" for wa
          using that aligned_interval [OF Suc.prems(2) that(1) a(2)] absent(2) by (auto simp: not_le)
      qed
      then show ?thesis
        using t(1) True absent aspace_table_nonzero [OF as absent(1)] present_walk [OF absent(1)]
        by (auto simp: kmonad getPageTableEntry_lookup readWord_def split: if_splits)
    next
      case present
      obtain v u where v: "freePhysicalMemoryPage (frame e) s = Ret () v"
          "u = v\<lparr>mem := store32 (mem v) (table_at (mem s) d (PDX a) + 4 * PTX a) 0\<rparr>"
          "uspace i u d (frame e # xs)" "vm_touch i s u" "pt_pages (mem u) d = pt_pages (mem s) d"
          "\<And>wa. page_aligned wa \<Longrightarrow> walk (mem u) d wa = (if wa = a then None else walk (mem s) d wa)"
          "\<And>c. \<not> in_page (frame e) c \<Longrightarrow> \<forall>p \<in> pt_pages (mem s) d. \<not> in_page p c \<Longrightarrow> mem u c = mem s c"
        using unmap_page [OF Suc.prems(1,2) a(1) present(2)] by blast
      obtain t ys where t: "releaseUserPages_loop n d (a + PGSIZE) oldsz u = Ret () t"
          "released_range i d (a + PGSIZE) oldsz u (frame e # xs) t ys"
        using Suc.IH [OF v(3) next_al Suc.prems(3) fuel] un by auto
      have "PTE_ADDR e \<noteq> 0"
        using frame_nonzero uspace_frame(1) [OF Suc.prems(1,2) a(1) present(2)] Suc.prems(1)
        by (auto simp: uspace_def)
      then have "releaseUserPages_loop (Suc n) d a oldsz s = Ret () t"
        using t(1) v(1,2) True present aspace_table_nonzero [OF as present(1)] walk_Some_table [OF present(2)]
        by (simp add: kmonad getPageTableEntry_lookup readWord_def writeWord_def frame_def)
      then show ?thesis
        using released_range_cons [OF Suc.prems(1,2) True a(2) present(2) v(4-7) t(2)] by blast
    qed
  qed
qed

lemma releaseUserPages_run:
  assumes "uspace i s d xs" "oldsz \<le> KERNBASE" "newsz < oldsz"
  shows "\<exists>t ys. releaseUserPages d oldsz newsz s = Ret newsz t \<and>
    released_range i d (PGROUNDUP newsz) oldsz s xs t ys"
proof -
  have "unat oldsz \<le> 2147483648" using assms(2) by (simp add: word_le_unat KERNBASE_def)
  then have "unat oldsz - unat (PGROUNDUP newsz) + 4095 \<le> 2147483648 + 4095" by linarith
  then have "(unat oldsz - unat (PGROUNDUP newsz) + 4095) div 4096 \<le> (2147483648 + 4095) div 4096"
    by (rule div_le_mono)
  then have "(unat oldsz - unat (PGROUNDUP newsz) + 4095) div 4096 \<le> 0x100000" by simp
  from releaseUserPages_loop_run [OF assms(1) PGROUNDUP_aligned assms(2) this] show ?thesis
    using assms(3) by (auto simp: releaseUserPages_def kmonad not_le)
qed

section \<open>Growing user memory\<close>

text \<open>
  \<open>grown_range i d a b s xs t ys\<close>: from \<open>s\<close> to \<open>t\<close> every page between \<open>a\<close> and \<open>b\<close> was mapped, writable by user
  code, to a zero-filled page taken from the free list \<open>xs\<close>, of which \<open>ys\<close> is left.
\<close>

definition zero_page :: "memory \<Rightarrow> u32 \<Rightarrow> bool" where
  "zero_page m p \<longleftrightarrow> (\<forall>a. in_page p a \<longrightarrow> m a = 0)"

definition user_entry :: "u32 \<Rightarrow> u32" where
  "user_entry p = V2P p OR (PTE_W OR PTE_U) OR PTE_P"

definition grown_range ::
  "nat \<Rightarrow> u32 \<Rightarrow> u32 \<Rightarrow> u32 \<Rightarrow> 'a vm_scheme \<Rightarrow> u32 list \<Rightarrow> 'a vm_scheme \<Rightarrow> u32 list \<Rightarrow> bool" where
  "grown_range i d a b s xs t ys \<longleftrightarrow> uspace i t d ys \<and> vm_touch i s t \<and> (\<exists>zs. xs = zs @ ys) \<and>
     pt_pages (mem s) d \<subseteq> pt_pages (mem t) d \<and> pt_pages (mem t) d \<subseteq> pt_pages (mem s) d \<union> set xs \<and>
     set xs \<subseteq> set ys \<union> pt_pages (mem t) d \<union> mapped_frames (mem t) d a b \<and>
     (\<forall>wa. page_aligned wa \<longrightarrow>
        (if a \<le> wa \<and> wa < b
         then \<exists>p \<in> set xs. walk (mem t) d wa = Some (user_entry p) \<and> zero_page (mem t) p \<and> page_aligned p \<and>
                p \<notin> set ys \<and> p \<notin> pt_pages (mem t) d
         else walk (mem t) d wa = walk (mem s) d wa)) \<and>
     (\<forall>c. (\<forall>p \<in> set xs \<union> pt_pages (mem s) d. \<not> in_page p c) \<longrightarrow> mem t c = mem s c)"

lemma frame_user_entry: "page_aligned p \<Longrightarrow> frame (user_entry p) = p"
proof -
  assume "page_aligned p"
  then have "PTE_ADDR (user_entry p) = V2P p"
    unfolding user_entry_def by (intro PTE_ADDR_or V2P_aligned) (simp_all add: const_defs)
  then show ?thesis by (simp add: frame_def)
qed

lemma grown_range_empty:
  assumes "uspace i s d xs" "\<not> a < b"
  shows "grown_range i d a b s xs s xs"
proof -
  have "\<not> (a \<le> wa \<and> wa < b)" for wa using assms(2) le_less_trans by blast
  then show ?thesis using assms(1) by (auto simp: grown_range_def)
qed

lemma alloc_zeroed:
  assumes "uspace i s d (x # xs)"
  shows "\<exists>t. allocatePhysicalMemoryPage s = Ret x t \<and> (let u = t\<lparr>mem := memset (mem t) x 0 PGSIZE\<rparr> in
    aspace i u d xs \<and> vm_touch i s u \<and> pt_pages (mem u) d = pt_pages (mem s) d \<and>
    (\<forall>wa. walk (mem u) d wa = walk (mem s) d wa) \<and> zero_page (mem u) x \<and> mem t = mem s \<and>
    (\<forall>c. \<not> in_page x c \<longrightarrow> mem u c = mem s c)) \<and>
    page_ok (kernelEnd s) x \<and> x \<notin> set xs \<and> x \<notin> pt_pages (mem s) d \<and> x \<noteq> 0"
proof -
  have as: "kmem_ready i s" "free_list s (x # xs)" "pt_ok (kernelEnd s) (mem s) d"
      "pt_pages (mem s) d \<inter> set (x # xs) = {}"
    using assms by (simp_all add: uspace_def aspace_def)
  obtain t where t: "allocatePhysicalMemoryPage s = Ret x t" "free_list t xs" "kmem_ready i t"
      "kernelEnd t = kernelEnd s" "mem t = mem s"
    using free_list_alloc [OF as(1,2)] by blast
  have x: "page_ok (kernelEnd s) x" "x \<notin> set xs" "x \<notin> pt_pages (mem s) d" "x \<noteq> 0"
    using as by (auto simp: free_list_def)
  let ?u = "t\<lparr>mem := memset (mem t) x 0 PGSIZE\<rparr>"
  have same: "mem ?u c = mem s c" if "\<not> in_page x c" for c
    using that t(5) by (simp add: memset_page)
  have apart: "mem ?u c = mem s c" if "page_ok (kernelEnd s) p" "p \<noteq> x" "in_page p c" for p c
    using that same in_page_unique [of p x c] x(1) page_ok_aligned by blast
  have pages: "mem ?u c = mem s c" if "p \<in> pt_pages (mem s) d" "in_page p c" for p c
    using that apart [of p c] as(3) x(3) by (auto simp: pt_ok_def)
  have d: "page_aligned d" using as(3) by (rule pt_ok_dir)
  have c: "pt_pages (mem ?u) d = pt_pages (mem s) d" "\<And>wa. walk (mem ?u) d wa = walk (mem s) d wa"
      "\<And>kend. pt_ok kend (mem ?u) d = pt_ok kend (mem s) d"
    using pt_cong [OF d, of "mem s" "mem ?u"] pages by blast+
  have "free_list ?u xs"
  proof (rule free_list_cong [OF t(2)])
    show "mem ?u a = mem t a" if "p \<in> set xs" "in_page p a" for p a
      using apart [of p a] that as(2) x(2) t(5) by (auto simp: free_list_def)
  qed simp_all
  then have "aspace i ?u d xs" using t c as by (simp add: aspace_def)
  moreover have "vm_touch i s ?u"
    using t(1) allocatePhysicalMemoryPage_run [OF as(1)] as(2) x(4) by (auto simp: free_list_def)
  moreover have "zero_page (mem ?u) x" by (simp add: zero_page_def memset_page)
  ultimately show ?thesis
    using t c same x by (intro exI [of _ t]) (simp add: Let_def)
qed

lemma PGROUNDDOWN_page:
  assumes "page_aligned a"
  shows "PGROUNDDOWN a = a" and "PGROUNDDOWN (a + PGSIZE - 1) = a"
proof -
  obtain k where k: "unat a = 4096 * k" using assms by (rule page_multiple)
  then have "k < 1048576" using unat_u32_bound [of a] by linarith
  then have "unat a + 4095 < 4294967296" using k by linarith
  then have "unat (a + 4095) = unat a + 4095" by (subst unat_add_u32) simp_all
  moreover have "a + PGSIZE - 1 = a + 4095" by (simp add: PGSIZE_def)
  ultimately have "unat (PGROUNDDOWN (a + PGSIZE - 1)) = unat a"
    using k by (simp only: unat_PGROUNDDOWN) simp
  then show "PGROUNDDOWN (a + PGSIZE - 1) = a" by (rule unsigned_word_eqI)
  have "unat (PGROUNDDOWN a) = unat a" using k by (simp add: unat_PGROUNDDOWN)
  then show "PGROUNDDOWN a = a" by (rule unsigned_word_eqI)
qed

lemma createPageTableEntries_page_loop:
  assumes "page_aligned a"
  shows "\<exists>n. createPageTableEntries d a PGSIZE pa perm s = createPageTableEntries_loop (Suc n) d a a pa perm s"
proof -
  have "(0x100000 :: nat) = Suc 0xFFFFF" by simp
  then show ?thesis
    unfolding createPageTableEntries_def PGROUNDDOWN_page [OF assms] by metis
qed

lemma createPageTableEntries_page:
  assumes "aspace i s d xs" "page_aligned a" "walk (mem s) d a = None"
  obtains (full) t where "createPageTableEntries d a PGSIZE pa perm s = Ret (-1) t" "pt_step i d s xs t []"
      "\<And>wa. walk (mem t) d wa = walk (mem s) d wa"
  | (mapped) t ys where "createPageTableEntries d a PGSIZE pa perm s = Ret 0 t" "pt_step i d s xs t ys"
      "\<And>wa. page_aligned wa \<Longrightarrow> walk (mem t) d wa = (if wa = a then Some (pa OR perm OR PTE_P) else walk (mem s) d wa)"
proof (rule map_one_page [OF assms present_or [of pa perm]])
  fix t assume t: "getPageTableEntry d a True s = Ret 0 t" "pt_step i d s xs t []"
    "\<And>wa. walk (mem t) d wa = walk (mem s) d wa"
  then show thesis
    using full [of t] createPageTableEntries_page_loop [OF assms(2), of d pa perm s] by (auto simp: kmonad)
next
  fix pte t ys
  assume t: "getPageTableEntry d a True s = Ret pte t" "pte \<noteq> 0" "load32 (mem t) pte AND PTE_P = 0"
    "pt_step i d s xs (t\<lparr>mem := store32 (mem t) pte (pa OR perm OR PTE_P)\<rparr>) ys"
    "\<And>wa. page_aligned wa \<Longrightarrow> walk (store32 (mem t) pte (pa OR perm OR PTE_P)) d wa =
      (if wa = a then Some (pa OR perm OR PTE_P) else walk (mem s) d wa)"
  then show thesis
    using mapped [of "t\<lparr>mem := store32 (mem t) pte (pa OR perm OR PTE_P)\<rparr>" ys]
      createPageTableEntries_page_loop [OF assms(2), of d pa perm s]
    by (auto simp: kmonad readWord_def writeWord_def)
qed

lemma pt_step_uspace:
  assumes us: "uspace i s d xs0" and st: "pt_step i d u xs v ys"
    and u: "pt_pages (mem u) d = pt_pages (mem s) d" "set xs \<subseteq> set xs0" "kernelEnd u = kernelEnd s"
    and w: "\<And>wa e. page_aligned wa \<Longrightarrow> wa < KERNBASE \<Longrightarrow> walk (mem v) d wa = Some e \<Longrightarrow> walk (mem s) d wa = Some e"
  shows "uspace i v d ys"
proof (rule uspaceI)
  show "aspace i v d ys" using st by (simp add: pt_step_def)
  have kend: "kernelEnd v = kernelEnd s"
    using st vm_touch_fields [of i u v] u(3) by (simp add: pt_step_def)
  then show "KERNBASE < kernelEnd v" using us by (simp add: uspace_def)
  have sub: "set ys \<subseteq> set xs0" "pt_pages (mem v) d \<subseteq> pt_pages (mem s) d \<union> set xs0"
    using st u by (auto simp: pt_step_def)
  show "page_ok (kernelEnd v) (frame e) \<and> frame e \<notin> set ys \<and> frame e \<notin> pt_pages (mem v) d"
    if "page_aligned wa" "wa < KERNBASE" "walk (mem v) d wa = Some e" for wa e
    using uspace_frame [OF us that(1,2) w [OF that]] sub kend by auto
  show "wa = wb" if "page_aligned wa" "page_aligned wb" "wa < KERNBASE" "wb < KERNBASE"
    "walk (mem v) d wa = Some e" "walk (mem v) d wb = Some f" "frame e = frame f" for wa wb e f
    using uspace_inj [OF us that(1,3) w [OF that(1,3,5)] that(2,4) w [OF that(2,4,6)] that(7)] .
qed

lemma aligned_page_range:
  assumes "page_aligned a" "page_aligned wa" "unat a + 4096 < 4294967296"
  shows "a \<le> wa \<and> wa < a + PGSIZE \<longleftrightarrow> wa = a"
  using aligned_interval [OF assms] by (auto simp: not_le [symmetric])

lemma grow_page:
  assumes us: "uspace i s d (x # xs)" and a: "page_aligned a" "a < KERNBASE" and none: "walk (mem s) d a = None"
  obtains (full) t v where "allocatePhysicalMemoryPage s = Ret x t" "x \<noteq> 0"
      "createPageTableEntries d a PGSIZE (V2P x) (PTE_W OR PTE_U) (t\<lparr>mem := memset (mem t) x 0 PGSIZE\<rparr>) = Ret (-1) v"
      "uspace i v d []" "vm_touch i s v" "\<And>wa. walk (mem v) d wa = walk (mem s) d wa"
      "page_ok (kernelEnd s) x" "x \<notin> pt_pages (mem v) d" "pt_pages (mem v) d = pt_pages (mem s) d \<union> set xs"
      "\<And>wa e. page_aligned wa \<Longrightarrow> wa < KERNBASE \<Longrightarrow> walk (mem s) d wa = Some e \<Longrightarrow> frame e \<noteq> x"
  | (mapped) t v ys where "allocatePhysicalMemoryPage s = Ret x t" "x \<noteq> 0"
      "createPageTableEntries d a PGSIZE (V2P x) (PTE_W OR PTE_U) (t\<lparr>mem := memset (mem t) x 0 PGSIZE\<rparr>) = Ret 0 v"
      "grown_range i d a (a + PGSIZE) s (x # xs) v ys"
proof -
  obtain t where t: "allocatePhysicalMemoryPage s = Ret x t" "mem t = mem s" and
    u: "aspace i (t\<lparr>mem := memset (mem t) x 0 PGSIZE\<rparr>) d xs" "vm_touch i s (t\<lparr>mem := memset (mem t) x 0 PGSIZE\<rparr>)"
      "pt_pages (memset (mem t) x 0 PGSIZE) d = pt_pages (mem s) d"
      "\<And>wa. walk (memset (mem t) x 0 PGSIZE) d wa = walk (mem s) d wa"
      "zero_page (memset (mem t) x 0 PGSIZE) x" "\<And>c. \<not> in_page x c \<Longrightarrow> memset (mem t) x 0 PGSIZE c = mem s c" and
    x: "page_ok (kernelEnd s) x" "x \<notin> set xs" "x \<notin> pt_pages (mem s) d" "x \<noteq> 0"
    using alloc_zeroed [OF us] by (auto simp: Let_def)
  let ?u = "t\<lparr>mem := memset (mem t) x 0 PGSIZE\<rparr>"
  have ready: "kmem_ready i s" using us by (simp add: uspace_def aspace_def)
  have kend: "kernelEnd ?u = kernelEnd s" using vm_touch_fields [OF u(2)] by simp
  have fx: "frame e \<noteq> x" if "page_aligned wa" "wa < KERNBASE" "walk (mem s) d wa = Some e" for wa e
    using uspace_frame(2) [OF us that] by simp
  have pages: "x \<notin> pt_pages (mem v) d" "x \<notin> set ys" if "pt_step i d ?u xs v ys" for v ys
    using that x(2,3) u(3) by (auto simp: pt_step_def)
  have un: "walk (mem ?u) d a = None" using u(4) none by simp
  show thesis
  proof (rule createPageTableEntries_page [OF u(1) a(1) un, of "V2P x" "PTE_W OR PTE_U"])
    fix v assume v: "createPageTableEntries d a PGSIZE (V2P x) (PTE_W OR PTE_U) ?u = Ret (-1) v"
      "pt_step i d ?u xs v []" "\<And>wa. walk (mem v) d wa = walk (mem ?u) d wa"
    have "uspace i v d []"
      using v(3) u(3,4) kend by (intro pt_step_uspace [OF us v(2)]) auto
    moreover have "vm_touch i s v"
      using vm_touch_trans [OF ready u(2)] v(2) by (simp add: pt_step_def)
    moreover have "pt_pages (mem v) d = pt_pages (mem s) d \<union> set xs" using v(2) u(3) by (auto simp: pt_step_def)
    ultimately show thesis using full t(1) x v u(4) pages(1) [OF v(2)] fx by auto
  next
    fix v ys assume v: "createPageTableEntries d a PGSIZE (V2P x) (PTE_W OR PTE_U) ?u = Ret 0 v"
      "pt_step i d ?u xs v ys"
      "\<And>wa. page_aligned wa \<Longrightarrow> walk (mem v) d wa =
        (if wa = a then Some (V2P x OR (PTE_W OR PTE_U) OR PTE_P) else walk (mem ?u) d wa)"
    have w: "walk (mem v) d wa = (if wa = a then Some (user_entry x) else walk (mem s) d wa)" if "page_aligned wa" for wa
      using v(3) [OF that] u(4) by (simp add: user_entry_def)
    have fr: "frame (user_entry x) = x" using x(1) by (intro frame_user_entry) (simp add: page_ok_def)
    have kv: "kernelEnd v = kernelEnd s" using v(2) vm_touch_fields [of i ?u v] kend by (simp add: pt_step_def)
    have sub: "set ys \<subseteq> set xs" "pt_pages (mem v) d \<subseteq> pt_pages (mem s) d \<union> set xs"
      "pt_pages (mem s) d \<subseteq> pt_pages (mem v) d"
      using v(2) u(3) by (auto simp: pt_step_def)
    have "uspace i v d ys"
    proof (rule uspaceI)
      show "aspace i v d ys" using v(2) by (simp add: pt_step_def)
      show "KERNBASE < kernelEnd v" using us kv by (simp add: uspace_def)
      show "page_ok (kernelEnd v) (frame e) \<and> frame e \<notin> set ys \<and> frame e \<notin> pt_pages (mem v) d"
        if "page_aligned wa" "wa < KERNBASE" "walk (mem v) d wa = Some e" for wa e
        using w [OF that(1)] that(3) x(1) fr kv pages [OF v(2)] uspace_frame [OF us that(1,2)] sub
        by (cases "wa = a") auto
      show "wa = wb" if "page_aligned wa" "page_aligned wb" "wa < KERNBASE" "wb < KERNBASE"
        "walk (mem v) d wa = Some e" "walk (mem v) d wb = Some f" "frame e = frame f" for wa wb e f
        using w [OF that(1)] w [OF that(2)] that fr fx uspace_inj [OF us that(1,3) _ that(2,4)]
        by (cases "wa = a"; cases "wb = a") (auto dest!: sym [of "Some _"])
    qed
    moreover have "zero_page (mem v) x"
    proof -
      have "mem v c = mem ?u c" if "in_page x c" for c
      proof -
        have "\<not> in_page p c" if p: "p \<in> pt_pages (mem v) d" for p
        proof
          assume "in_page p c"
          moreover have "page_ok (kernelEnd v) p" using p v(2) by (simp add: pt_step_def aspace_def pt_ok_def)
          ultimately have "p = x" using in_page_unique [of p x c] \<open>in_page x c\<close> x(1) page_ok_aligned by blast
          with p pages(1) [OF v(2)] show False by simp
        qed
        then show ?thesis using v(2) by (simp add: pt_step_def)
      qed
      then show ?thesis using u(5) by (simp add: zero_page_def)
    qed
    moreover have "vm_touch i s v" using vm_touch_trans [OF ready u(2)] v(2) by (simp add: pt_step_def)
    moreover have "\<exists>zs. x # xs = zs @ ys" using v(2) by (auto simp: pt_step_def intro: exI [of _ "x # zs" for zs])
    moreover have "mem v c = mem s c" if "\<forall>p \<in> set (x # xs) \<union> pt_pages (mem s) d. \<not> in_page p c" for c
    proof -
      have "\<forall>p \<in> pt_pages (mem v) d. \<not> in_page p c" using that sub(2) by auto
      then have "mem v c = mem ?u c" using v(2) by (simp add: pt_step_def)
      then show ?thesis using u(6) [of c] that by simp
    qed
    moreover have bound: "unat a + 4096 < 4294967296" using a(2) by (simp add: word_less_unat KERNBASE_def)
    moreover have "set (x # xs) \<subseteq> set ys \<union> pt_pages (mem v) d \<union> mapped_frames (mem v) d a (a + PGSIZE)"
    proof -
      have "x \<in> mapped_frames (mem v) d a (a + PGSIZE)"
        using w [OF a(1)] fr a(1) aligned_page_range [OF a(1) a(1) bound] unfolding mapped_frames_def by force
      moreover have "set xs \<subseteq> set ys \<union> pt_pages (mem v) d" using v(2) by (simp add: pt_step_def)
      ultimately show ?thesis by auto
    qed
    ultimately have "grown_range i d a (a + PGSIZE) s (x # xs) v ys"
      unfolding grown_range_def
      using w aligned_page_range [OF a(1)] pages [OF v(2)] sub page_ok_aligned [OF x(1)]
      by (intro conjI) (simp_all, blast)
    then show thesis using mapped t(1) x(4) v(1) by blast
  qed
qed

lemma grown_range_trans:
  assumes g1: "grown_range i d a c s xs t ys" and g2: "grown_range i d c b t ys u zs"
    and le: "a \<le> c" "c \<le> b \<or> b = c" and ready: "kmem_ready i s"
  shows "grown_range i d a b s xs u zs"
proof -
  have t: "pt_pages (mem t) d \<subseteq> pt_pages (mem s) d \<union> set xs" "pt_pages (mem s) d \<subseteq> pt_pages (mem t) d"
      "set ys \<subseteq> set xs" "vm_touch i s t"
    using g1 by (auto simp: grown_range_def)
  have u: "pt_pages (mem u) d \<subseteq> pt_pages (mem t) d \<union> set ys" "pt_pages (mem t) d \<subseteq> pt_pages (mem u) d"
      "set zs \<subseteq> set ys" "vm_touch i t u" "uspace i u d zs" "\<exists>ws. xs = ws @ zs"
    using g1 g2 by (auto simp: grown_range_def)
  have pok: "page_ok (kernelEnd s) p" if "p \<in> set ys \<union> pt_pages (mem t) d" for p
    using g1 that vm_touch_fields [OF t(4)] by (auto simp: grown_range_def uspace_def aspace_def pt_ok_def free_list_def)
  have keep: "mem u e = mem t e" if p: "page_aligned p" "in_page p e" "p \<notin> set ys" "p \<notin> pt_pages (mem t) d" for p e
  proof -
    have "\<not> in_page q e" if q: "q \<in> set ys \<union> pt_pages (mem t) d" for q
    proof
      assume "in_page q e"
      then have "q = p" using in_page_unique p(1,2) page_ok_aligned [OF pok [OF q]] by blast
      with q p show False by blast
    qed
    then show ?thesis using g2 by (simp add: grown_range_def)
  qed
  have "if a \<le> wa \<and> wa < b
      then \<exists>p \<in> set xs. walk (mem u) d wa = Some (user_entry p) \<and> zero_page (mem u) p \<and> page_aligned p \<and>
        p \<notin> set zs \<and> p \<notin> pt_pages (mem u) d
      else walk (mem u) d wa = walk (mem s) d wa" if wa: "page_aligned wa" for wa
  proof (cases "wa < c")
    case True
    then have uw: "walk (mem u) d wa = walk (mem t) d wa"
      using g2 wa unfolding grown_range_def by (metis not_le)
    show ?thesis
    proof (cases "a \<le> wa")
      case False
      then show ?thesis using uw g1 wa unfolding grown_range_def by auto
    next
      case le_a: True
      then obtain p where p: "p \<in> set xs" "walk (mem t) d wa = Some (user_entry p)" "zero_page (mem t) p"
          "page_aligned p" "p \<notin> set ys" "p \<notin> pt_pages (mem t) d"
        using g1 wa True unfolding grown_range_def by metis
      then have "zero_page (mem u) p" using keep by (auto simp: zero_page_def)
      moreover have "p \<notin> set zs" "p \<notin> pt_pages (mem u) d" using p u by auto
      moreover have "wa < b" using True le(2) by auto
      ultimately show ?thesis using p(1,2,4) uw le_a by auto
    qed
  next
    case False
    then have c: "c \<le> wa" "a \<le> wa" using le(1) by auto
    have tw: "walk (mem t) d wa = walk (mem s) d wa"
      using g1 wa False unfolding grown_range_def by metis
    show ?thesis
    proof (cases "wa < b")
      case True
      then obtain p where "p \<in> set ys" "walk (mem u) d wa = Some (user_entry p)" "zero_page (mem u) p"
          "page_aligned p" "p \<notin> set zs" "p \<notin> pt_pages (mem u) d"
        using g2 wa c(1) unfolding grown_range_def by metis
      then show ?thesis using True c t(3) by auto
    next
      case False
      then show ?thesis using g2 wa tw unfolding grown_range_def by auto
    qed
  qed
  moreover have "mem u e = mem s e" if e: "\<forall>p \<in> set xs \<union> pt_pages (mem s) d. \<not> in_page p e" for e
  proof -
    have "mem t e = mem s e" using g1 e by (simp add: grown_range_def)
    moreover have "mem u e = mem t e" using g2 e t unfolding grown_range_def by blast
    ultimately show ?thesis by simp
  qed
  moreover have "vm_touch i s u" using vm_touch_trans [OF ready t(4) u(4)] .
  moreover have "set xs \<subseteq> set zs \<union> pt_pages (mem u) d \<union> mapped_frames (mem u) d a b"
  proof -
    have "mapped_frames (mem t) d a c \<subseteq> mapped_frames (mem u) d a b"
    proof
      fix f assume "f \<in> mapped_frames (mem t) d a c"
      then obtain wa e where e: "f = frame e" "page_aligned wa" "a \<le> wa" "wa < c" "walk (mem t) d wa = Some e"
        by (auto simp: mapped_frames_def)
      then have "walk (mem u) d wa = Some e" using g2 unfolding grown_range_def by (metis not_le)
      moreover have "wa < b" using e(4) le(2) by auto
      ultimately show "f \<in> mapped_frames (mem u) d a b" using e unfolding mapped_frames_def by blast
    qed
    moreover have "mapped_frames (mem u) d c b \<subseteq> mapped_frames (mem u) d a b"
      using le(1) unfolding mapped_frames_def by force
    moreover have "set xs \<subseteq> set ys \<union> pt_pages (mem t) d \<union> mapped_frames (mem t) d a c"
        "set ys \<subseteq> set zs \<union> pt_pages (mem u) d \<union> mapped_frames (mem u) d c b"
      using g1 g2 by (simp_all add: grown_range_def)
    ultimately show ?thesis using u(2) by blast
  qed
  ultimately show ?thesis using t u unfolding grown_range_def by auto
qed

lemma literal_items:
  "concat (map item_source (map Literal msg)) = msg" "concat (map item_args (map Literal msg)) = []"
  by (induction msg) simp_all

lemma cprintf_text:
  assumes "cons_ready i s" and "CHR ''%'' \<notin> set msg" and "CHR 0x00 \<notin> set msg"
  shows "\<exists>e. cprintf (Some msg) [] s = Ret () ((cons_sync i s)\<lparr>cons := e\<rparr>) \<and> console_ok e"
proof -
  have "\<forall>it \<in> set (map Literal msg). kernel_item_ok it" using assms(2,3) by auto
  from cprintf_run [OF assms(1) this] obtain e
    where "cprintf (Some msg) [] s = Ret () ((cons_sync i s)\<lparr>cons := e\<rparr>)"
      "printed (concat (map item_codes (map Literal msg))) (cons s) e"
    unfolding literal_items by blast
  then show ?thesis unfolding printed_def by blast
qed

lemma cons_ready_touch:
  assumes "vm_touch i s t" "cons_ready i s"
  shows "cons_ready i t"
  using assms by (auto simp: vm_touch_def cons_ready_def kmem_sync_def split: if_splits)

lemma uspace_print:
  assumes "uspace i s d xs" "cons_ready i s"
  shows "uspace i ((cons_sync i s)\<lparr>cons := e\<rparr>) d xs"
proof -
  have "kmem_ready i ((cons_sync i s)\<lparr>cons := e\<rparr>)"
    using assms by (auto simp: uspace_def aspace_def kmem_ready_def cons_ready_def cons_sync_def)
  moreover have "mem ((cons_sync i s)\<lparr>cons := e\<rparr>) = mem s" "FreeList ((cons_sync i s)\<lparr>cons := e\<rparr>) = FreeList s"
      "kernelEnd ((cons_sync i s)\<lparr>cons := e\<rparr>) = kernelEnd s"
    by (simp_all add: cons_sync_def)
  ultimately show ?thesis
    using assms(1) by (simp add: uspace_def aspace_def free_list_def)
qed

lemma uspace_sync: "uspace i s d xs \<Longrightarrow> uspace i (kmem_sync i s) d xs"
  by (simp add: uspace_def aspace_def free_list_def)

lemma PGROUNDUP_le_aligned:
  assumes "page_aligned wa" "unat n \<le> 2147483648"
  shows "PGROUNDUP n \<le> wa \<longleftrightarrow> n \<le> wa"
proof -
  obtain k where k: "unat wa = 4096 * k" using assms(1) by (rule page_multiple)
  have up: "unat (PGROUNDUP n) = (unat n + 4095) div 4096 * 4096"
    using assms(2) by (intro unat_PGROUNDUP) linarith
  define q where "q = (unat n + 4095) div 4096"
  have q: "q * 4096 \<le> unat n + 4095" "unat n + 4095 < 4096 + 4096 * q"
    unfolding q_def by (rule div_times_less_eq_dividend, rule dividend_less_times_div) simp
  have "q \<le> k \<longleftrightarrow> unat n \<le> 4096 * k"
  proof
    assume "q \<le> k"
    then have "4096 * q \<le> 4096 * k" by simp
    then show "unat n \<le> 4096 * k" using q(2) by linarith
  next
    assume "unat n \<le> 4096 * k"
    then have "q * 4096 < (k + 1) * 4096" using q(1) by simp
    then show "q \<le> k" by simp
  qed
  then show ?thesis unfolding word_le_unat up q_def [symmetric] k by (simp add: mult.commute)
qed

text \<open>What the error path of the loop leaves: the pages mapped so far are released again.\<close>

lemma undo_growth:
  assumes us: "uspace i s d xs" "cons_ready i s"
    and msg: "CHR ''%'' \<notin> set msg" "CHR 0x00 \<notin> set msg"
    and sz: "oldsz < newsz" "newsz < KERNBASE"
    and w: "\<And>wa. page_aligned wa \<Longrightarrow> \<not> (PGROUNDUP oldsz \<le> wa \<and> wa < newsz) \<Longrightarrow> walk (mem s) d wa = walk m d wa"
    and n: "\<And>wa. page_aligned wa \<Longrightarrow> PGROUNDUP oldsz \<le> wa \<Longrightarrow> wa < newsz \<Longrightarrow> walk m d wa = None"
  shows "\<exists>t u ys. cprintf (Some msg) [] s = Ret () t \<and> releaseUserPages d newsz oldsz t = Ret oldsz u \<and>
    uspace i u d ys \<and> (\<forall>wa. page_aligned wa \<longrightarrow> walk (mem u) d wa = walk m d wa) \<and>
    set ys = set xs \<union> mapped_frames (mem s) d (PGROUNDUP oldsz) newsz \<and>
    pt_pages (mem u) d = pt_pages (mem s) d \<and> kernelEnd u = kernelEnd s"
proof -
  obtain e where e: "cprintf (Some msg) [] s = Ret () ((cons_sync i s)\<lparr>cons := e\<rparr>)"
    using cprintf_text [OF us(2) msg] by blast
  let ?t = "(cons_sync i s)\<lparr>cons := e\<rparr>"
  have t: "uspace i ?t d xs" "mem ?t = mem s" "kernelEnd ?t = kernelEnd s"
    using uspace_print [OF us] by (simp_all add: cons_sync_def)
  obtain u ys where u: "releaseUserPages d newsz oldsz ?t = Ret oldsz u"
      "released_range i d (PGROUNDUP oldsz) newsz ?t xs u ys"
    using releaseUserPages_run [OF t(1) less_imp_le [OF sz(2)] sz(1)] by blast
  have "walk (mem u) d wa = walk m d wa" if "page_aligned wa" for wa
    using u(2) that w n t(2) unfolding released_range_def by metis
  moreover have "kernelEnd u = kernelEnd s"
    using u(2) t(3) vm_touch_fields [of i ?t u] by (simp add: released_range_def)
  ultimately show ?thesis
    using e u t(2) unfolding released_range_def by auto
qed

text \<open>
  \<open>growth_undone\<close>: the mapping is what it was, and every page that the growth took is free again or became
  part of the page table, where later growth finds it.
\<close>

definition growth_undone :: "nat \<Rightarrow> u32 \<Rightarrow> 'a vm_scheme \<Rightarrow> u32 list \<Rightarrow> 'a vm_scheme \<Rightarrow> u32 list \<Rightarrow> bool" where
  "growth_undone i d s xs t ys \<longleftrightarrow> uspace i t d ys \<and> (\<forall>wa. page_aligned wa \<longrightarrow> walk (mem t) d wa = walk (mem s) d wa) \<and>
     set ys \<union> pt_pages (mem t) d = set xs \<union> pt_pages (mem s) d"

lemma PGROUNDUP_aligned_iff:
  assumes "page_aligned wa" "n < KERNBASE"
  shows "PGROUNDUP n \<le> wa \<longleftrightarrow> n \<le> wa" "wa < PGROUNDUP n \<longleftrightarrow> wa < n"
proof -
  show "PGROUNDUP n \<le> wa \<longleftrightarrow> n \<le> wa"
    using assms by (intro PGROUNDUP_le_aligned) (simp_all add: word_less_unat KERNBASE_def)
  then show "wa < PGROUNDUP n \<longleftrightarrow> wa < n" by (simp flip: not_le)
qed

definition unmapped :: "memory \<Rightarrow> u32 \<Rightarrow> u32 \<Rightarrow> u32 \<Rightarrow> bool" where
  "unmapped m d a b \<longleftrightarrow> (\<forall>wa. page_aligned wa \<longrightarrow> a \<le> wa \<longrightarrow> wa < b \<longrightarrow> walk m d wa = None)"

lemma grown_so_far:
  assumes g: "grown_range i d (PGROUNDUP oldsz) a s xs t zs" and a: "a \<le> PGROUNDUP newsz" "newsz < KERNBASE"
    and none: "unmapped (mem s) d (PGROUNDUP oldsz) newsz"
  shows "mapped_frames (mem t) d (PGROUNDUP oldsz) newsz \<union> (set zs \<union> pt_pages (mem t) d) = set xs \<union> pt_pages (mem s) d"
    "page_aligned wa \<Longrightarrow> \<not> (PGROUNDUP oldsz \<le> wa \<and> wa < newsz) \<Longrightarrow> walk (mem t) d wa = walk (mem s) d wa"
proof -
  have lt: "wa < newsz" if "page_aligned wa" "wa < a" for wa
    using PGROUNDUP_aligned_iff(2) [OF that(1) a(2)] that(2) a(1) by (metis less_le_trans)
  show "walk (mem t) d wa = walk (mem s) d wa" if "page_aligned wa" "\<not> (PGROUNDUP oldsz \<le> wa \<and> wa < newsz)" for wa
    using g that lt [OF that(1)] unfolding grown_range_def by metis
  have "mapped_frames (mem t) d (PGROUNDUP oldsz) newsz \<subseteq> set xs"
  proof
    fix f assume "f \<in> mapped_frames (mem t) d (PGROUNDUP oldsz) newsz"
    then obtain wa e where e: "f = frame e" "page_aligned wa" "PGROUNDUP oldsz \<le> wa" "wa < newsz" "walk (mem t) d wa = Some e"
      by (auto simp: mapped_frames_def)
    then have "wa < a" using g none e(2-4) unfolding grown_range_def unmapped_def by (metis option.distinct(1))
    then obtain p where "p \<in> set xs" "e = user_entry p" "page_aligned p"
      using g e unfolding grown_range_def by (metis option.inject)
    then show "f \<in> set xs" using e(1) frame_user_entry by simp
  qed
  moreover have "mapped_frames (mem t) d (PGROUNDUP oldsz) a \<subseteq> mapped_frames (mem t) d (PGROUNDUP oldsz) newsz"
    using lt unfolding mapped_frames_def by blast
  moreover have "set xs \<subseteq> set zs \<union> pt_pages (mem t) d \<union> mapped_frames (mem t) d (PGROUNDUP oldsz) a"
      "set zs \<subseteq> set xs" "pt_pages (mem s) d \<subseteq> pt_pages (mem t) d" "pt_pages (mem t) d \<subseteq> pt_pages (mem s) d \<union> set xs"
    using g by (auto simp: grown_range_def)
  ultimately show "mapped_frames (mem t) d (PGROUNDUP oldsz) newsz \<union> (set zs \<union> pt_pages (mem t) d) = set xs \<union> pt_pages (mem s) d"
    by blast
qed

lemma mapped_frames_cong: "(\<And>wa. page_aligned wa \<Longrightarrow> walk m d wa = walk m' d wa) \<Longrightarrow> mapped_frames m d a b = mapped_frames m' d a b"
  unfolding mapped_frames_def by (intro Collect_cong) metis

lemma allocate_loop_run:
  assumes "grown_range i d (PGROUNDUP oldsz) a s0 xs0 s xs" "uspace i s0 d xs0" "cons_ready i s0" "page_aligned a"
    and "PGROUNDUP oldsz \<le> a" "a \<le> PGROUNDUP newsz" "newsz < KERNBASE" "oldsz \<le> newsz"
    and "unmapped (mem s0) d (PGROUNDUP oldsz) newsz"
    and "(unat newsz - unat a + 4095) div 4096 \<le> n"
  shows "\<exists>r t ys. allocateMemoryAndPageTables_loop n d a oldsz newsz s = Ret r t \<and>
    (r = newsz \<and> grown_range i d (PGROUNDUP oldsz) (PGROUNDUP newsz) s0 xs0 t ys \<or> r = 0 \<and> growth_undone i d s0 xs0 t ys)"
  using assms(1,4-6,10)
proof (induction n arbitrary: a s xs)
  case 0
  then have "\<not> a < newsz" by (simp add: word_less_unat)
  then have "a = PGROUNDUP newsz"
    using 0(4) PGROUNDUP_aligned_iff [OF 0(2) assms(7)] by (metis order.not_eq_order_implies_strict)
  then show ?case using 0(1) \<open>\<not> a < newsz\<close> by auto
next
  case (Suc n)
  note g = Suc.prems(1) and none = assms(9)
  have us: "uspace i s d xs" "vm_touch i s0 s" using g by (simp_all add: grown_range_def)
  have ready: "kmem_ready i s0" "cons_ready i s" using assms(2) cons_ready_touch [OF us(2) assms(3)] by (simp_all add: uspace_def aspace_def)
  note F = grown_so_far [OF g Suc.prems(4) assms(7) none]
  show ?case
  proof (cases "a < newsz")
    case False
    then have "a = PGROUNDUP newsz"
      using Suc.prems(4) PGROUNDUP_aligned_iff [OF Suc.prems(2) assms(7)] by (metis order.not_eq_order_implies_strict)
    then show ?thesis using g False by auto
  next
    case True
    have old: "oldsz < newsz"
      using True Suc.prems(3) PGROUNDUP_aligned_iff(1) [OF PGROUNDUP_aligned, of oldsz oldsz] assms(7,8) by (metis le_less_trans order_refl)
    have un: "walk (mem s) d a = None"
      using g Suc.prems(2,3) none True unfolding grown_range_def unmapped_def by (metis order.strict_iff_order)
    let ?msg1 = "''allocateMemoryAndPageTables out of memory'' @ [CHR 0x0A]" and ?msg2 = "''allocateMemoryAndPageTables out of memory (2)'' @ [CHR 0x0A]"
    have msg: "CHR ''%'' \<notin> set ?msg1" "CHR 0x00 \<notin> set ?msg1" "CHR ''%'' \<notin> set ?msg2" "CHR 0x00 \<notin> set ?msg2" by simp_all
    show ?thesis
    proof (cases xs)
      case Nil
      let ?v = "kmem_sync i s"
      have v: "uspace i ?v d []" "cons_ready i ?v" "mem ?v = mem s"
        using uspace_sync [OF us(1)] Nil ready(2) by (simp, auto simp: cons_ready_def kmem_sync_def)
      have al: "allocatePhysicalMemoryPage s = Ret 0 ?v"
        using us(1) Nil by (intro free_list_alloc_empty) (simp_all add: uspace_def aspace_def)
      obtain t u ys where u: "cprintf (Some ?msg1) [] ?v = Ret () t" "releaseUserPages d newsz oldsz t = Ret oldsz u"
          "uspace i u d ys" "\<forall>wa. page_aligned wa \<longrightarrow> walk (mem u) d wa = walk (mem s0) d wa"
          "set ys = set [] \<union> mapped_frames (mem ?v) d (PGROUNDUP oldsz) newsz" "pt_pages (mem u) d = pt_pages (mem ?v) d"
        using undo_growth [OF v(1,2) msg(1,2) old assms(7), of "mem s0"] F(2) none [unfolded unmapped_def] unfolding v(3) by blast
      then have "growth_undone i d s0 xs0 u ys" using F(1) Nil v(3) by (auto simp: growth_undone_def)
      then show ?thesis using u(1,2) al True by (auto simp: kmonad)
    next
      case (Cons x xs')
      have a: "a < KERNBASE" "unat a + 4096 < 4294967296"
        using True assms(7) by (auto simp: word_less_unat KERNBASE_def)
      show ?thesis
      proof (rule grow_page [OF us(1) [unfolded Cons] Suc.prems(2) a(1) un])
        fix t v
        assume v: "allocatePhysicalMemoryPage s = Ret x t" "x \<noteq> 0"
          "createPageTableEntries d a PGSIZE (V2P x) (PTE_W OR PTE_U) (t\<lparr>mem := memset (mem t) x 0 PGSIZE\<rparr>) = Ret (-1) v"
          "uspace i v d []" "vm_touch i s v" "\<And>wa. walk (mem v) d wa = walk (mem s) d wa"
          "page_ok (kernelEnd s) x" "x \<notin> pt_pages (mem v) d" "pt_pages (mem v) d = pt_pages (mem s) d \<union> set xs'"
          "\<And>wa e. page_aligned wa \<Longrightarrow> wa < KERNBASE \<Longrightarrow> walk (mem s) d wa = Some e \<Longrightarrow> frame e \<noteq> x"
        obtain w u ys where u: "cprintf (Some ?msg2) [] v = Ret () w" "releaseUserPages d newsz oldsz w = Ret oldsz u"
            "uspace i u d ys" "\<forall>wa. page_aligned wa \<longrightarrow> walk (mem u) d wa = walk (mem s0) d wa"
            "set ys = set [] \<union> mapped_frames (mem v) d (PGROUNDUP oldsz) newsz" "pt_pages (mem u) d = pt_pages (mem v) d"
            "kernelEnd u = kernelEnd v"
          using undo_growth [OF v(4) cons_ready_touch [OF v(5) ready(2)] msg(3,4) old assms(7), of "mem s0"] F(2) none [unfolded unmapped_def] unfolding v(6) by blast
        have ke: "kernelEnd u = kernelEnd s" using u(7) vm_touch_fields [OF v(5)] by simp
        have mf: "mapped_frames (mem v) d (PGROUNDUP oldsz) newsz = mapped_frames (mem s) d (PGROUNDUP oldsz) newsz"
          by (rule mapped_frames_cong) (rule v(6))
        have "x \<notin> mapped_frames (mem s) d (PGROUNDUP oldsz) newsz" using v(10) assms(7) unfolding mapped_frames_def by (auto dest: less_trans)
        then have "x \<notin> set ys" using u(5) mf by simp
        moreover have "x \<notin> pt_pages (mem u) d" using u(6) v(8) by simp
        ultimately obtain f where f: "freePhysicalMemoryPage x u = Ret () f" "aspace i f d (x # ys)" "vm_touch i u f"
            "pt_pages (mem f) d = pt_pages (mem u) d" "\<forall>wa. walk (mem f) d wa = walk (mem u) d wa"
          using free_outside_pages [OF uspace_aspace [OF u(3)], of x] v(7) ke by metis
        have "frame e \<noteq> x" if "page_aligned wa" "wa < KERNBASE" "walk (mem u) d wa = Some e" for wa e
        proof -
          have "walk (mem s0) d wa = Some e" using that u(4) by metis
          then have "walk (mem s) d wa = Some e" using F(2) [OF that(1)] none that(1) unfolding unmapped_def by (metis option.distinct(1))
          then show ?thesis using v(10) that by blast
        qed
        then have "uspace i f d (x # ys)"
          using u(3) f(2,4,5) vm_touch_fields [OF f(3)] unfolding uspace_def by auto
        moreover have "set (x # ys) \<union> pt_pages (mem f) d = set xs0 \<union> pt_pages (mem s0) d"
          using F(1) u(5,6) f(4) v(9) Cons mf by auto
        ultimately have "growth_undone i d s0 xs0 f (x # ys)" using f(5) u(4) by (simp add: growth_undone_def)
        then show ?thesis using u(1,2) f(1) v(1,2,3) True by (auto simp: kmonad zeroPage_def)
      next
        fix t v ys
        assume v: "allocatePhysicalMemoryPage s = Ret x t" "x \<noteq> 0"
          "createPageTableEntries d a PGSIZE (V2P x) (PTE_W OR PTE_U) (t\<lparr>mem := memset (mem t) x 0 PGSIZE\<rparr>) = Ret 0 v"
          "grown_range i d a (a + PGSIZE) s (x # xs') v ys"
        have un: "unat (a + PGSIZE) = unat a + 4096" using a(2) unfolding PGSIZE_def by (subst unat_add_u32) simp_all
        have le: "a \<le> a + PGSIZE" using un by (simp add: word_le_unat)
        have al: "page_aligned (a + PGSIZE)" using Suc.prems(2) by (rule next_page_aligned)
        have up: "a + PGSIZE \<le> PGROUNDUP newsz"
          using aligned_interval [OF Suc.prems(2) PGROUNDUP_aligned a(2), of newsz] Suc.prems(4)
            PGROUNDUP_aligned_iff(2) [OF Suc.prems(2) assms(7)] True by auto
        have gr: "grown_range i d (PGROUNDUP oldsz) (a + PGSIZE) s0 xs0 v ys"
          by (rule grown_range_trans [OF g v(4) [folded Cons] Suc.prems(3) _ ready(1)]) (use le in simp)
        have fuel: "(unat newsz - unat (a + PGSIZE) + 4095) div 4096 \<le> n"
          by (rule fuel_step [OF Suc.prems(5)]) (simp add: un)
        from Suc.IH [OF gr al order_trans [OF Suc.prems(3) le] up fuel] show ?thesis
          using v(1-3) True by (simp add: kmonad zeroPage_def)
      qed
    qed
  qed
qed

section \<open>Properties\<close>

text \<open>
  C10: growing a process is all or nothing.  When no page of the new range is mapped,
  \<^verbatim>\<open>allocateMemoryAndPageTables\<close> returns.  Either it returns the new size and every page of the range is
  mapped, writable for the user, to a zero-filled page of its own taken from the free list, with the other
  mappings and all other memory unchanged; or it returns 0, no mapping has changed, and every page it
  took is back on the free list or has become part of the page table.  A size at or above \<^verbatim>\<open>KERNBASE\<close> returns 0
  and a smaller size returns the old one, both without any effect.
\<close>

theorem grow_all_or_nothing:
  assumes "uspace i s d xs" "cons_ready i s" "unmapped (mem s) d (PGROUNDUP oldsz) newsz"
  shows "\<exists>r t ys. allocateMemoryAndPageTables d oldsz newsz s = Ret r t \<and>
    (if KERNBASE \<le> newsz then r = 0 \<and> t = s else if newsz < oldsz then r = oldsz \<and> t = s
     else r = newsz \<and> grown_range i d (PGROUNDUP oldsz) (PGROUNDUP newsz) s xs t ys \<or> r = 0 \<and> growth_undone i d s xs t ys)"
proof (cases "newsz < KERNBASE \<and> oldsz \<le> newsz")
  case True
  have up: "PGROUNDUP oldsz \<le> PGROUNDUP newsz"
    using True PGROUNDUP_aligned_iff(1) [OF PGROUNDUP_aligned, of oldsz newsz]
      PGROUNDUP_aligned_iff(1) [OF PGROUNDUP_aligned, of newsz newsz] by (metis le_less_trans order_refl order_trans)
  have "unat newsz - unat (PGROUNDUP oldsz) + 4095 \<le> 2147483648 + 4095"
    using True by (auto simp: word_less_unat KERNBASE_def)
  then have "(unat newsz - unat (PGROUNDUP oldsz) + 4095) div 4096 \<le> (2147483648 + 4095) div 4096" by (rule div_le_mono)
  then have "(unat newsz - unat (PGROUNDUP oldsz) + 4095) div 4096 \<le> 0x100000" by simp
  note run = allocate_loop_run [OF grown_range_empty [OF assms(1) less_irrefl] assms(1,2) PGROUNDUP_aligned order_refl up
      conjunct1 [OF True] conjunct2 [OF True] assms(3) this]
  have "(KERNBASE \<le> newsz) = False" "(newsz < oldsz) = False" using True by auto
  then show ?thesis using run by (simp only: allocateMemoryAndPageTables_def if_False)
qed (auto simp: allocateMemoryAndPageTables_def)

definition boot_vm :: vm where
  "boot_vm = console.extend boot_console \<lparr>mmu = blank_mmu\<rparr>"

lemma boot_space: "uspace 0 boot_vm 0x80400000 []" "cons_ready 0 boot_vm" "walk (mem boot_vm) d wa = None"
proof -
  have m: "mem boot_vm = (\<lambda>_. 0)" "kernelEnd boot_vm = 0x80110000" "FreeList boot_vm = 0" "UseLock boot_vm = 0"
    by (simp_all add: boot_vm_def boot_console_def boot_kalloc_def console.defs kalloc.defs)
  have z: "\<not> has_table (\<lambda>_. 0) d j" for d j by (simp add: has_table_def pde_at_def load32_def)
  then show w: "walk (mem boot_vm) d wa = None" for d wa by (simp add: m walk_def)
  have p: "pt_pages (\<lambda>_. 0) 0x80400000 = {0x80400000}" using z by (simp add: pt_pages_def)
  have "page_ok 0x80110000 0x80400000" by (simp add: page_ok_def page_aligned_def V2P_def const_defs)
  then have "aspace 0 boot_vm 0x80400000 []"
    unfolding aspace_def pt_ok_def m p using z by (simp add: kmem_ready_def free_list_def m)
  then show "uspace 0 boot_vm 0x80400000 []" using w by (intro uspaceI) (simp_all add: m KERNBASE_def)
  show "cons_ready 0 boot_vm"
    by (simp add: cons_ready_def boot_vm_def boot_console_def boot_kalloc_def blank_console_def kalloc.defs console.defs console_ok_def
        cursor_def cpu_ok_def cpu_index_def lock_free_def unlocked_def boot_cpu_def)
qed

theorem grow_all_or_nothing_witness:
  "\<exists>t. allocateMemoryAndPageTables 0x80400000 0 PGSIZE boot_vm = Ret 0 t \<and> walk (mem t) 0x80400000 0 = None"
proof -
  have n: "unmapped (mem boot_vm) 0x80400000 (PGROUNDUP 0) PGSIZE" using boot_space(3) by (simp add: unmapped_def)
  have z: "PGROUNDUP 0 = 0" "PGROUNDUP PGSIZE = PGSIZE" "page_aligned 0" "\<not> KERNBASE \<le> PGSIZE"
    by (simp_all add: PGROUNDUP_def page_aligned_def const_defs)
  obtain r t ys where t: "allocateMemoryAndPageTables 0x80400000 0 PGSIZE boot_vm = Ret r t"
      "r = PGSIZE \<and> grown_range 0 0x80400000 0 PGSIZE boot_vm [] t ys \<or> r = 0 \<and> growth_undone 0 0x80400000 boot_vm [] t ys"
    using grow_all_or_nothing [OF boot_space(1,2) n] unfolding z using z(4) by auto
  have "\<not> grown_range 0 0x80400000 0 PGSIZE boot_vm [] t ys"
    using z(3) unfolding grown_range_def by (auto simp: PGSIZE_def)
  then show ?thesis using t boot_space(3) z(3) by (auto simp: growth_undone_def)
qed

end
