(* ===== verification/Proc.thy ===== *)
theory Proc
  imports FileTable Uvm
begin

text \<open>
  Creating, growing, ending and reaping processes (\<^verbatim>\<open>proc.c\<close>).  The trap frame and the initial context of
  a process live in the byte memory, in its kernel stack page; the addresses of \<^verbatim>\<open>trapret\<close> and
  \<^verbatim>\<open>forkret\<close>, which the linker chooses, are arguments.  \<^verbatim>\<open>wait\<close> stops at the switch inside \<^verbatim>\<open>sleep\<close> like the
  operations of \<open>Pipe\<close>, and \<^verbatim>\<open>exit\<close> at its final switch, from which it never comes back.
\<close>

section \<open>Definitions\<close>

definition sizeofTrapframe :: u32 where [const_defs]: "sizeofTrapframe = 76"
definition sizeofContext :: u32 where [const_defs]: "sizeofContext = 20"

definition store16 :: "memory \<Rightarrow> u32 \<Rightarrow> u16 \<Rightarrow> memory" where
  "store16 m a v = m(a := ucast v, a + 1 := ucast (drop_bit 8 v))"

definition load16 :: "memory \<Rightarrow> u32 \<Rightarrow> u16" where
  "load16 m a = ucast (m a) OR push_bit 8 (ucast (m (a + 1)))"

definition updMem :: "(memory \<Rightarrow> memory) \<Rightarrow> ('a kalloc_scheme, unit) op" where
  "updMem f = modifyK (\<lambda>s. s\<lparr>mem := f (mem s)\<rparr>)"

text \<open>Offsets of the fields of \<^verbatim>\<open>struct Trapframe\<close> and of \<^verbatim>\<open>eip\<close> in \<^verbatim>\<open>struct _Context\<close>.\<close>

definition tf_eax :: u32 where [const_defs]: "tf_eax = 28"
definition tf_es :: u32 where [const_defs]: "tf_es = 40"
definition tf_ds :: u32 where [const_defs]: "tf_ds = 44"
definition tf_trapno :: u32 where [const_defs]: "tf_trapno = 48"
definition tf_err :: u32 where [const_defs]: "tf_err = 52"
definition tf_eip :: u32 where [const_defs]: "tf_eip = 56"
definition tf_cs :: u32 where [const_defs]: "tf_cs = 60"
definition tf_eflags :: u32 where [const_defs]: "tf_eflags = 64"
definition tf_esp :: u32 where [const_defs]: "tf_esp = 68"
definition tf_ss :: u32 where [const_defs]: "tf_ss = 72"
definition ctx_eip :: u32 where [const_defs]: "ctx_eip = 16"

definition SEG_UCODE :: u16 where [const_defs]: "SEG_UCODE = 3"
definition SEG_UDATA :: u16 where [const_defs]: "SEG_UDATA = 4"
definition DPL_USER :: u16 where [const_defs]: "DPL_USER = 3"

text \<open>\<open>copyString n src\<close> is the text \<^verbatim>\<open>safestrcpy\<close> leaves in an array of \<open>n\<close> characters.\<close>

definition copyString :: "nat \<Rightarrow> string \<Rightarrow> string" where
  "copyString n src = take (n - 1) src"

definition updTable :: "(ProcessTable \<Rightarrow> ProcessTable) \<Rightarrow> ('a kproc_scheme, unit) op" where
  "updTable f = modifyK (\<lambda>s. s\<lparr>processTable := f (processTable s)\<rparr>)"

definition consoleFile :: "File \<Rightarrow> File" where
  "consoleFile x = x\<lparr>Type := FD_DEVICE, DeviceID := 0, Readable := 1, Writable := 1\<rparr>"

definition setOpenFile :: "nat \<Rightarrow> nat \<Rightarrow> nat option \<Rightarrow> ('a kproc_scheme, unit) op" where
  "setOpenFile k fd f = updProc k (\<lambda>p. p\<lparr>OpenFile := (OpenFile p)[fd := f]\<rparr>)"

definition allocateProcess :: "u32 \<Rightarrow> u32 \<Rightarrow> ('a kfile_scheme, nat option) op" where
  "allocateProcess trapret forkret =
     bindK (spinlockAcquire ProcessTableLock) (\<lambda>_.
     bindK (getK (\<lambda>s. findIndex (\<lambda>p. State p = UNUSED) (procs s))) (\<lambda>found.
     case found of
       None \<Rightarrow> bindK (spinlockRelease ProcessTableLock) (\<lambda>_. returnK None)
     | Some k \<Rightarrow>
         bindK (updProc k (\<lambda>p. p\<lparr>State := EMBRYO\<rparr>)) (\<lambda>_.
         bindK (getK (\<lambda>s. nextpid (processTable s))) (\<lambda>pid.
         bindK (updTable (\<lambda>t. t\<lparr>nextpid := nextpid t + 1\<rparr>)) (\<lambda>_.
         bindK (updProc k (\<lambda>p. p\<lparr>ProcessId := pid\<rparr>)) (\<lambda>_.
         bindK (spinlockRelease ProcessTableLock) (\<lambda>_.
         bindK allocatePhysicalMemoryPage (\<lambda>stack.
         bindK (updProc k (\<lambda>p. p\<lparr>KernelStack := stack\<rparr>)) (\<lambda>_.
         if stack = 0 then bindK (updProc k (\<lambda>p. p\<lparr>State := UNUSED\<rparr>)) (\<lambda>_. returnK None)
         else let tf = stack + KSTACKSIZE - sizeofTrapframe; ret = tf - 4; ctx = ret - sizeofContext in
           bindK (updProc k (\<lambda>p. p\<lparr>Trapframe := tf\<rparr>)) (\<lambda>_.
           bindK (updMem (\<lambda>m. store32 m ret trapret)) (\<lambda>_.
           bindK (updProc k (\<lambda>p. p\<lparr>Context := ctx\<rparr>)) (\<lambda>_.
           bindK (updMem (\<lambda>m. memset m ctx 0 sizeofContext)) (\<lambda>_.
           bindK (updMem (\<lambda>m. store32 m (ctx + ctx_eip) forkret)) (\<lambda>_.
           bindK allocateFileStructure (\<lambda>consoleDevice.
           case consoleDevice of
             None \<Rightarrow> faultK
           | Some f \<Rightarrow>
               bindK (updFile f consoleFile) (\<lambda>_.
               bindK (setOpenFile k 0 (Some f)) (\<lambda>_.
               bindK (fileDup f) (\<lambda>f1.
               bindK (setOpenFile k 1 (Some f1)) (\<lambda>_.
               bindK (fileDup f) (\<lambda>f2.
               bindK (setOpenFile k 2 (Some f2)) (\<lambda>_.
               returnK (Some k))))))))))))))))))))))"

definition initialiseFirstUserProcess :: "u32 \<Rightarrow> u32 \<Rightarrow> byte list \<Rightarrow> ('a kfile_scheme, unit) op" where
  "initialiseFirstUserProcess trapret forkret initcode =
     bindK (allocateProcess trapret forkret) (\<lambda>np.
     bindK (updTable (\<lambda>t. t\<lparr>initproc := np\<rparr>)) (\<lambda>_.
     case np of None \<Rightarrow> faultK
     | Some k \<Rightarrow>
         bindK setupKernelVirtualMemory (\<lambda>d.
         bindK (updProc k (\<lambda>p. p\<lparr>PageTable := d\<rparr>)) (\<lambda>_.
         if d = 0 then panicK ''initialiseFirstUserProcess: out of memory?''
         else bindK (initialiseUserVirtualMemory d initcode) (\<lambda>_.
           bindK (updProc k (\<lambda>p. p\<lparr>MemorySize := PGSIZE\<rparr>)) (\<lambda>_.
           bindK (getProc k) (\<lambda>p. let tf = Trapframe p; udata = push_bit 3 SEG_UDATA OR DPL_USER in
           bindK (updMem (\<lambda>m. memset m tf 0 sizeofTrapframe)) (\<lambda>_.
           bindK (updMem (\<lambda>m. store16 m (tf + tf_cs) (push_bit 3 SEG_UCODE OR DPL_USER))) (\<lambda>_.
           bindK (updMem (\<lambda>m. store16 m (tf + tf_ds) udata)) (\<lambda>_.
           bindK (updMem (\<lambda>m. store16 m (tf + tf_es) (load16 m (tf + tf_ds)))) (\<lambda>_.
           bindK (updMem (\<lambda>m. store16 m (tf + tf_ss) (load16 m (tf + tf_ds)))) (\<lambda>_.
           bindK (updMem (\<lambda>m. store32 m (tf + tf_eflags) FL_IF)) (\<lambda>_.
           bindK (updMem (\<lambda>m. store32 m (tf + tf_esp) PGSIZE)) (\<lambda>_.
           bindK (updMem (\<lambda>m. store32 m (tf + tf_eip) 0)) (\<lambda>_.
           bindK (updProc k (\<lambda>p. p\<lparr>Name := copyString 16 ''initcode''\<rparr>)) (\<lambda>_.
           bindK (updProc k (\<lambda>p. p\<lparr>Cwd := copyString 200 ''/''\<rparr>)) (\<lambda>_.
           bindK (spinlockAcquire ProcessTableLock) (\<lambda>_.
           bindK (updProc k (\<lambda>p. p\<lparr>State := RUNNABLE\<rparr>)) (\<lambda>_.
           spinlockRelease ProcessTableLock)))))))))))))))))))"

definition growProcess :: "int \<Rightarrow> ('a kfile_scheme, int) op" where
  "growProcess n =
     bindK currentProcess (\<lambda>k.
     bindK (getProc k) (\<lambda>p.
     let old = MemorySize p; finish = (\<lambda>memorySize.
       bindK (updProc k (\<lambda>p. p\<lparr>MemorySize := memorySize\<rparr>)) (\<lambda>_.
       bindK (getProc k) (\<lambda>p.
       bindK (switchToUserVirtualMemory (Some (KernelStack p, PageTable p))) (\<lambda>_.
       returnK 0)))) in
     if n > 0 then
       bindK (allocateMemoryAndPageTables (PageTable p) old (old + word_of_int n)) (\<lambda>r.
       if r = 0 then returnK (-1) else finish r)
     else if n < 0 then
       bindK (releaseUserPages (PageTable p) old (old + word_of_int n)) (\<lambda>r.
       if r = 0 then returnK (-1) else finish r)
     else finish old))"

definition fork :: "u32 \<Rightarrow> u32 \<Rightarrow> ('a kfile_scheme, int) op" where
  "fork trapret forkret =
     bindK currentProcess (\<lambda>c.
     bindK (allocateProcess trapret forkret) (\<lambda>np.
     case np of None \<Rightarrow> returnK (-1)
     | Some n \<Rightarrow>
         bindK (getProc c) (\<lambda>cur.
         bindK (copyProcessPageTable (PageTable cur) (MemorySize cur)) (\<lambda>d.
         bindK (updProc n (\<lambda>p. p\<lparr>PageTable := d\<rparr>)) (\<lambda>_.
         if d = 0 then
           bindK (getProc n) (\<lambda>p.
           bindK (freePhysicalMemoryPage (KernelStack p)) (\<lambda>_.
           bindK (updProc n (\<lambda>p. p\<lparr>KernelStack := 0\<rparr>)) (\<lambda>_.
           bindK (updProc n (\<lambda>p. p\<lparr>State := UNUSED\<rparr>)) (\<lambda>_.
           returnK (-1)))))
         else
           bindK (updProc n (\<lambda>p. p\<lparr>MemorySize := MemorySize cur\<rparr>)) (\<lambda>_.
           bindK (updProc n (\<lambda>p. p\<lparr>Parent := Some c\<rparr>)) (\<lambda>_.
           bindK (getProc n) (\<lambda>p.
           bindK (updMem (\<lambda>m. memmove m (Trapframe p) (Trapframe cur) sizeofTrapframe)) (\<lambda>_.
           bindK (updMem (\<lambda>m. store32 m (Trapframe p + tf_eax) 0)) (\<lambda>_.
           bindK (foreachK [0..<NOFILE] (\<lambda>fd.
             bindK (getProc c) (\<lambda>cur.
             case OpenFile cur ! fd of None \<Rightarrow> returnK ()
             | Some f \<Rightarrow> bindK (fileDup f) (\<lambda>g. setOpenFile n fd (Some g))))) (\<lambda>_.
           bindK (updProc n (\<lambda>p. p\<lparr>Cwd := copyString 200 (Cwd cur)\<rparr>)) (\<lambda>_.
           bindK (updProc n (\<lambda>p. p\<lparr>Name := copyString 16 (Name cur)\<rparr>)) (\<lambda>_.
           bindK (getProc n) (\<lambda>p.
           bindK (spinlockAcquire ProcessTableLock) (\<lambda>_.
           bindK (updProc n (\<lambda>p. p\<lparr>State := RUNNABLE\<rparr>)) (\<lambda>_.
           bindK (spinlockRelease ProcessTableLock) (\<lambda>_.
           returnK (ProcessId p))))))))))))))))))"

definition processChan :: "nat option \<Rightarrow> chan" where
  "processChan p = (case p of None \<Rightarrow> NullChan | Some k \<Rightarrow> ProcessChan k)"

definition exit_enter :: "('a kfile_scheme, u32) op" where
  "exit_enter =
     bindK currentProcess (\<lambda>c.
     bindK (getK (\<lambda>s. initproc (processTable s))) (\<lambda>ip.
     if Some c = ip then panicK ''init exiting''
     else
       bindK (foreachK [0..<NOFILE] (\<lambda>fd.
         bindK (getProc c) (\<lambda>cur.
         case OpenFile cur ! fd of None \<Rightarrow> returnK ()
         | Some f \<Rightarrow> bindK (fileClose f) (\<lambda>_. setOpenFile c fd None)))) (\<lambda>_.
       bindK (updProc c (\<lambda>p. p\<lparr>Cwd := copyString 200 []\<rparr>)) (\<lambda>_.
       bindK (spinlockAcquire ProcessTableLock) (\<lambda>_.
       bindK (getProc c) (\<lambda>cur.
       bindK (wakeup1 (processChan (Parent cur))) (\<lambda>_.
       bindK (foreachK [0..<NPROC] (\<lambda>k.
         bindK (getProc k) (\<lambda>p.
         whenK (Parent p = Some c)
           (bindK (updProc k (\<lambda>p. p\<lparr>Parent := ip\<rparr>)) (\<lambda>_.
            bindK (getProc k) (\<lambda>p.
            whenK (State p = ZOMBIE) (wakeup1 (processChan ip))))))) ) (\<lambda>_.
       bindK (updProc c (\<lambda>p. p\<lparr>State := ZOMBIE\<rparr>)) (\<lambda>_.
       sched_enter)))))))))"

definition exit_resumed :: "u32 \<Rightarrow> ('a kfile_scheme, unit) op" where
  "exit_resumed intena = bindK (sched_exit intena) (\<lambda>_. panicK ''zombie exit'')"

fun wait_scan :: "nat \<Rightarrow> nat list \<Rightarrow> bool \<Rightarrow> ('a kfile_scheme, int + bool) op" where
  "wait_scan c [] havekids = returnK (Inr havekids)"
| "wait_scan c (k # ks) havekids =
     bindK (getProc k) (\<lambda>p.
     if Parent p \<noteq> Some c then wait_scan c ks havekids
     else if State p = ZOMBIE then
       bindK (freePhysicalMemoryPage (KernelStack p)) (\<lambda>_.
       bindK (updProc k (\<lambda>p. p\<lparr>KernelStack := 0\<rparr>)) (\<lambda>_.
       bindK (freeMemoryAndPageTable (PageTable p)) (\<lambda>_.
       bindK (updProc k (\<lambda>p. p\<lparr>ProcessId := 0, Parent := None, Name := [], IsKilled := 0, State := UNUSED\<rparr>)) (\<lambda>_.
       bindK (spinlockRelease ProcessTableLock) (\<lambda>_.
       returnK (Inl (ProcessId p)))))))
     else wait_scan c ks True)"

definition wait_loop :: "nat \<Rightarrow> ('a kfile_scheme, int progress) op" where
  "wait_loop c =
     bindK (wait_scan c [0..<NPROC] False) (\<lambda>r.
     case r of Inl pid \<Rightarrow> returnK (Returned pid)
     | Inr havekids \<Rightarrow>
         bindK (getProc c) (\<lambda>cur.
         if \<not> havekids \<or> IsKilled cur \<noteq> 0
         then bindK (spinlockRelease ProcessTableLock) (\<lambda>_. returnK (Returned (-1)))
         else bindK (sleep_enter (ProcessChan c) (Some ProcessTableLock)) (\<lambda>local. returnK (Asleep local 0))))"

definition wait :: "('a kfile_scheme, int progress) op" where
  "wait = bindK currentProcess (\<lambda>c. bindK (spinlockAcquire ProcessTableLock) (\<lambda>_. wait_loop c))"

definition wait_resume :: "nat \<Rightarrow> nat \<times> u32 \<Rightarrow> ('a kfile_scheme, int progress) op" where
  "wait_resume c local = bindK (sleep_exit ProcessTableLock local) (\<lambda>_. wait_loop c)"

end
