(* ===== verification/Apic.thy ===== *)
theory Apic
  imports Fat Proc
begin

text \<open>
  The interrupt controllers and the clock chip (\<^verbatim>\<open>lapic.c\<close>, \<^verbatim>\<open>ioapic.c\<close>, \<^verbatim>\<open>picirq.c\<close>, \<^verbatim>\<open>date.h\<close>) and the search for the
  multiprocessor tables (\<^verbatim>\<open>mp.c\<close>, \<^verbatim>\<open>mp.h\<close>).  The registers of the local APIC and of the I/O APIC are functions from indices to
  words; the bytes that go to the ports of the two 8259A controllers, of the clock chip and of the interrupt mode register
  are a log.  The clock advances on its own: \<open>rtc n i\<close> is register \<open>i\<close> at the \<open>n\<close>-th read.  The delivery status of the
  command register belongs to the hardware; a wait for a message that is not delivered is \<open>Hang\<close>.
\<close>

unbundle bit_operations_syntax

section \<open>Definitions\<close>

subsection \<open>State\<close>

record ApicState =
  localApic :: u32
  lapicReg :: "u32 \<Rightarrow> u32"
  ioApicPtr :: u32
  ioApicSel :: u32
  ioApicReg :: "u32 \<Rightarrow> u32"
  ioapicid :: byte
  portLog :: "(u16 \<times> byte) list"
  portIn :: "u16 \<Rightarrow> byte"
  rtc :: "nat \<Rightarrow> byte \<Rightarrow> byte"
  rtcReads :: nat
  cmosIndex :: byte

record kapic = kfat +
  apic :: ApicState

interpretation apic_field: hw_field apic apic_update by unfold_locales simp_all

definition updApic :: "(ApicState \<Rightarrow> ApicState) \<Rightarrow> ('a kapic_scheme, unit) op" where
  "updApic f = modifyK (\<lambda>s. s\<lparr>apic := f (apic s)\<rparr>)"

definition outputByteToPort :: "u16 \<Rightarrow> byte \<Rightarrow> ('a kapic_scheme, unit) op" where
  "outputByteToPort port v =
     updApic (\<lambda>d. d\<lparr>portLog := portLog d @ [(port, v)], cmosIndex := if port = 0x70 then v else cmosIndex d\<rparr>)"

definition inputByteFromPort :: "u16 \<Rightarrow> ('a kapic_scheme, byte) op" where
  "inputByteFromPort port =
     (if port = 0x71
      then bindK (getK (\<lambda>s. rtc (apic s) (rtcReads (apic s)) (cmosIndex (apic s)))) (\<lambda>v.
           bindK (updApic (\<lambda>d. d\<lparr>rtcReads := Suc (rtcReads d)\<rparr>)) (\<lambda>_. returnK v))
      else getK (\<lambda>s. portIn (apic s) port))"

definition T_IRQ0 :: u32 where [const_defs]: "T_IRQ0 = 32"
definition IRQ_TIMER :: u32 where [const_defs]: "IRQ_TIMER = 0"
definition IRQ_KBD :: u32 where [const_defs]: "IRQ_KBD = 1"
definition IRQ_COM1 :: u32 where [const_defs]: "IRQ_COM1 = 4"
definition IRQ_IDE :: u32 where [const_defs]: "IRQ_IDE = 14"
definition IRQ_ERROR :: u32 where [const_defs]: "IRQ_ERROR = 19"
definition IRQ_SPURIOUS :: u32 where [const_defs]: "IRQ_SPURIOUS = 31"

subsection \<open>Local APIC\<close>

definition LAPIC_ID :: u32 where [const_defs]: "LAPIC_ID = 0x0020 div 4"
definition LAPIC_VER :: u32 where [const_defs]: "LAPIC_VER = 0x0030 div 4"
definition TPR :: u32 where [const_defs]: "TPR = 0x0080 div 4"
definition EOI :: u32 where [const_defs]: "EOI = 0x00B0 div 4"
definition SVR :: u32 where [const_defs]: "SVR = 0x00F0 div 4"
definition ENABLE :: u32 where [const_defs]: "ENABLE = 0x00000100"
definition ESR :: u32 where [const_defs]: "ESR = 0x0280 div 4"
definition ICRLO :: u32 where [const_defs]: "ICRLO = 0x0300 div 4"
definition INIT :: u32 where [const_defs]: "INIT = 0x00000500"
definition STARTUP :: u32 where [const_defs]: "STARTUP = 0x00000600"
definition DELIVS :: u32 where [const_defs]: "DELIVS = 0x00001000"
definition ASSERT :: u32 where [const_defs]: "ASSERT = 0x00004000"
definition LEVEL :: u32 where [const_defs]: "LEVEL = 0x00008000"
definition BCAST :: u32 where [const_defs]: "BCAST = 0x00080000"
definition ICRHI :: u32 where [const_defs]: "ICRHI = 0x0310 div 4"
definition TIMER :: u32 where [const_defs]: "TIMER = 0x0320 div 4"
definition X1 :: u32 where [const_defs]: "X1 = 0x0000000B"
definition PERIODIC :: u32 where [const_defs]: "PERIODIC = 0x00020000"
definition PCINT :: u32 where [const_defs]: "PCINT = 0x0340 div 4"
definition LINT0 :: u32 where [const_defs]: "LINT0 = 0x0350 div 4"
definition LINT1 :: u32 where [const_defs]: "LINT1 = 0x0360 div 4"
definition LAPIC_ERROR :: u32 where [const_defs]: "LAPIC_ERROR = 0x0370 div 4"
definition MASKED :: u32 where [const_defs]: "MASKED = 0x00010000"
definition TICR :: u32 where [const_defs]: "TICR = 0x0380 div 4"
definition TDCR :: u32 where [const_defs]: "TDCR = 0x03E0 div 4"

definition lapicStore :: "u32 \<Rightarrow> u32 \<Rightarrow> ApicState \<Rightarrow> ApicState" where
  "lapicStore i v d =
     d\<lparr>lapicReg := (lapicReg d)(i := if i = ICRLO then v AND NOT DELIVS OR lapicReg d i AND DELIVS else v)\<rparr>"

definition localApicWrite :: "u32 \<Rightarrow> u32 \<Rightarrow> ('a kapic_scheme, unit) op" where
  "localApicWrite index v =
     bindK (getK (\<lambda>s. localApic (apic s))) (\<lambda>l. if l = 0 then faultK else updApic (lapicStore index v))"

definition localApicWrites :: "(u32 \<times> u32) list \<Rightarrow> ('a kapic_scheme, unit) op" where
  "localApicWrites ws = foreachK ws (\<lambda>(i, v). localApicWrite i v)"

definition localApicInitialise :: "('a kapic_scheme, unit) op" where
  "localApicInitialise =
     bindK (getK (\<lambda>s. localApic (apic s))) (\<lambda>l.
     if l = 0 then returnK ()
     else
       bindK (localApicWrites
         [(SVR, ENABLE OR (T_IRQ0 + IRQ_SPURIOUS)), (TDCR, X1), (TIMER, PERIODIC OR (T_IRQ0 + IRQ_TIMER)),
          (TICR, 10000000), (LINT0, MASKED), (LINT1, MASKED)]) (\<lambda>_.
       bindK (getK (\<lambda>s. lapicReg (apic s) LAPIC_VER)) (\<lambda>ver.
       bindK (whenK (4 \<le> drop_bit 16 ver AND 0xFF) (localApicWrite PCINT MASKED)) (\<lambda>_.
       bindK (localApicWrites
         [(LAPIC_ERROR, T_IRQ0 + IRQ_ERROR), (ESR, 0), (ESR, 0), (EOI, 0), (ICRHI, 0), (ICRLO, BCAST OR INIT OR LEVEL)]) (\<lambda>_.
       bindK (getK (\<lambda>s. lapicReg (apic s) ICRLO)) (\<lambda>icr.
       if icr AND DELIVS \<noteq> 0 then hangK else localApicWrite TPR 0))))))"

definition readLocalApicId :: "('a kapic_scheme, int) op" where
  "readLocalApicId =
     bindK (getK apic) (\<lambda>d. returnK (if localApic d = 0 then 0 else uint (drop_bit 24 (lapicReg d LAPIC_ID))))"

definition localApicEndOfInterrupt :: "('a kapic_scheme, unit) op" where
  "localApicEndOfInterrupt =
     bindK (getK (\<lambda>s. localApic (apic s))) (\<lambda>l. whenK (l \<noteq> 0) (localApicWrite EOI 0))"

definition localApicStartup :: "byte \<Rightarrow> u32 \<Rightarrow> ('a kapic_scheme, unit) op" where
  "localApicStartup apicid addr =
     (let wrv = P2V (push_bit 4 0x40 OR 0x67) in
      bindK (outputByteToPort 0x70 0xF) (\<lambda>_.
      bindK (outputByteToPort 0x71 0x0A) (\<lambda>_.
      bindK (updMem (\<lambda>m. store16 m wrv 0)) (\<lambda>_.
      bindK (updMem (\<lambda>m. store16 m (wrv + 2) (ucast (drop_bit 4 addr)))) (\<lambda>_.
      bindK (localApicWrites
        [(ICRHI, push_bit 24 (ucast apicid)), (ICRLO, INIT OR LEVEL OR ASSERT), (ICRLO, INIT OR LEVEL)]) (\<lambda>_.
      foreachK [0 ..< 2 :: nat] (\<lambda>_. localApicWrites
        [(ICRHI, push_bit 24 (ucast apicid)), (ICRLO, STARTUP OR drop_bit 12 addr)])))))))"

subsection \<open>Clock chip\<close>

record RtcDate =
  second :: u32
  minute :: u32
  hour :: u32
  day :: u32
  month :: u32
  year :: u32

definition CMOS_STATA :: byte where [const_defs]: "CMOS_STATA = 0x0a"
definition CMOS_STATB :: byte where [const_defs]: "CMOS_STATB = 0x0b"
definition CMOS_UIP :: u32 where [const_defs]: "CMOS_UIP = push_bit 7 1"

definition cmosRead :: "byte \<Rightarrow> ('a kapic_scheme, u32) op" where
  "cmosRead reg =
     bindK (outputByteToPort 0x70 reg) (\<lambda>_.
     bindK (inputByteFromPort 0x71) (\<lambda>v. returnK (ucast v)))"

definition cmosGetRealTimeClock :: "('a kapic_scheme, RtcDate) op" where
  "cmosGetRealTimeClock =
     bindK (cmosRead 0x00) (\<lambda>a. bindK (cmosRead 0x02) (\<lambda>b. bindK (cmosRead 0x04) (\<lambda>c.
     bindK (cmosRead 0x07) (\<lambda>d. bindK (cmosRead 0x08) (\<lambda>e. bindK (cmosRead 0x09) (\<lambda>f.
     returnK \<lparr>second = a, minute = b, hour = c, day = d, month = e, year = f\<rparr>))))))"

fun cmosLoop :: "nat \<Rightarrow> ('a kapic_scheme, RtcDate) op" where
  "cmosLoop 0 = hangK"
| "cmosLoop (Suc n) =
     bindK cmosGetRealTimeClock (\<lambda>t1.
     bindK (cmosRead CMOS_STATA) (\<lambda>a.
     if a AND CMOS_UIP \<noteq> 0 then cmosLoop n
     else bindK cmosGetRealTimeClock (\<lambda>t2. if t1 = t2 then returnK t1 else cmosLoop n)))"

definition CONV :: "u32 \<Rightarrow> u32" where
  "CONV x = drop_bit 4 x * 10 + (x AND 0xf)"

definition cmosTime :: "nat \<Rightarrow> ('a kapic_scheme, RtcDate) op" where
  "cmosTime fuel =
     bindK (cmosRead CMOS_STATB) (\<lambda>sb.
     bindK (cmosLoop fuel) (\<lambda>t.
     let t = (if sb AND push_bit 2 1 = 0
              then \<lparr>second = CONV (second t), minute = CONV (minute t), hour = CONV (hour t), day = CONV (day t),
                    month = CONV (month t), year = CONV (year t)\<rparr>
              else t) in
     returnK (t\<lparr>year := year t + 2000\<rparr>)))"

subsection \<open>I/O APIC\<close>

definition IOAPIC :: u32 where [const_defs]: "IOAPIC = 0xFEC00000"
definition REG_ID :: u32 where [const_defs]: "REG_ID = 0"
definition REG_VER :: u32 where [const_defs]: "REG_VER = 1"
definition REG_TABLE :: u32 where [const_defs]: "REG_TABLE = 0x10"
definition INT_DISABLED :: u32 where [const_defs]: "INT_DISABLED = 0x00010000"

definition ioApicRead :: "u32 \<Rightarrow> ('a kapic_scheme, u32) op" where
  "ioApicRead reg =
     bindK (getK (\<lambda>s. ioApicPtr (apic s))) (\<lambda>p.
     if p = 0 then faultK
     else bindK (updApic (\<lambda>d. d\<lparr>ioApicSel := reg\<rparr>)) (\<lambda>_. getK (\<lambda>s. ioApicReg (apic s) (ioApicSel (apic s)))))"

definition ioApicWrite :: "u32 \<Rightarrow> u32 \<Rightarrow> ('a kapic_scheme, unit) op" where
  "ioApicWrite reg data =
     bindK (getK (\<lambda>s. ioApicPtr (apic s))) (\<lambda>p.
     if p = 0 then faultK
     else bindK (updApic (\<lambda>d. d\<lparr>ioApicSel := reg\<rparr>)) (\<lambda>_.
       updApic (\<lambda>d. d\<lparr>ioApicReg := (ioApicReg d)(ioApicSel d := data)\<rparr>)))"

definition ioApicInitialise :: "('a kapic_scheme, unit) op" where
  "ioApicInitialise =
     bindK (updApic (\<lambda>d. d\<lparr>ioApicPtr := IOAPIC\<rparr>)) (\<lambda>_.
     bindK (ioApicRead REG_VER) (\<lambda>ver. let maxintr = drop_bit 16 ver AND 0xFF in
     bindK (ioApicRead REG_ID) (\<lambda>idr. let ident = drop_bit 24 idr in
     bindK (getK (\<lambda>s. ioapicid (apic s))) (\<lambda>ioid.
     bindK (whenK (ident \<noteq> ucast ioid)
       (cprintf (Some (''ioApicInitialise: id isn'' @ [CHR 0x27] @ ''t equal to ioapicid; not a MP'' @ [CHR 0x0A])) [])) (\<lambda>_.
     foreachK [0 ..< Suc (unat maxintr)] (\<lambda>i.
       bindK (ioApicWrite (REG_TABLE + 2 * of_nat i) (INT_DISABLED OR (T_IRQ0 + of_nat i))) (\<lambda>_.
       ioApicWrite (REG_TABLE + 2 * of_nat i + 1) 0)))))))"

definition ioApicEnable :: "u32 \<Rightarrow> u32 \<Rightarrow> ('a kapic_scheme, unit) op" where
  "ioApicEnable irq cpunum =
     bindK (ioApicWrite (REG_TABLE + 2 * irq) (T_IRQ0 + irq)) (\<lambda>_.
     ioApicWrite (REG_TABLE + 2 * irq + 1) (push_bit 24 cpunum))"

subsection \<open>The 8259A controllers\<close>

definition picSendCommand :: "byte \<Rightarrow> byte \<Rightarrow> ('a kapic_scheme, unit) op" where
  "picSendCommand cmd picNum =
     (if 1 < picNum then returnK () else outputByteToPort (if picNum = 1 then 0xA0 else 0x20) cmd)"

definition picSendData :: "byte \<Rightarrow> byte \<Rightarrow> ('a kapic_scheme, unit) op" where
  "picSendData data picNum =
     (if 1 < picNum then returnK () else outputByteToPort (if picNum = 1 then 0xA1 else 0x21) data)"

definition I86_PIC_ReadData :: "byte \<Rightarrow> ('a kapic_scheme, byte) op" where
  "I86_PIC_ReadData picNum =
     (if 1 < picNum then returnK 0 else inputByteFromPort (if picNum = 1 then 0xA1 else 0x21))"

definition I86_PIC_Initialise :: "byte \<Rightarrow> byte \<Rightarrow> ('a kapic_scheme, unit) op" where
  "I86_PIC_Initialise base0 base1 =
     (let icw = (0 AND NOT 0x10) OR 0x10; icw = (icw AND NOT 0x1) OR 1 in
      bindK (picSendCommand icw 0) (\<lambda>_. bindK (picSendCommand icw 1) (\<lambda>_.
      bindK (picSendData base0 0) (\<lambda>_. bindK (picSendData base1 1) (\<lambda>_.
      bindK (picSendData 0x04 0) (\<lambda>_. bindK (picSendData 0x02 1) (\<lambda>_.
      let icw = (icw AND NOT 0x1) OR 1 in
      bindK (picSendData icw 0) (\<lambda>_. picSendData icw 1))))))))"

definition picInitialise :: "('a kapic_scheme, unit) op" where
  "picInitialise =
     bindK (I86_PIC_Initialise 0x60 0x68) (\<lambda>_.
     bindK (outputByteToPort 0x21 0xFF) (\<lambda>_.
     outputByteToPort 0xA1 0xFF))"

subsection \<open>Multiprocessor tables\<close>

text \<open>
  The tables lie in low memory and are read where they are; the offsets are those of \<^verbatim>\<open>struct mp\<close> (16 bytes), \<^verbatim>\<open>struct mpconf\<close>
  (44 bytes), \<^verbatim>\<open>struct mpproc\<close> (20 bytes) and \<^verbatim>\<open>struct mpioapic\<close> (8 bytes).
\<close>

definition mp_physaddr :: "memory \<Rightarrow> u32 \<Rightarrow> u32" where "mp_physaddr m p = load32 m (p + 4)"
definition mp_imcrp :: "memory \<Rightarrow> u32 \<Rightarrow> byte" where "mp_imcrp m p = m (p + 12)"
definition conf_length :: "memory \<Rightarrow> u32 \<Rightarrow> u16" where "conf_length m c = load16 m (c + 4)"
definition conf_version :: "memory \<Rightarrow> u32 \<Rightarrow> byte" where "conf_version m c = m (c + 6)"
definition conf_lapicaddr :: "memory \<Rightarrow> u32 \<Rightarrow> u32" where "conf_lapicaddr m c = load32 m (c + 36)"

definition MPPROC :: byte where [const_defs]: "MPPROC = 0"
definition MPBUS :: byte where [const_defs]: "MPBUS = 1"
definition MPIOAPIC :: byte where [const_defs]: "MPIOAPIC = 2"
definition MPIOINTR :: byte where [const_defs]: "MPIOINTR = 3"
definition MPLINTR :: byte where [const_defs]: "MPLINTR = 4"

fun sum_loop :: "memory \<Rightarrow> u32 \<Rightarrow> nat \<Rightarrow> int \<Rightarrow> int" where
  "sum_loop m a 0 acc = acc"
| "sum_loop m a (Suc n) acc = sum_loop m (a + 1) n (acc + uint (m a))"

definition mpsum :: "memory \<Rightarrow> u32 \<Rightarrow> nat \<Rightarrow> byte" where
  "mpsum m addr len = word_of_int (sum_loop m addr len 0)"

fun matches :: "memory \<Rightarrow> u32 \<Rightarrow> string \<Rightarrow> bool" where
  "matches m p [] = True"
| "matches m p (c # cs) = (m p = of_char c \<and> matches m (p + 1) cs)"

fun mpsearch1_loop :: "memory \<Rightarrow> nat \<Rightarrow> u32 \<Rightarrow> u32 \<Rightarrow> u32" where
  "mpsearch1_loop m 0 p e = 0"
| "mpsearch1_loop m (Suc n) p e =
     (if p < e
      then if matches m p ''_MP_'' \<and> mpsum m p 16 = 0 then p else mpsearch1_loop m n (p + 16) e
      else 0)"

definition mpsearch1 :: "memory \<Rightarrow> u32 \<Rightarrow> u32 \<Rightarrow> u32" where
  "mpsearch1 m a len = (let addr = P2V a in mpsearch1_loop m (Suc (unat len div 16)) addr (addr + len))"

definition mpsearch :: "memory \<Rightarrow> u32" where
  "mpsearch m =
     (let bda = P2V 0x400;
          p = push_bit 4 (push_bit 8 (ucast (m (bda + 0x0F))) OR ucast (m (bda + 0x0E))) :: u32;
          q = (push_bit 8 (ucast (m (bda + 0x14))) OR ucast (m (bda + 0x13))) * 1024 :: u32;
          first = (if p \<noteq> 0 then mpsearch1 m p 1024 else mpsearch1 m (q - 1024) 1024) in
      if first \<noteq> 0 then first else mpsearch1 m 0xF0000 0x10000)"

definition mpconfig :: "memory \<Rightarrow> (u32 \<times> u32) option" where
  "mpconfig m =
     (let mp = mpsearch m in
      if mp = 0 \<or> mp_physaddr m mp = 0 then None
      else let conf = P2V (mp_physaddr m mp) in
        if \<not> matches m conf ''PCMP'' then None
        else if conf_version m conf \<noteq> 1 \<and> conf_version m conf \<noteq> 4 then None
        else if mpsum m conf (unat (conf_length m conf)) \<noteq> 0 then None
        else Some (mp, conf))"

fun mpinit_loop :: "nat \<Rightarrow> bool \<Rightarrow> u32 \<Rightarrow> u32 \<Rightarrow> ('a kapic_scheme, bool) op" where
  "mpinit_loop 0 ismp p e = hangK"
| "mpinit_loop (Suc n) ismp p e =
     (if p < e
      then bindK (getK mem) (\<lambda>m.
        if m p = MPPROC then
          bindK (getK ncpu) (\<lambda>k.
          bindK (whenK (k < NCPU)
            (bindK (updCpu k (\<lambda>c. c\<lparr>Apicid := m (p + 1)\<rparr>)) (\<lambda>_.
             modifyK (\<lambda>s. s\<lparr>ncpu := Suc k\<rparr>)))) (\<lambda>_.
          mpinit_loop n ismp (p + 20) e))
        else if m p = MPIOAPIC then
          bindK (updApic (\<lambda>d. d\<lparr>ioapicid := m (p + 1)\<rparr>)) (\<lambda>_.
          mpinit_loop n ismp (p + 8) e)
        else if m p = MPBUS \<or> m p = MPIOINTR \<or> m p = MPLINTR then mpinit_loop n ismp (p + 8) e
        else mpinit_loop n False p e)
      else returnK ismp)"

definition mpinit :: "('a kapic_scheme, unit) op" where
  "mpinit =
     bindK (getK (\<lambda>s. mpconfig (mem s))) (\<lambda>found.
     case found of
       None \<Rightarrow> panicK ''Expect to run on an SMP''
     | Some (mp, conf) \<Rightarrow>
         bindK (getK mem) (\<lambda>m.
         bindK (updApic (\<lambda>d. d\<lparr>localApic := conf_lapicaddr m conf\<rparr>)) (\<lambda>_.
         bindK (mpinit_loop (2 ^ 16) True (conf + 44) (conf + ucast (conf_length m conf))) (\<lambda>ismp.
         if \<not> ismp then panicK (''Didn'' @ [CHR 0x27] @ ''t find a suitable machine'')
         else whenK (mp_imcrp m mp \<noteq> 0)
           (bindK (outputByteToPort 0x22 0x70) (\<lambda>_.
            bindK (inputByteFromPort 0x23) (\<lambda>v.
            outputByteToPort 0x23 (v OR 1))))))))"

section \<open>Reading the multiprocessor table\<close>

text \<open>The entries of a table, and that they lie in memory one after the other.\<close>

datatype mp_entry = Processor byte | IoApicEntry byte | OtherEntry byte

fun entry_at :: "memory \<Rightarrow> u32 \<Rightarrow> mp_entry \<Rightarrow> bool" where
  "entry_at m p (Processor a) \<longleftrightarrow> m p = MPPROC \<and> m (p + 1) = a"
| "entry_at m p (IoApicEntry a) \<longleftrightarrow> m p = MPIOAPIC \<and> m (p + 1) = a"
| "entry_at m p (OtherEntry t) \<longleftrightarrow> m p = t \<and> t \<in> {MPBUS, MPIOINTR, MPLINTR}"

fun entry_size :: "mp_entry \<Rightarrow> u32" where
  "entry_size (Processor a) = 20"
| "entry_size x = 8"

fun entries_between :: "memory \<Rightarrow> u32 \<Rightarrow> u32 \<Rightarrow> mp_entry list \<Rightarrow> u32 \<Rightarrow> bool" where
  "entries_between m e p [] q \<longleftrightarrow> p = q"
| "entries_between m e p (x # xs) q \<longleftrightarrow> p < e \<and> entry_at m p x \<and> entries_between m e (p + entry_size x) xs q"

fun register :: "mp_entry \<Rightarrow> 'a kapic_scheme \<Rightarrow> 'a kapic_scheme" where
  "register (Processor a) s =
     (if ncpu s < NCPU then s\<lparr>cpus := (cpus s)[ncpu s := (cpus s ! ncpu s)\<lparr>Apicid := a\<rparr>], ncpu := Suc (ncpu s)\<rparr> else s)"
| "register (IoApicEntry a) s = s\<lparr>apic := (apic s)\<lparr>ioapicid := a\<rparr>\<rparr>"
| "register (OtherEntry t) s = s"

fun processor_id :: "mp_entry \<Rightarrow> byte option" where
  "processor_id (Processor a) = Some a"
| "processor_id x = None"

fun ioapic_id :: "mp_entry \<Rightarrow> byte option" where
  "ioapic_id (IoApicEntry a) = Some a"
| "ioapic_id x = None"

lemma mem_register [simp]: "mem (register x s) = mem s"
  by (cases x) simp_all

lemma mpinit_entries:
  "entries_between (mem s) e p xs q \<Longrightarrow>
   mpinit_loop (length xs + n) b p e s = mpinit_loop n b q e (fold register xs s)"
proof (induction xs arbitrary: p s)
  case (Cons x xs)
  then have "mpinit_loop (length xs + n) b (p + entry_size x) e (register x s) = mpinit_loop n b q e (fold register xs (register x s))"
    by simp
  moreover have "mpinit_loop (Suc (length xs + n)) b p e s = mpinit_loop (length xs + n) b (p + entry_size x) e (register x s)"
    using Cons.prems by (cases x) (auto simp: kmonad whenK_def updCpu_def updApic_def const_defs)
  ultimately show ?case by simp
qed simp

lemma mem_registers [simp]: "mem (fold register xs s) = mem s"
  by (induction xs arbitrary: s) simp_all

lemma mpinit_unknown:
  "p < e \<Longrightarrow> 4 < mem s p \<Longrightarrow> mpinit_loop n b p e s = Hang"
  by (induction n arbitrary: b) (auto simp: kmonad const_defs)

text \<open>What registering a list of entries does.\<close>

lemma register_apic: "apic (fold register xs s) = (apic s)\<lparr>ioapicid := last (ioapicid (apic s) # List.map_filter ioapic_id xs)\<rparr>"
proof (induction xs arbitrary: s)
  case (Cons x xs)
  then show ?case by (cases x) (auto simp: List.map_filter_simps)
qed (simp add: List.map_filter_simps)

lemma register_cpus:
  assumes "length (cpus s) = NCPU" "ncpu s \<le> NCPU"
  shows "length (cpus (fold register xs s)) = NCPU \<and> ncpu (fold register xs s) \<le> NCPU \<and>
    map Apicid (take (ncpu (fold register xs s)) (cpus (fold register xs s))) =
      take NCPU (map Apicid (take (ncpu s) (cpus s)) @ List.map_filter processor_id xs)"
  using assms
proof (induction xs arbitrary: s)
  case Nil
  then show ?case by (simp add: List.map_filter_simps)
next
  case (Cons x xs)
  show ?case
  proof (cases x)
    case (Processor a)
    show ?thesis
    proof (cases "ncpu s < NCPU")
      case True
      let ?c = "(cpus s)[ncpu s := (cpus s ! ncpu s)\<lparr>Apicid := a\<rparr>]"
      have "take (Suc (ncpu s)) ?c = take (ncpu s) (cpus s) @ [(cpus s ! ncpu s)\<lparr>Apicid := a\<rparr>]"
        using True Cons.prems(1) by (simp add: take_Suc_conv_app_nth)
      then have "map Apicid (take (Suc (ncpu s)) ?c) = map Apicid (take (ncpu s) (cpus s)) @ [a]" by simp
      then show ?thesis using Cons.IH [of "register x s"] Cons.prems True by (simp add: Processor List.map_filter_simps del: take_append)
    next
      case False
      then show ?thesis using Cons.IH [of s] Cons.prems by (simp add: Processor List.map_filter_simps)
    qed
  next
    case (IoApicEntry a)
    then show ?thesis using Cons.IH [of "register x s"] Cons.prems by (simp add: List.map_filter_simps)
  next
    case (OtherEntry t)
    then show ?thesis using Cons.IH [of "register x s"] Cons.prems by (simp add: List.map_filter_simps)
  qed
qed

text \<open>A machine with two processors and one I/O APIC, whose tables start in the extended data area of the firmware.\<close>

definition place :: "u32 \<Rightarrow> byte list \<Rightarrow> memory \<Rightarrow> memory" where
  "place p bs m = (\<lambda>a. if unat (a - p) < length bs then bs ! unat (a - p) else m a)"

definition mp_pointer :: "byte list" where
  "mp_pointer = [0x5F, 0x4D, 0x50, 0x5F, 0x00, 0xFD, 0x09, 0x00, 1, 4, 0x1A, 0, 0x80, 0, 0, 0]"

definition mp_header :: "byte \<Rightarrow> byte list" where
  "mp_header checksum = [0x50, 0x43, 0x4D, 0x50, 0x5C, 0, 4, checksum, 0, 0, 0, 0, 0, 0, 0, 0, 0, 0, 0, 0, 0, 0, 0, 0, 0, 0, 0, 0, 0, 0, 0, 0, 0, 0, 3, 0,
     0, 0, 0xE0, 0xFE, 0, 0, 0, 0]"

definition mp_entries :: "byte \<Rightarrow> byte list" where
  "mp_entries kind = [0, 0, 0x14, 3, 0, 0, 0, 0, 0, 0, 0, 0, 0, 0, 0, 0, 0, 0, 0, 0, 0, 1, 0x14, 1, 0, 0, 0, 0, 0, 0, 0, 0, 0, 0, 0, 0, 0, 0, 0, 0,
     kind, 2, 0x11, 1, 0, 0, 0xC0, 0xFE]"

definition two_processors :: "byte \<Rightarrow> byte \<Rightarrow> memory" where
  "two_processors checksum kind =
     place 0x8000040E [0xC0, 0x9F] (place 0x8009FC00 mp_pointer (place 0x8009FD00 (mp_header checksum @ mp_entries kind) (\<lambda>_. 0)))"

definition blank_apic :: ApicState where
  "blank_apic = \<lparr>localApic = 0, lapicReg = \<lambda>_. 0, ioApicPtr = 0, ioApicSel = 0, ioApicReg = \<lambda>_. 0, ioapicid = 0, portLog = [],
     portIn = \<lambda>_. 0, rtc = \<lambda>_ _. 0, rtcReads = 0, cmosIndex = 0\<rparr>"

definition apic_boot :: "kfat \<Rightarrow> memory \<Rightarrow> kapic" where
  "apic_boot s m = kfat.extend (s\<lparr>mem := m, ncpu := 0, cpus := replicate NCPU boot_cpu\<rparr>) \<lparr>apic = blank_apic\<rparr>"

lemma apic_boot_sel [simp]:
  "mem (apic_boot s m) = m" "ncpu (apic_boot s m) = 0" "length (cpus (apic_boot s m)) = NCPU" "apic (apic_boot s m) = blank_apic"
  by (simp_all add: apic_boot_def kfat.defs)

fun holds_at :: "memory \<Rightarrow> u32 \<Rightarrow> byte list \<Rightarrow> bool" where
  "holds_at m p [] = True"
| "holds_at m p (b # bs) \<longleftrightarrow> m p = b \<and> holds_at m (p + 1) bs"

lemma holds_at_nth: "holds_at m p bs \<longleftrightarrow> (\<forall>i < length bs. m (p + of_nat i) = bs ! i)"
  by (induction bs arbitrary: p) (auto simp: less_Suc_eq_0_disj add.assoc)

lemma holds_placed: "length bs \<le> 2 ^ 16 \<Longrightarrow> holds_at (place p bs m) p bs"
  by (auto simp: holds_at_nth place_def unat_of_nat_u32)

lemma holds_elsewhere:
  assumes "holds_at m q cs" "length bs \<le> unat (q - p)" "unat (q - p) + length cs < 2 ^ 32"
  shows "holds_at (place p bs m) q cs"
proof -
  have "unat (q + of_nat i - p) = unat (q - p) + i" if "i < length cs" for i
    using that assms(3) unat_add_of_nat [of "q - p" i] by (simp add: algebra_simps)
  then show ?thesis using assms by (simp add: holds_at_nth place_def)
qed

lemma sum_holds: "holds_at m p bs \<Longrightarrow> sum_loop m p (length bs) acc = acc + sum_list (map uint bs)"
  by (induction bs arbitrary: p acc) simp_all

lemma mpsum_holds: "holds_at m p bs \<Longrightarrow> length bs = n \<Longrightarrow> mpsum m p n = word_of_int (sum_list (map uint bs))"
  using sum_holds by (force simp: mpsum_def)

lemma two_processors_holds:
  fixes c k
  defines "m \<equiv> two_processors c k"
  shows "holds_at m 0x8000040E [0xC0, 0x9F]" "holds_at m 0x8009FC00 mp_pointer" "holds_at m 0x8009FD00 (mp_header c @ mp_entries k)"
proof -
  have len: "length mp_pointer = 16" "length (mp_header c @ mp_entries k) = 92" by (simp_all add: mp_pointer_def mp_header_def mp_entries_def)
  show "holds_at m 0x8000040E [0xC0, 0x9F]" unfolding m_def two_processors_def by (rule holds_placed) simp
  show "holds_at m 0x8009FC00 mp_pointer"
    unfolding m_def two_processors_def using len by (intro holds_elsewhere holds_placed) simp_all
  show "holds_at m 0x8009FD00 (mp_header c @ mp_entries k)"
    unfolding m_def two_processors_def using len by (intro holds_elsewhere holds_placed) simp_all
qed

lemma two_processors_bytes:
  fixes c k
  defines "m \<equiv> two_processors c k"
  shows "m 0x8000040E = 0xC0" "m 0x8000040F = 0x9F"
    "m 0x8009FC00 = 0x5F" "m 0x8009FC01 = 0x4D" "m 0x8009FC02 = 0x50" "m 0x8009FC03 = 0x5F"
    "m 0x8009FC04 = 0" "m 0x8009FC05 = 0xFD" "m 0x8009FC06 = 9" "m 0x8009FC07 = 0" "m 0x8009FC0C = 0x80"
    "m 0x8009FD00 = 0x50" "m 0x8009FD01 = 0x43" "m 0x8009FD02 = 0x4D" "m 0x8009FD03 = 0x50"
    "m 0x8009FD04 = 0x5C" "m 0x8009FD05 = 0" "m 0x8009FD06 = 4"
    "m 0x8009FD24 = 0" "m 0x8009FD25 = 0" "m 0x8009FD26 = 0xE0" "m 0x8009FD27 = 0xFE"
    "m 0x8009FD2C = 0" "m 0x8009FD2D = 0" "m 0x8009FD40 = 0" "m 0x8009FD41 = 1" "m 0x8009FD54 = k" "m 0x8009FD55 = 2"
  using two_processors_holds [of c k] unfolding m_def [symmetric] mp_pointer_def mp_header_def mp_entries_def
  by (simp_all del: of_nat_numeral)

lemma two_processors_sums:
  "mpsum (two_processors c k) 0x8009FC00 16 = 0" "c + k = 0x90 \<Longrightarrow> mpsum (two_processors c k) 0x8009FD00 92 = 0"
proof -
  note h = two_processors_holds [of c k]
  show "mpsum (two_processors c k) 0x8009FC00 16 = 0"
    by (subst mpsum_holds [OF h(2)]) (simp_all add: mp_pointer_def)
  assume ck: "c + k = 0x90"
  have "sum_list (map uint (mp_header c @ mp_entries k)) = uint c + uint k + 1392"
    by (simp add: mp_header_def mp_entries_def)
  then have "mpsum (two_processors c k) 0x8009FD00 92 = word_of_int (uint c + uint k + 1392)"
    by (subst mpsum_holds [OF h(3)]) (simp_all add: mp_header_def mp_entries_def)
  also have "\<dots> = c + k + 1392" by simp
  finally show "mpsum (two_processors c k) 0x8009FD00 92 = 0" using ck by simp
qed

lemma two_processors_config:
  assumes "c + k = 0x90"
  shows "mpconfig (two_processors c k) = Some (0x8009FC00, 0x8009FD00)" "conf_length (two_processors c k) 0x8009FD00 = 92"
proof -
  note b = two_processors_bytes [of c k]
  have "mpsearch1 (two_processors c k) 0x9FC00 1024 = 0x8009FC00"
  proof -
    have a: "P2V 0x9FC00 = 0x8009FC00" by (simp add: P2V_def KERNBASE_def)
    have "mpsearch1_loop (two_processors c k) (Suc n) 0x8009FC00 (0x8009FC00 + 1024) = 0x8009FC00" for n
      using b two_processors_sums(1) [of c k] by simp
    then show ?thesis unfolding mpsearch1_def Let_def a .
  qed
  then have "mpsearch (two_processors c k) = 0x8009FC00"
    using b by (simp add: mpsearch_def P2V_def KERNBASE_def Let_def)
  moreover have "mp_physaddr (two_processors c k) 0x8009FC00 = 0x9FD00" using b by (simp add: mp_physaddr_def load32_def)
  moreover show len: "conf_length (two_processors c k) 0x8009FD00 = 92" using b by (simp add: conf_length_def load16_def)
  ultimately show "mpconfig (two_processors c k) = Some (0x8009FC00, 0x8009FD00)"
    using b two_processors_sums(2) [OF assms] by (simp add: mpconfig_def Let_def P2V_def KERNBASE_def conf_version_def)
qed

text \<open>
  C30: \<open>mpinit\<close> reads the table it finds.  When the entries of the configuration table follow its header up to its length,
  the processors of the table are registered in order, at most \<open>NCPU\<close> of them, the I/O APIC is the last one of the
  table, the local APIC is where the header says, and the interrupt mode register is switched when the machine has one.
\<close>

theorem mpinit_reads_table:
  assumes conf: "mpconfig (mem s) = Some (mp, conf)"
    and table: "entries_between (mem s) (conf + ucast (conf_length (mem s) conf)) (conf + 44) xs (conf + ucast (conf_length (mem s) conf))"
    and len: "length xs < 2 ^ 16" and start: "ncpu s = 0" "length (cpus s) = NCPU"
  shows "\<exists>t. mpinit s = Ret () t \<and> map Apicid (take (ncpu t) (cpus t)) = take NCPU (List.map_filter processor_id xs) \<and>
    ioapicid (apic t) = last (ioapicid (apic s) # List.map_filter ioapic_id xs) \<and>
    localApic (apic t) = conf_lapicaddr (mem s) conf \<and>
    portLog (apic t) = portLog (apic s) @ (if mp_imcrp (mem s) mp = 0 then [] else [(0x22, 0x70), (0x23, portIn (apic s) 0x23 OR 1)])"
proof -
  let ?m = "mem s" and ?e = "conf + ucast (conf_length (mem s) conf)"
  define u where "u = s\<lparr>apic := (apic s)\<lparr>localApic := conf_lapicaddr ?m conf\<rparr>\<rparr>"
  define v where "v = fold register xs u"
  have "mpinit_loop (length xs + (2 ^ 16 - length xs)) True (conf + 44) ?e u = mpinit_loop (2 ^ 16 - length xs) True ?e ?e v"
    unfolding v_def by (rule mpinit_entries) (use table in \<open>simp add: u_def\<close>)
  moreover have "mpinit_loop (2 ^ 16 - length xs) True ?e ?e v = Ret True v"
    using len by (cases "2 ^ 16 - length xs") (simp_all add: kmonad)
  ultimately have loop: "mpinit_loop (2 ^ 16) True (conf + 44) ?e u = Ret True v" using len by simp
  have cpus: "map Apicid (take (ncpu v) (cpus v)) = take NCPU (List.map_filter processor_id xs)"
    unfolding v_def using register_cpus [of u xs] start by (simp add: u_def)
  have apic: "apic v = (apic u)\<lparr>ioapicid := last (ioapicid (apic u) # List.map_filter ioapic_id xs)\<rparr>"
    unfolding v_def by (rule register_apic)
  show ?thesis
    using conf loop cpus apic
    by (auto simp: mpinit_def kmonad updApic_def u_def [symmetric] whenK_def outputByteToPort_def inputByteFromPort_def) (auto simp: u_def)
qed

theorem mpinit_reads_table_witness:
  "\<exists>(s :: kapic) t. mpinit s = Ret () t \<and> map Apicid (take (ncpu t) (cpus t)) = [0, 1] \<and> ioapicid (apic t) = 2 \<and>
    localApic (apic t) = 0xFEE00000 \<and> portLog (apic t) = [(0x22, 0x70), (0x23, 1)]"
proof -
  obtain k :: kfat where True by blast
  let ?m = "two_processors 0x8E 2" and ?s = "apic_boot k (two_processors 0x8E 2)" and ?es = "[Processor 0, Processor 1, IoApicEntry 2]"
  note b = two_processors_bytes [of "0x8E" 2] and c = two_processors_config [of "0x8E" 2]
  have "entries_between (mem ?s) (0x8009FD00 + ucast (conf_length (mem ?s) 0x8009FD00)) (0x8009FD00 + 44) ?es
      (0x8009FD00 + ucast (conf_length (mem ?s) 0x8009FD00))"
    using b c(2) by (simp add: const_defs)
  from mpinit_reads_table [OF _ this] c obtain t where "mpinit ?s = Ret () t"
    "map Apicid (take (ncpu t) (cpus t)) = take NCPU (List.map_filter processor_id ?es)"
    "ioapicid (apic t) = last (ioapicid (apic ?s) # List.map_filter ioapic_id ?es)"
    "localApic (apic t) = conf_lapicaddr ?m 0x8009FD00"
    "portLog (apic t) = portLog (apic ?s) @ (if mp_imcrp ?m 0x8009FC00 = 0 then [] else [(0x22, 0x70), (0x23, portIn (apic ?s) 0x23 OR 1)])"
    by auto
  then show ?thesis using b
    by (intro exI [of _ ?s] exI [of _ t]) (simp add: List.map_filter_simps blank_apic_def conf_lapicaddr_def load32_def mp_imcrp_def NCPU_def)
qed

text \<open>
  C38: an entry of an unknown type stops the kernel for good.  The \<open>break\<close> of the default case leaves the switch and not the loop,
  so \<open>mpinit\<close> looks at the same entry forever and never comes to the panic that reports an unsuitable machine.
\<close>

theorem mpinit_unknown_entry_hangs:
  assumes conf: "mpconfig (mem s) = Some (mp, conf)"
    and table: "entries_between (mem s) (conf + ucast (conf_length (mem s) conf)) (conf + 44) xs p"
    and bad: "p < conf + ucast (conf_length (mem s) conf)" "4 < mem s p" and len: "length xs < 2 ^ 16"
  shows "mpinit s = Hang"
proof -
  let ?e = "conf + ucast (conf_length (mem s) conf)"
  define u where "u = s\<lparr>apic := (apic s)\<lparr>localApic := conf_lapicaddr (mem s) conf\<rparr>\<rparr>"
  have "mem (fold register xs u) = mem s" by (simp add: u_def)
  then have "mpinit_loop (length xs + (2 ^ 16 - length xs)) True (conf + 44) ?e u = Hang"
    using mpinit_entries [of u ?e "conf + 44" xs p "2 ^ 16 - length xs" True] mpinit_unknown [of p ?e "fold register xs u"] table bad
    by (simp add: u_def)
  then have "mpinit_loop (2 ^ 16) True (conf + 44) ?e u = Hang" using len by simp
  then show ?thesis using conf by (simp add: mpinit_def kmonad updApic_def u_def)
qed

theorem mpinit_unknown_entry_hangs_witness:
  "\<exists>s :: kapic. mem s 0x8009FD54 = 5 \<and> mpinit s = Hang"
proof -
  obtain k :: kfat where True by blast
  let ?s = "apic_boot k (two_processors 0x8B 5)"
  note b = two_processors_bytes [of "0x8B" 5] and c = two_processors_config [of "0x8B" 5]
  have "entries_between (mem ?s) (0x8009FD00 + ucast (conf_length (mem ?s) 0x8009FD00)) (0x8009FD00 + 44) [Processor 0, Processor 1] 0x8009FD54"
    using b c(2) by (simp add: const_defs)
  from mpinit_unknown_entry_hangs [OF _ this] b c have "mpinit ?s = Hang" by simp
  then show ?thesis using b by (intro exI [of _ ?s]) simp
qed

section \<open>Reading the clock\<close>

text \<open>\<open>reading f n\<close>: the six registers as the reads \<open>n, \<dots>, n + 5\<close> find them.\<close>

definition reading :: "(nat \<Rightarrow> byte \<Rightarrow> byte) \<Rightarrow> nat \<Rightarrow> RtcDate" where
  "reading f n = \<lparr>second = ucast (f n 0), minute = ucast (f (n + 1) 2), hour = ucast (f (n + 2) 4), day = ucast (f (n + 3) 7),
     month = ucast (f (n + 4) 8), year = ucast (f (n + 5) 9)\<rparr>"

definition after_reads :: "nat \<Rightarrow> 'a kapic_scheme \<Rightarrow> 'a kapic_scheme \<Rightarrow> bool" where
  "after_reads k s t \<longleftrightarrow> rtc (apic t) = rtc (apic s) \<and> rtcReads (apic t) = rtcReads (apic s) + k"

lemma cmosRead_run: "\<exists>t. cmosRead r s = Ret (ucast (rtc (apic s) (rtcReads (apic s)) r)) t \<and> after_reads 1 s t"
  by (simp add: cmosRead_def outputByteToPort_def inputByteFromPort_def updApic_def kmonad after_reads_def)

lemma clock_run: "\<exists>t. cmosGetRealTimeClock s = Ret (reading (rtc (apic s)) (rtcReads (apic s))) t \<and> after_reads 6 s t"
  by (simp add: cmosGetRealTimeClock_def cmosRead_def outputByteToPort_def inputByteFromPort_def updApic_def kmonad after_reads_def
      reading_def numeral_eq_Suc)

definition steady :: "(nat \<Rightarrow> byte \<Rightarrow> byte) \<Rightarrow> nat \<Rightarrow> bool" where
  "steady f n \<longleftrightarrow> reading f n = reading f (n + 7) \<and> ucast (f (n + 6) CMOS_STATA) AND CMOS_UIP = 0"

lemma pass_run:
  fixes s :: "'a kapic_scheme"
  defines "f \<equiv> rtc (apic s)" and "n \<equiv> rtcReads (apic s)"
  shows "(steady f n \<and> (\<exists>t. cmosLoop (Suc k) s = Ret (reading f n) t \<and> after_reads 13 s t)) \<or>
    (\<not> steady f n \<and> (\<exists>t j. cmosLoop (Suc k) s = cmosLoop k t \<and> after_reads j s t \<and> 0 < j))"
proof -
  obtain t1 where t1: "cmosGetRealTimeClock s = Ret (reading f n) t1" "after_reads 6 s t1" using clock_run f_def n_def by blast
  obtain t2 where t2: "cmosRead CMOS_STATA t1 = Ret (ucast (f (n + 6) CMOS_STATA)) t2" "after_reads 7 s t2"
    using cmosRead_run [of CMOS_STATA t1] t1(2) by (auto simp: after_reads_def f_def n_def)
  obtain t3 where t3: "cmosGetRealTimeClock t2 = Ret (reading f (n + 7)) t3" "after_reads 13 s t3"
    using clock_run [of t2] t2(2) by (auto simp: after_reads_def f_def n_def)
  have pos: "0 < (7 :: nat)" "0 < (13 :: nat)" by simp_all
  consider (busy) "ucast (f (n + 6) CMOS_STATA) AND CMOS_UIP \<noteq> 0"
    | (changed) "ucast (f (n + 6) CMOS_STATA) AND CMOS_UIP = 0" "reading f n \<noteq> reading f (n + 7)" | (same) "steady f n"
    by (auto simp: steady_def)
  then show ?thesis
  proof cases
    case busy
    then have "cmosLoop (Suc k) s = cmosLoop k t2" using t1 t2 by (simp add: kmonad)
    then show ?thesis using busy t2(2) pos unfolding steady_def by blast
  next
    case changed
    then have "cmosLoop (Suc k) s = cmosLoop k t3" using t1 t2 t3 by (simp add: kmonad)
    then show ?thesis using changed t3(2) pos unfolding steady_def by blast
  next
    case same
    then show ?thesis using t1 t2 t3 by (simp add: kmonad steady_def)
  qed
qed

lemma steady_when_quiet:
  assumes "\<forall>n \<ge> N. f n = R" "ucast (R CMOS_STATA) AND CMOS_UIP = 0" "N \<le> n"
  shows "steady f n"
  using assms by (simp add: steady_def reading_def)

lemma cmosLoop_returns:
  assumes quiet: "\<forall>n \<ge> N. rtc (apic s) n = R" "ucast (R CMOS_STATA) AND CMOS_UIP = 0" and fuel: "0 < k" "N < k + rtcReads (apic s)"
  shows "\<exists>n t. cmosLoop k s = Ret (reading (rtc (apic s)) n) t \<and> steady (rtc (apic s)) n \<and>
    rtcReads (apic s) \<le> n \<and> rtcReads (apic t) = n + 13"
  using assms
proof (induction k arbitrary: s)
  case (Suc k)
  show ?case
  proof (cases "steady (rtc (apic s)) (rtcReads (apic s))")
    case True
    then obtain t where "cmosLoop (Suc k) s = Ret (reading (rtc (apic s)) (rtcReads (apic s))) t" "after_reads 13 s t"
      using pass_run [of s k] by blast
    then show ?thesis using True by (intro exI [of _ "rtcReads (apic s)"] exI [of _ t]) (simp add: after_reads_def)
  next
    case False
    then obtain t j where t: "cmosLoop (Suc k) s = cmosLoop k t" "after_reads j s t" "0 < j" using pass_run [of s k] by blast
    have "rtcReads (apic s) < N" using False steady_when_quiet Suc.prems(1,2) by (meson not_less)
    then have "\<exists>n v. cmosLoop k t = Ret (reading (rtc (apic t)) n) v \<and> steady (rtc (apic t)) n \<and>
        rtcReads (apic t) \<le> n \<and> rtcReads (apic v) = n + 13"
      using Suc.prems t by (intro Suc.IH) (auto simp: after_reads_def)
    then show ?thesis using t by (fastforce simp: after_reads_def)
  qed
qed simp

text \<open>Binary coded decimals.\<close>

definition bcd :: "nat \<Rightarrow> byte" where
  "bcd n = of_nat (16 * (n div 10) + n mod 10)"

lemma CONV_bcd:
  assumes "n < 100"
  shows "CONV (ucast (bcd n)) = of_nat n"
proof -
  have "\<forall>n \<in> set [0..<100]. CONV (ucast (bcd n)) = of_nat n" by code_simp
  with assms show ?thesis by simp
qed

definition shows_date :: "(nat \<Rightarrow> byte \<Rightarrow> byte) \<Rightarrow> nat \<Rightarrow> nat list \<Rightarrow> bool" where
  "shows_date f n d \<longleftrightarrow> reading f n = \<lparr>second = ucast (bcd (d ! 0)), minute = ucast (bcd (d ! 1)), hour = ucast (bcd (d ! 2)),
     day = ucast (bcd (d ! 3)), month = ucast (bcd (d ! 4)), year = ucast (bcd (d ! 5))\<rparr>"

definition date_of :: "nat list \<Rightarrow> RtcDate" where
  "date_of d = \<lparr>second = of_nat (d ! 0), minute = of_nat (d ! 1), hour = of_nat (d ! 2), day = of_nat (d ! 3), month = of_nat (d ! 4),
     year = of_nat (2000 + d ! 5)\<rparr>"

text \<open>
  C31: \<open>cmosTime\<close> returns as soon as the clock is quiet, and what it returns is a date the clock showed.  When the registers do
  not change from some read on and no update is in progress then, the loop ends; its last thirteen reads of the chip read the
  date twice with the same result and no update in progress in between, and when the chip showed a date as binary coded decimals, it is that date
  in the twenty-first century.
\<close>

theorem cmos_time_reads_clock:
  assumes quiet: "\<forall>n \<ge> N. rtc (apic s) n = R" "ucast (R CMOS_STATA) AND CMOS_UIP = 0" and fuel: "N < fuel"
    and mode: "ucast (rtc (apic s) (rtcReads (apic s)) CMOS_STATB) AND push_bit 2 1 = (0 :: u32)"
  shows "\<exists>n d t. cmosTime fuel s = Ret d t \<and> steady (rtc (apic s)) n \<and> rtcReads (apic s) < n \<and> rtcReads (apic t) = n + 13 \<and>
    (\<forall>e. (\<forall>i < 6. e ! i < 100) \<and> shows_date (rtc (apic s)) n e \<longrightarrow> d = date_of e)"
proof -
  obtain u where u: "cmosRead CMOS_STATB s = Ret (ucast (rtc (apic s) (rtcReads (apic s)) CMOS_STATB)) u" "after_reads 1 s u"
    using cmosRead_run by blast
  then have r: "rtc (apic u) = rtc (apic s)" by (simp add: after_reads_def)
  obtain n t where t: "cmosLoop fuel u = Ret (reading (rtc (apic s)) n) t" "steady (rtc (apic s)) n" "rtcReads (apic u) \<le> n" "rtcReads (apic t) = n + 13"
    using cmosLoop_returns [of N u R fuel] quiet fuel unfolding r by auto
  let ?d = "reading (rtc (apic s)) n"
  let ?r = "\<lparr>second = CONV (second ?d), minute = CONV (minute ?d), hour = CONV (hour ?d), day = CONV (day ?d),
    month = CONV (month ?d), year = CONV (year ?d) + 2000\<rparr>"
  have "cmosTime fuel s = Ret ?r t" using u(1) t(1) mode by (simp add: cmosTime_def kmonad Let_def)
  moreover have "?r = date_of e" if "\<forall>i < 6. e ! i < 100" "shows_date (rtc (apic s)) n e" for e
    using that by (simp add: shows_date_def date_of_def CONV_bcd)
  moreover have "rtcReads (apic s) < n" using t(3) u(2) by (simp add: after_reads_def)
  ultimately show ?thesis using t(2,4) by blast
qed

theorem cmos_time_reads_clock_witness:
  "\<exists>(s :: kapic) d t. cmosTime 1 s = Ret d t \<and> d = \<lparr>second = 56, minute = 34, hour = 12, day = 31, month = 12, year = 2019\<rparr>"
proof -
  obtain k :: kfat where True by blast
  define R :: "byte \<Rightarrow> byte" where "R = (\<lambda>r. if r = 0 then 0x56 else if r = 2 then 0x34 else if r = 4 then 0x12 else if r = 7 then 0x31
    else if r = 8 then 0x12 else if r = 9 then 0x19 else 0)"
  define s where "s = (apic_boot k (\<lambda>_. 0))\<lparr>apic := blank_apic\<lparr>rtc := \<lambda>_. R\<rparr>\<rparr>"
  have "\<exists>n d t. cmosTime 1 s = Ret d t \<and> steady (rtc (apic s)) n \<and> rtcReads (apic s) < n \<and> rtcReads (apic t) = n + 13 \<and>
      (\<forall>e. (\<forall>i < 6. e ! i < 100) \<and> shows_date (rtc (apic s)) n e \<longrightarrow> d = date_of e)"
    by (rule cmos_time_reads_clock [of 0 s R]) (simp_all add: s_def R_def blank_apic_def const_defs)
  then obtain n d t where "cmosTime 1 s = Ret d t" and d: "\<And>e. \<forall>i < 6. e ! i < 100 \<Longrightarrow> shows_date (rtc (apic s)) n e \<Longrightarrow> d = date_of e"
    by blast
  moreover have "d = date_of [56, 34, 12, 31, 12, 19]"
  proof (rule d)
    show "\<forall>i < 6. [56, 34, 12, 31, 12, 19] ! i < (100 :: nat)" by (auto simp: less_Suc_eq eval_nat_numeral)
    show "shows_date (rtc (apic s)) n [56, 34, 12, 31, 12, 19]" by (simp add: s_def shows_date_def reading_def R_def bcd_def)
  qed
  ultimately show ?thesis by (auto simp: date_of_def)
qed

section \<open>Interrupt routing\<close>

text \<open>\<open>line d i\<close>: the two redirection registers of interrupt line \<open>i\<close>.\<close>

definition low :: "nat \<Rightarrow> u32" where "low i = REG_TABLE + 2 * of_nat i"
definition high :: "nat \<Rightarrow> u32" where "high i = REG_TABLE + 2 * of_nat i + 1"

definition line :: "ApicState \<Rightarrow> nat \<Rightarrow> u32 \<times> u32" where
  "line d i = (ioApicReg d (low i), ioApicReg d (high i))"

definition masked_line :: "nat \<Rightarrow> u32 \<times> u32" where
  "masked_line i = (INT_DISABLED OR (T_IRQ0 + of_nat i), 0)"

lemma table_index [simp]:
  assumes "i < 256" "j < 256"
  shows "low i = low j \<longleftrightarrow> i = j" "high i = high j \<longleftrightarrow> i = j" "low i \<noteq> high j" "high i \<noteq> low j"
proof -
  have v: "unat (low k) = 16 + 2 * k" "unat (high k) = 17 + 2 * k" if "k < 256" for k
    using that by (simp_all add: low_def high_def REG_TABLE_def unat_word_ariths unat_of_nat_u32)
  note u = v [OF assms(1)] v [OF assms(2)]
  show "low i = low j \<longleftrightarrow> i = j" "high i = high j \<longleftrightarrow> i = j" using u by (auto simp: word_unat_eq_iff)
  have "16 + 2 * i \<noteq> 17 + 2 * j" "17 + 2 * i \<noteq> 16 + 2 * j" by presburger+
  then show "low i \<noteq> high j" "high i \<noteq> low j" using u by metis+
qed

definition set_line :: "nat \<Rightarrow> u32 \<times> u32 \<Rightarrow> ApicState \<Rightarrow> ApicState" where
  "set_line i v d = d\<lparr>ioApicSel := high i, ioApicReg := (ioApicReg d)(low i := fst v, high i := snd v)\<rparr>"

lemma set_line_sel [simp]: "ioApicPtr (set_line i v d) = ioApicPtr d"
  by (simp add: set_line_def)

lemma line_set_line [simp]: "i < 256 \<Longrightarrow> j < 256 \<Longrightarrow> line (set_line i v d) j = (if j = i then v else line d j)"
  by (simp add: set_line_def line_def)

lemma route_run: "ioApicPtr (apic s) \<noteq> 0 \<Longrightarrow>
    bindK (ioApicWrite (low i) a) (\<lambda>_. ioApicWrite (high i) b) s = Ret () (s\<lparr>apic := set_line i (a, b) (apic s)\<rparr>)"
  by (simp add: ioApicWrite_def updApic_def kmonad set_line_def)

lemma mask_run: "ioApicPtr (apic s) \<noteq> 0 \<Longrightarrow>
    foreachK is (\<lambda>i. bindK (ioApicWrite (low i) (INT_DISABLED OR (T_IRQ0 + of_nat i))) (\<lambda>_. ioApicWrite (high i) 0)) s =
    Ret () (s\<lparr>apic := fold (\<lambda>i. set_line i (masked_line i)) is (apic s)\<rparr>)"
proof (induction "is" arbitrary: s)
  case (Cons i "is")
  have "bindK (ioApicWrite (low i) (INT_DISABLED OR (T_IRQ0 + of_nat i))) (\<lambda>_. ioApicWrite (high i) 0) s =
      Ret () (s\<lparr>apic := set_line i (masked_line i) (apic s)\<rparr>)"
    using route_run [OF Cons.prems] by (simp add: masked_line_def)
  then show ?case using Cons.IH [of "s\<lparr>apic := set_line i (masked_line i) (apic s)\<rparr>"] Cons.prems by (simp add: bindK_Ret)
qed (simp add: kmonad)

lemma masked_lines: "\<forall>i \<in> set is. i < 256 \<Longrightarrow> j < 256 \<Longrightarrow>
    line (fold (\<lambda>i. set_line i (masked_line i)) is d) j = (if j \<in> set is then masked_line j else line d j)"
  by (induction "is" arbitrary: d) auto

lemma masked_ptr [simp]: "ioApicPtr (fold (\<lambda>i. set_line i (masked_line i)) is d) = ioApicPtr d"
  by (induction "is" arbitrary: d) auto

lemma enable_run:
  assumes "ioApicPtr (apic s) \<noteq> 0"
  shows "ioApicEnable (of_nat i) c s = Ret () (s\<lparr>apic := set_line i (T_IRQ0 + of_nat i, push_bit 24 c) (apic s)\<rparr>)"
  using route_run [OF assms, of i "T_IRQ0 + of_nat i" "push_bit 24 c"] by (simp add: ioApicEnable_def low_def high_def)

definition enabled_line :: "nat \<Rightarrow> u32 \<Rightarrow> u32 \<times> u32" where
  "enabled_line i c = (T_IRQ0 + of_nat i, push_bit 24 c)"

lemma enables_run:
  assumes "ioApicPtr (apic s) \<noteq> 0" "\<forall>(i, c) \<in> set ics. i < 256"
  shows "\<exists>d. foreachK ics (\<lambda>(i, c). ioApicEnable (of_nat i) c) s = Ret () (s\<lparr>apic := d\<rparr>) \<and>
    (\<forall>j < 256. line d j = (case map_of (rev ics) j of None \<Rightarrow> line (apic s) j | Some c \<Rightarrow> enabled_line j c))"
  using assms
proof (induction ics arbitrary: s rule: list.induct)
  case (Cons ic ics)
  obtain i c where ic: "ic = (i, c)" by (cases ic)
  let ?d = "set_line i (T_IRQ0 + of_nat i, push_bit 24 c) (apic s)"
  have "\<exists>d. foreachK ics (\<lambda>(i, c). ioApicEnable (of_nat i) c) (s\<lparr>apic := ?d\<rparr>) = Ret () (s\<lparr>apic := d\<rparr>) \<and>
    (\<forall>j < 256. line d j = (case map_of (rev ics) j of None \<Rightarrow> line ?d j | Some c \<Rightarrow> enabled_line j c))"
    using Cons.IH [of "s\<lparr>apic := ?d\<rparr>"] Cons.prems by (simp cong: option.case_cong)
  then obtain d where "foreachK ics (\<lambda>(i, c). ioApicEnable (of_nat i) c) (s\<lparr>apic := ?d\<rparr>) = Ret () (s\<lparr>apic := d\<rparr>)"
    "\<forall>j < 256. line d j = (case map_of (rev ics) j of None \<Rightarrow> line ?d j | Some c \<Rightarrow> enabled_line j c)"
    by blast
  moreover have "foreachK (ic # ics) (\<lambda>(i, c). ioApicEnable (of_nat i) c) s =
      foreachK ics (\<lambda>(i, c). ioApicEnable (of_nat i) c) (s\<lparr>apic := ?d\<rparr>)"
    using enable_run [OF Cons.prems(1), of i c] by (simp add: ic bindK_run)
  moreover have "i < 256" using Cons.prems(2) by (simp add: ic)
  ultimately show ?case
    by (intro exI [of _ d]) (simp add: ic enabled_line_def map_add_def split: option.split)
next
  case Nil
  show ?case by (rule exI [of _ "apic s"]) (simp add: kmonad)
qed

text \<open>
  C32: after the I/O APIC is initialised and some interrupts are enabled, exactly those are unmasked, each with its vector and
  routed to the processor named last; every other line is masked and goes to no processor.
\<close>

theorem only_enabled_interrupts:
  assumes lines: "drop_bit 16 (ioApicReg (apic s) REG_VER) AND 0xFF = of_nat n" "n < 256"
    and ident: "drop_bit 24 (ioApicReg (apic s) REG_ID) = ucast (ioapicid (apic s))"
    and irqs: "\<forall>(i, c) \<in> set irqs. i \<le> n"
  shows "\<exists>t. bindK ioApicInitialise (\<lambda>_. foreachK irqs (\<lambda>(i, c). ioApicEnable (of_nat i) c)) s = Ret () t \<and>
    (\<forall>j \<le> n. line (apic t) j = (case map_of (rev irqs) j of None \<Rightarrow> masked_line j | Some c \<Rightarrow> enabled_line j c))"
proof -
  let ?d = "(apic s)\<lparr>ioApicPtr := IOAPIC, ioApicSel := REG_ID\<rparr>"
  define u where "u = s\<lparr>apic := fold (\<lambda>i. set_line i (masked_line i)) [0..<Suc n] ?d\<rparr>"
  have n: "unat (of_nat n :: u32) = n" using lines(2) by (simp add: unat_of_nat_u32)
  have "ioApicInitialise s = foreachK [0..<Suc n] (\<lambda>i. bindK (ioApicWrite (low i) (INT_DISABLED OR (T_IRQ0 + of_nat i))) (\<lambda>_. ioApicWrite (high i) 0)) (s\<lparr>apic := ?d\<rparr>)"
    using lines(1) ident n unfolding low_def high_def
    by (simp add: ioApicInitialise_def ioApicRead_def updApic_def kmonad Let_def IOAPIC_def)
  also have "\<dots> = Ret () u" unfolding u_def by (subst mask_run) (simp_all add: IOAPIC_def)
  finally have init: "ioApicInitialise s = Ret () u" .
  obtain e where "foreachK irqs (\<lambda>(i, c). ioApicEnable (of_nat i) c) u = Ret () (u\<lparr>apic := e\<rparr>)"
    "\<forall>j < 256. line e j = (case map_of (rev irqs) j of None \<Rightarrow> line (apic u) j | Some c \<Rightarrow> enabled_line j c)"
    using enables_run [of u irqs] irqs lines(2) by (force simp: u_def IOAPIC_def)
  moreover have "line (apic u) j = masked_line j" if "j \<le> n" for j
    unfolding u_def using that lines(2) by (simp add: masked_lines del: upt_Suc)
  ultimately show ?thesis using init lines(2) by (auto simp: bindK_Ret split: option.split)
qed

theorem only_enabled_interrupts_witness:
  "\<exists>(s :: kapic) t. bindK ioApicInitialise (\<lambda>_. foreachK [(1, 0), (14, 1)] (\<lambda>(i, c). ioApicEnable (of_nat i) c)) s = Ret () t \<and>
    line (apic t) 1 = (33, 0) \<and> line (apic t) 14 = (46, 0x1000000) \<and> line (apic t) 0 = (0x10020, 0)"
proof -
  obtain k :: kfat where True by blast
  define s where "s = (apic_boot k (\<lambda>_. 0))\<lparr>apic := blank_apic\<lparr>ioApicReg := \<lambda>r. if r = 1 then 0x170011 else 0\<rparr>\<rparr>"
  have "\<exists>t. bindK ioApicInitialise (\<lambda>_. foreachK [(1, 0), (14, 1)] (\<lambda>(i, c). ioApicEnable (of_nat i) c)) s = Ret () t \<and>
      (\<forall>j \<le> 23. line (apic t) j = (case map_of (rev [(1, 0), (14, 1)]) j of None \<Rightarrow> masked_line j | Some c \<Rightarrow> enabled_line j c))"
    by (rule only_enabled_interrupts) (simp_all add: s_def blank_apic_def const_defs)
  then obtain t where "bindK ioApicInitialise (\<lambda>_. foreachK [(1, 0), (14, 1)] (\<lambda>(i, c). ioApicEnable (of_nat i) c)) s = Ret () t"
    and l: "\<And>j. j \<le> 23 \<Longrightarrow> line (apic t) j = (case map_of (rev [(1, 0), (14, 1)]) j of None \<Rightarrow> masked_line j | Some c \<Rightarrow> enabled_line j c)"
    by blast
  moreover have "line (apic t) 1 = (33, 0)" "line (apic t) 14 = (46, 0x1000000)" "line (apic t) 0 = (0x10020, 0)"
    using l [of 1] l [of 14] l [of 0] by (simp_all add: masked_line_def enabled_line_def const_defs)
  ultimately show ?thesis by blast
qed

end
