(* ===== verification/Input.thy ===== *)
theory Input
  imports Apic
begin

text \<open>
  Console input (\<^verbatim>\<open>console.c\<close>), the keyboard (\<^verbatim>\<open>kbd.c\<close>, \<^verbatim>\<open>kbd.h\<close>) and the receiving side and set-up of the serial port
  (\<^verbatim>\<open>uart.c\<close>).  The keyboard controller and the serial port hold the bytes that have arrived and not been read; none arrive
  while an interrupt handler runs, so its loop has one round for every byte and one to find the queue empty.  The
  edit buffer is the array of \<open>INPUT_BUF\<close> characters with its three indices; \<^verbatim>\<open>consoleRead\<close> stops at the switch inside
  \<^verbatim>\<open>sleep\<close> like the operations of \<open>Pipe\<close>.
\<close>

unbundle bit_operations_syntax

section \<open>Definitions\<close>

subsection \<open>State\<close>

record InputState =
  inBuf :: "byte list"
  inR :: u32
  inW :: u32
  inE :: u32
  shiftKeys :: u32
  scancodes :: "byte list"
  received :: "byte list"
  uartPresent :: bool
  consoleDevice :: bool

record kinput = kapic +
  input :: InputState

interpretation input_field: hw_field input input_update by unfold_locales simp_all

definition updInput :: "(InputState \<Rightarrow> InputState) \<Rightarrow> ('a kinput_scheme, unit) op" where
  "updInput f = modifyK (\<lambda>s. s\<lparr>input := f (input s)\<rparr>)"

definition INPUT_BUF :: u32 where [const_defs]: "INPUT_BUF = 128"

subsection \<open>Keyboard\<close>

definition KBS_DIB :: byte where [const_defs]: "KBS_DIB = 0x01"
definition SHIFT :: u32 where [const_defs]: "SHIFT = push_bit 0 1"
definition CTL :: u32 where [const_defs]: "CTL = push_bit 1 1"
definition ALT :: u32 where [const_defs]: "ALT = push_bit 2 1"
definition CAPSLOCK :: u32 where [const_defs]: "CAPSLOCK = push_bit 3 1"
definition NUMLOCK :: u32 where [const_defs]: "NUMLOCK = push_bit 4 1"
definition SCROLLLOCK :: u32 where [const_defs]: "SCROLLLOCK = push_bit 5 1"
definition E0ESC :: u32 where [const_defs]: "E0ESC = push_bit 6 1"

text \<open>An array of 256 bytes given by its first elements and by designated ones; the others are zero.\<close>

definition table256 :: "byte list \<Rightarrow> (byte \<times> byte) list \<Rightarrow> byte \<Rightarrow> byte" where
  "table256 dense sparse i =
     (case map_of sparse i of Some v \<Rightarrow> v | None \<Rightarrow> if unat i < length dense then dense ! unat i else 0)"

definition shiftcode :: "byte \<Rightarrow> byte" where
  "shiftcode = table256 [] [(0x1D, 2), (0x2A, 1), (0x36, 1), (0x38, 4), (0x9D, 2), (0xB8, 4)]"

definition togglecode :: "byte \<Rightarrow> byte" where
  "togglecode = table256 [] [(0x3A, 8), (0x45, 16), (0x46, 32)]"

definition normalmap :: "byte \<Rightarrow> byte" where
  "normalmap = table256
     [0, 0x1B, 0x31, 0x32, 0x33, 0x34, 0x35, 0x36,  0x37, 0x38, 0x39, 0x30, 0x2D, 0x3D, 0x08, 0x09,
      0x71, 0x77, 0x65, 0x72, 0x74, 0x79, 0x75, 0x69,  0x6F, 0x70, 0x5B, 0x5D, 0x0A, 0, 0x61, 0x73,
      0x64, 0x66, 0x67, 0x68, 0x6A, 0x6B, 0x6C, 0x3B,  0x27, 0x60, 0, 0x5C, 0x7A, 0x78, 0x63, 0x76,
      0x62, 0x6E, 0x6D, 0x2C, 0x2E, 0x2F, 0, 0x2A,  0, 0x20, 0, 0, 0, 0, 0, 0,
      0, 0, 0, 0, 0, 0, 0, 0x37,  0x38, 0x39, 0x2D, 0x34, 0x35, 0x36, 0x2B, 0x31,
      0x32, 0x33, 0x30, 0x2E, 0, 0, 0, 0]
     [(0x9C, 0x0A), (0xB5, 0x2F), (0xC8, 0xE2), (0xD0, 0xE3), (0xC9, 0xE6), (0xD1, 0xE7), (0xCB, 0xE4), (0xCD, 0xE5),
      (0x97, 0xE0), (0xCF, 0xE1), (0xD2, 0xE8), (0xD3, 0xE9)]"

definition shiftmap :: "byte \<Rightarrow> byte" where
  "shiftmap = table256
     [0, 0x1B, 0x21, 0x40, 0x23, 0x24, 0x25, 0x5E,  0x26, 0x2A, 0x28, 0x29, 0x5F, 0x2B, 0x08, 0x09,
      0x51, 0x57, 0x45, 0x52, 0x54, 0x59, 0x55, 0x49,  0x4F, 0x50, 0x7B, 0x7D, 0x0A, 0, 0x41, 0x53,
      0x44, 0x46, 0x47, 0x48, 0x4A, 0x4B, 0x4C, 0x3A,  0x22, 0x7E, 0, 0x7C, 0x5A, 0x58, 0x43, 0x56,
      0x42, 0x4E, 0x4D, 0x3C, 0x3E, 0x3F, 0, 0x2A,  0, 0x20, 0, 0, 0, 0, 0, 0,
      0, 0, 0, 0, 0, 0, 0, 0x37,  0x38, 0x39, 0x2D, 0x34, 0x35, 0x36, 0x2B, 0x31,
      0x32, 0x33, 0x30, 0x2E, 0, 0, 0, 0]
     [(0x9C, 0x0A), (0xB5, 0x2F), (0xC8, 0xE2), (0xD0, 0xE3), (0xC9, 0xE6), (0xD1, 0xE7), (0xCB, 0xE4), (0xCD, 0xE5),
      (0x97, 0xE0), (0xCF, 0xE1), (0xD2, 0xE8), (0xD3, 0xE9)]"

definition ctlmap :: "byte \<Rightarrow> byte" where
  "ctlmap = table256
     [0, 0, 0, 0, 0, 0, 0, 0,  0, 0, 0, 0, 0, 0, 0, 0,
      0x11, 0x17, 0x05, 0x12, 0x14, 0x19, 0x15, 0x09,  0x0F, 0x10, 0, 0, 0x0D, 0, 0x01, 0x13,
      0x04, 0x06, 0x07, 0x08, 0x0A, 0x0B, 0x0C, 0,  0, 0, 0, 0x1C, 0x1A, 0x18, 0x03, 0x16,
      0x02, 0x0E, 0x0D, 0, 0, 0xEF, 0, 0]
     [(0x9C, 0x0D), (0xB5, 0xEF), (0xC8, 0xE2), (0xD0, 0xE3), (0xC9, 0xE6), (0xD1, 0xE7), (0xCB, 0xE4), (0xCD, 0xE5),
      (0x97, 0xE0), (0xCF, 0xE1), (0xD2, 0xE8), (0xD3, 0xE9)]"

text \<open>One scan code: the new state of the shift keys and the character, 0 for none.\<close>

definition keyPress :: "u32 \<Rightarrow> byte \<Rightarrow> u32 \<times> byte" where
  "keyPress sh data =
     (let sh = (sh OR ucast (shiftcode data)) XOR ucast (togglecode data);
          c = (if sh AND (CTL OR SHIFT) = 0 then normalmap data
               else if sh AND (CTL OR SHIFT) = 1 then shiftmap data else ctlmap data);
          c = (if sh AND CAPSLOCK \<noteq> 0
               then if 0x61 \<le> c \<and> c \<le> 0x7A then c - 0x20 else if 0x41 \<le> c \<and> c \<le> 0x5A then c + 0x20 else c
               else c) in (sh, c))"

definition keyCode :: "u32 \<Rightarrow> byte \<Rightarrow> u32 \<times> byte" where
  "keyCode sh data =
     (if data = 0xE0 then (sh OR E0ESC, 0)
      else if data AND 0x80 \<noteq> 0
      then (sh AND NOT (ucast (shiftcode (if sh AND E0ESC \<noteq> 0 then data else data AND 0x7F)) OR E0ESC), 0)
      else if sh AND E0ESC \<noteq> 0 then keyPress (sh AND NOT E0ESC) (data OR 0x80)
      else keyPress sh data)"

definition kbdgetc :: "('a kinput_scheme, int) op" where
  "kbdgetc =
     bindK (getK input) (\<lambda>d.
     let st = (if scancodes d = [] then 0 else KBS_DIB) in
     if st AND KBS_DIB = 0 then returnK (-1)
     else let (sh, c) = keyCode (shiftKeys d) (hd (scancodes d)) in
       bindK (updInput (\<lambda>d. d\<lparr>scancodes := tl (scancodes d), shiftKeys := sh\<rparr>)) (\<lambda>_.
       returnK (uint c)))"

subsection \<open>Serial port\<close>

definition uartgetc :: "('a kinput_scheme, int) op" where
  "uartgetc =
     bindK (getK cons) (\<lambda>k.
     bindK (getK input) (\<lambda>d.
     if uart k = 0 then returnK (-1)
     else if received d = [] then returnK (-1)
     else bindK (updInput (\<lambda>d. d\<lparr>received := tl (received d)\<rparr>)) (\<lambda>_.
       returnK (uint (hd (received d))))))"

definition uartinit :: "('a kinput_scheme, unit) op" where
  "uartinit =
     bindK (foreachK [(0x3fa, 0), (0x3fb, 0x80), (0x3f8, 115200 div 9600), (0x3f9, 0), (0x3fb, 0x03), (0x3fc, 0), (0x3f9, 0x01)]
       (\<lambda>(port, v). outputByteToPort port v)) (\<lambda>_.
     bindK (getK input) (\<lambda>d.
     if \<not> uartPresent d then returnK ()
     else bindK (updCons (\<lambda>k. k\<lparr>uart := 1\<rparr>)) (\<lambda>_.
       bindK (updInput (\<lambda>d. d\<lparr>received := tl (received d)\<rparr>)) (\<lambda>_.
       bindK (ioApicEnable IRQ_COM1 0) (\<lambda>_.
       foreachK (''xv6...'' @ [CHR 0x0A]) (\<lambda>c. uartputc (of_char c)))))))"

subsection \<open>Listing of the processes\<close>

fun getProcessCallStack :: "nat \<Rightarrow> memory \<Rightarrow> u32 \<Rightarrow> u32 list" where
  "getProcessCallStack 0 m ebp = []"
| "getProcessCallStack (Suc n) m ebp =
     (if ebp = 0 \<or> ebp < KERNBASE \<or> ebp = 0xffffffff then replicate (Suc n) 0
      else load32 m (ebp + 4) # getProcessCallStack n m (load32 m ebp))"

definition stateName :: "procstate \<Rightarrow> string" where
  "stateName st = (case st of UNUSED \<Rightarrow> ''unused'' | EMBRYO \<Rightarrow> ''embryo'' | SLEEPING \<Rightarrow> ''sleep '' | RUNNABLE \<Rightarrow> ''Runnable''
     | RUNNING \<Rightarrow> ''Running'' | ZOMBIE \<Rightarrow> ''zombie'')"

definition processDump :: "('a kinput_scheme, unit) op" where
  "processDump =
     bindK (cprintf (Some [CHR 0x0A]) []) (\<lambda>_.
     foreachK [0..<NPROC] (\<lambda>k.
       bindK (getProc k) (\<lambda>p.
       whenK (State p \<noteq> UNUSED)
         (bindK (cprintf (Some ''%d %s %s'') [IntArg (word_of_int (ProcessId p)), StrArg (Some (stateName (State p))), StrArg (Some (Name p))]) (\<lambda>_.
          bindK (whenK (State p = SLEEPING)
            (bindK (getK mem) (\<lambda>m.
             foreachK (takeWhile (\<lambda>pc. pc \<noteq> 0) (getProcessCallStack 10 m (load32 m (Context p + 12))))
               (\<lambda>pc. cprintf (Some '' %p'') [IntArg pc])))) (\<lambda>_.
          cprintf (Some [CHR 0x0A]) []))))))"

subsection \<open>Console input\<close>

definition lineAbove :: "InputState \<Rightarrow> byte" where
  "lineAbove d = inBuf d ! unat ((inE d - 1) mod INPUT_BUF)"

fun killLine :: "nat \<Rightarrow> ('a kinput_scheme, unit) op" where
  "killLine 0 = returnK ()"
| "killLine (Suc n) =
     bindK (getK input) (\<lambda>d.
     if inE d \<noteq> inW d \<and> lineAbove d \<noteq> 0x0A
     then bindK (updInput (\<lambda>d. d\<lparr>inE := inE d - 1\<rparr>)) (\<lambda>_.
          bindK (consputc BACKSPACE) (\<lambda>_. killLine n))
     else returnK ())"

definition putChar :: "int \<Rightarrow> InputState \<Rightarrow> InputState" where
  "putChar c d = d\<lparr>inBuf := (inBuf d)[unat (inE d mod INPUT_BUF) := word_of_int c], inE := inE d + 1\<rparr>"

definition consoleChar :: "int \<Rightarrow> ('a kinput_scheme, bool) op" where
  "consoleChar c =
     (if c = 0x10 then returnK True
      else if c = 0x15 then bindK (getK input) (\<lambda>d. bindK (killLine (unat (inE d - inW d))) (\<lambda>_. returnK False))
      else if c = 0x08 \<or> c = 0x7F then
        bindK (getK input) (\<lambda>d.
        bindK (whenK (inE d \<noteq> inW d)
          (bindK (updInput (\<lambda>d. d\<lparr>inE := inE d - 1\<rparr>)) (\<lambda>_. consputc BACKSPACE))) (\<lambda>_.
        returnK False))
      else
        bindK (getK input) (\<lambda>d.
        bindK (whenK (c \<noteq> 0 \<and> inE d - inR d < INPUT_BUF)
          (let c = (if c = 0x0D then 0x0A else c) in
           bindK (updInput (putChar c)) (\<lambda>_.
           bindK (consputc c) (\<lambda>_.
           bindK (getK input) (\<lambda>d.
           whenK (c = 0x0A \<or> c = 0x04 \<or> inE d = inR d + INPUT_BUF)
             (bindK (updInput (\<lambda>d. d\<lparr>inW := inE d\<rparr>)) (\<lambda>_.
              wakeup InputChan))))))) (\<lambda>_.
        returnK False)))"

fun consoleInterrupt_loop :: "nat \<Rightarrow> ('a kinput_scheme, int) op \<Rightarrow> bool \<Rightarrow> ('a kinput_scheme, bool) op" where
  "consoleInterrupt_loop 0 getc dump = hangK"
| "consoleInterrupt_loop (Suc n) getc dump =
     bindK getc (\<lambda>c.
     if c < 0 then returnK dump
     else bindK (consoleChar c) (\<lambda>p. consoleInterrupt_loop n getc (dump \<or> p)))"

definition consoleInterrupt :: "('a kinput_scheme, int) op \<Rightarrow> ('a kinput_scheme, unit) op" where
  "consoleInterrupt getc =
     bindK (spinlockAcquire ConsLock) (\<lambda>_.
     bindK (getK input) (\<lambda>d.
     bindK (consoleInterrupt_loop (Suc (length (scancodes d) + length (received d))) getc False) (\<lambda>doprocdump.
     bindK (spinlockRelease ConsLock) (\<lambda>_.
     whenK doprocdump processDump))))"

definition keyboardInterrupt :: "('a kinput_scheme, unit) op" where
  "keyboardInterrupt = consoleInterrupt kbdgetc"

definition uartintr :: "('a kinput_scheme, unit) op" where
  "uartintr = consoleInterrupt uartgetc"

datatype read_progress = ReadDone int "byte list" | ReadAsleep "nat \<times> u32" "byte list"

definition readFinish :: "nat \<Rightarrow> nat \<Rightarrow> byte list \<Rightarrow> ('a kinput_scheme, read_progress) op" where
  "readFinish target n dst =
     bindK (spinlockRelease ConsLock) (\<lambda>_. returnK (ReadDone (int target - int n) dst))"

fun consoleRead_loop :: "nat \<Rightarrow> nat \<Rightarrow> byte list \<Rightarrow> ('a kinput_scheme, read_progress) op" where
  "consoleRead_loop target 0 dst = readFinish target 0 dst"
| "consoleRead_loop target (Suc n) dst =
     bindK (getK input) (\<lambda>d.
     if inR d = inW d then
       bindK currentProcess (\<lambda>k. bindK (getProc k) (\<lambda>p.
       if IsKilled p \<noteq> 0 then bindK (spinlockRelease ConsLock) (\<lambda>_. returnK (ReadDone (-1) dst))
       else bindK (sleep_enter InputChan (Some ConsLock)) (\<lambda>local. returnK (ReadAsleep local dst))))
     else
       let c = inBuf d ! unat (inR d mod INPUT_BUF) in
       bindK (updInput (\<lambda>d. d\<lparr>inR := inR d + 1\<rparr>)) (\<lambda>_.
       if c = 0x04 then
         bindK (whenK (Suc n < target) (updInput (\<lambda>d. d\<lparr>inR := inR d - 1\<rparr>))) (\<lambda>_.
         readFinish target (Suc n) dst)
       else if c = 0x0A then readFinish target n (dst @ [c])
       else consoleRead_loop target n (dst @ [c])))"

definition consoleRead :: "int \<Rightarrow> ('a kinput_scheme, read_progress) op" where
  "consoleRead n = bindK (spinlockAcquire ConsLock) (\<lambda>_. consoleRead_loop (nat n) (nat n) [])"

definition consoleRead_resume :: "int \<Rightarrow> nat \<times> u32 \<Rightarrow> byte list \<Rightarrow> ('a kinput_scheme, read_progress) op" where
  "consoleRead_resume n local dst =
     bindK (sleep_exit ConsLock local) (\<lambda>_. consoleRead_loop (nat n) (nat n - length dst) dst)"

definition consoleInitialise :: "('a kinput_scheme, unit) op" where
  "consoleInitialise =
     bindK (spinlockInitialise ConsLock ''console'') (\<lambda>_.
     bindK (updInput (\<lambda>d. d\<lparr>consoleDevice := True\<rparr>)) (\<lambda>_.
     bindK (updCons (\<lambda>k. k\<lparr>Locking := 1\<rparr>)) (\<lambda>_.
     ioApicEnable IRQ_KBD 0)))"

section \<open>The edit buffer as a line editor\<close>

text \<open>
  \<open>pending d\<close>: the characters between the read and the edit index.  \<open>lines d\<close> splits them at the write index into what is
  committed, which readers may take, and what is still being edited.
\<close>

definition pendingLen :: "InputState \<Rightarrow> nat" where "pendingLen d = unat (inE d - inR d)"
definition readyLen :: "InputState \<Rightarrow> nat" where "readyLen d = unat (inW d - inR d)"

definition pending :: "InputState \<Rightarrow> byte list" where
  "pending d = map (\<lambda>j. inBuf d ! ((unat (inR d) + j) mod 128)) [0..<pendingLen d]"

definition lines :: "InputState \<Rightarrow> byte list \<times> byte list" where
  "lines d = (take (readyLen d) (pending d), drop (readyLen d) (pending d))"

definition in_ok :: "InputState \<Rightarrow> bool" where
  "in_ok d \<longleftrightarrow> length (inBuf d) = 128 \<and> pendingLen d \<le> 128 \<and> readyLen d \<le> pendingLen d"

lemma length_pending [simp]: "length (pending d) = pendingLen d"
  by (simp add: pending_def)

lemma input_index: "unat ((x :: u32) mod INPUT_BUF) = unat x mod 128"
  by (simp add: INPUT_BUF_def unat_mod)

lemma edit_index: "unat (inE d) mod 128 = (unat (inR d) + pendingLen d) mod 128"
  using unat_add_ring [of 128 "inR d" "inE d - inR d"] by (simp add: pendingLen_def)

lemma input_full: "inE d = inR d + INPUT_BUF \<longleftrightarrow> pendingLen d = 128"
proof -
  have "inE d = inR d + INPUT_BUF \<longleftrightarrow> inE d - inR d = 128" by (auto simp: INPUT_BUF_def diff_eq_eq)
  also have "\<dots> \<longleftrightarrow> pendingLen d = 128" by (simp add: pendingLen_def word_unat_eq_iff)
  finally show ?thesis .
qed

lemma input_room: "inE d - inR d < INPUT_BUF \<longleftrightarrow> pendingLen d < 128"
  by (simp add: pendingLen_def INPUT_BUF_def word_less_nat_alt)

lemma committed_empty: "inR d = inW d \<longleftrightarrow> readyLen d = 0"
  by (auto simp: readyLen_def unat_eq_0)

lemma editing_empty: "in_ok d \<Longrightarrow> inE d = inW d \<longleftrightarrow> snd (lines d) = []"
  by (auto simp: lines_def in_ok_def pendingLen_def readyLen_def word_unat_eq_iff [symmetric])

lemma unat_pred: "unat (a :: u32) \<noteq> 0 \<Longrightarrow> unat (a - 1) = unat a - 1"
  using unat_diff_of_nat [of 1 a] by simp

lemma editing_length:
  assumes "in_ok d"
  shows "unat (inE d - inW d) = length (snd (lines d))"
proof -
  have "inE d - inW d = (inE d - inR d) - (inW d - inR d)" by simp
  also have "unat \<dots> = pendingLen d - readyLen d"
    using assms unat_sub [of "inW d - inR d" "inE d - inR d"] by (simp add: in_ok_def pendingLen_def readyLen_def word_le_nat_alt)
  finally show ?thesis by (simp add: lines_def)
qed

lemma put_pending:
  assumes "length (inBuf d) = 128" "pendingLen d < 128"
  shows "pending (putChar c d) = pending d @ [word_of_int c]" "pendingLen (putChar c d) = Suc (pendingLen d)"
    "readyLen (putChar c d) = readyLen d"
proof -
  have "inE d + 1 - inR d = inE d - inR d + 1" by simp
  also have "unat \<dots> = Suc (pendingLen d)"
    using assms(2) unat_add_of_nat [of "inE d - inR d" 1] by (simp add: pendingLen_def)
  finally show len: "pendingLen (putChar c d) = Suc (pendingLen d)" by (simp add: pendingLen_def putChar_def)
  show "readyLen (putChar c d) = readyLen d" by (simp add: readyLen_def putChar_def)
  let ?w = "(unat (inR d) + pendingLen d) mod 128"
  have b: "inBuf (putChar c d) = (inBuf d)[?w := word_of_int c]" "inR (putChar c d) = inR d"
    by (simp_all add: putChar_def input_index edit_index)
  have "inBuf (putChar c d) ! ((unat (inR d) + j) mod 128) = inBuf d ! ((unat (inR d) + j) mod 128)" if "j < pendingLen d" for j
  proof -
    have "(unat (inR d) + j) mod 128 \<noteq> ?w" using ring_position [of j 128 "pendingLen d" "unat (inR d)"] that assms(2) by auto
    then show ?thesis unfolding b by (metis nth_list_update_neq)
  qed
  moreover have "inBuf (putChar c d) ! ?w = word_of_int c" using assms(1) by (simp add: b)
  ultimately show "pending (putChar c d) = pending d @ [word_of_int c]" by (simp add: pending_def len b(2))
qed

lemma erase_pending:
  assumes "pendingLen d \<noteq> 0"
  shows "pending (d\<lparr>inE := inE d - 1\<rparr>) = butlast (pending d)" "pendingLen (d\<lparr>inE := inE d - 1\<rparr>) = pendingLen d - 1"
    "readyLen (d\<lparr>inE := inE d - 1\<rparr>) = readyLen d" "lineAbove d = last (pending d)"
proof -
  let ?d = "d\<lparr>inE := inE d - 1\<rparr>"
  have e: "inE d - 1 - inR d = inE d - inR d - 1" by simp
  show len: "pendingLen ?d = pendingLen d - 1" using assms unat_pred [of "inE d - inR d"] by (simp add: pendingLen_def e)
  show "readyLen ?d = readyLen d" by (simp add: readyLen_def)
  have up: "[0..<pendingLen d] = [0..<pendingLen d - 1] @ [pendingLen d - 1]" using assms by (cases "pendingLen d") simp_all
  then show "pending ?d = butlast (pending d)" unfolding pending_def len up by simp
  show "lineAbove d = last (pending d)"
    using edit_index [of ?d] unfolding lineAbove_def pending_def up input_index len by simp
qed

lemma take_pending:
  assumes "readyLen d \<noteq> 0" "readyLen d \<le> pendingLen d"
  shows "pending (d\<lparr>inR := inR d + 1\<rparr>) = tl (pending d)" "pendingLen (d\<lparr>inR := inR d + 1\<rparr>) = pendingLen d - 1"
    "readyLen (d\<lparr>inR := inR d + 1\<rparr>) = readyLen d - 1" "inBuf d ! unat (inR d mod INPUT_BUF) = hd (pending d)"
proof -
  let ?d = "d\<lparr>inR := inR d + 1\<rparr>"
  have e: "inE d - (inR d + 1) = inE d - inR d - 1" "inW d - (inR d + 1) = inW d - inR d - 1" by simp_all
  show len: "pendingLen ?d = pendingLen d - 1" "readyLen ?d = readyLen d - 1"
    using assms unat_pred [of "inE d - inR d"] unat_pred [of "inW d - inR d"] by (simp_all add: pendingLen_def readyLen_def e)
  have idx: "(unat (inR d + 1) + j) mod 128 = (unat (inR d) + Suc j) mod 128" for j
    using mod_add_cong [OF unat_add_ring [of 128 "inR d" 1] refl, of j] by simp
  have up: "[0..<pendingLen d] = 0 # map Suc [0..<pendingLen d - 1]" using assms by (simp add: upt_conv_Cons map_Suc_upt)
  show "pending ?d = tl (pending d)" unfolding pending_def len up by (simp add: idx)
  show "inBuf d ! unat (inR d mod INPUT_BUF) = hd (pending d)" unfolding pending_def up by (simp add: input_index)
qed

lemma lines_put:
  assumes "in_ok d" "pendingLen d < 128"
  shows "in_ok (putChar c d)" "lines (putChar c d) = (fst (lines d), snd (lines d) @ [word_of_int c])"
  using assms put_pending [of d c] by (auto simp: in_ok_def lines_def putChar_def [of c d])

lemma lines_erase:
  assumes "in_ok d" "snd (lines d) \<noteq> []"
  shows "in_ok (d\<lparr>inE := inE d - 1\<rparr>)" "lines (d\<lparr>inE := inE d - 1\<rparr>) = (fst (lines d), butlast (snd (lines d)))"
    "lineAbove d = last (snd (lines d))"
proof -
  have len: "readyLen d < pendingLen d" "pendingLen d \<noteq> 0" using assms by (auto simp: lines_def in_ok_def)
  note e = erase_pending [OF len(2)]
  show "in_ok (d\<lparr>inE := inE d - 1\<rparr>)" using assms(1) len e(2,3) by (auto simp: in_ok_def)
  have "take (readyLen d) (butlast (pending d)) = take (readyLen d) (pending d)" using len by (simp add: butlast_conv_take)
  then show "lines (d\<lparr>inE := inE d - 1\<rparr>) = (fst (lines d), butlast (snd (lines d)))"
    using e(1,3) by (simp add: lines_def drop_butlast)
  show "lineAbove d = last (snd (lines d))" using e(4) len by (simp add: lines_def)
qed

lemma lines_commit:
  assumes "in_ok d"
  shows "in_ok (d\<lparr>inW := inE d\<rparr>)" "lines (d\<lparr>inW := inE d\<rparr>) = (fst (lines d) @ snd (lines d), [])"
proof -
  have "pendingLen (d\<lparr>inW := inE d\<rparr>) = pendingLen d" "readyLen (d\<lparr>inW := inE d\<rparr>) = pendingLen d" "pending (d\<lparr>inW := inE d\<rparr>) = pending d"
    by (simp_all add: pendingLen_def readyLen_def pending_def)
  then show "in_ok (d\<lparr>inW := inE d\<rparr>)" "lines (d\<lparr>inW := inE d\<rparr>) = (fst (lines d) @ snd (lines d), [])"
    using assms by (simp_all add: in_ok_def lines_def)
qed

lemma lines_take:
  assumes "in_ok d" "fst (lines d) \<noteq> []"
  shows "in_ok (d\<lparr>inR := inR d + 1\<rparr>)" "lines (d\<lparr>inR := inR d + 1\<rparr>) = (tl (fst (lines d)), snd (lines d))"
    "inBuf d ! unat (inR d mod INPUT_BUF) = hd (fst (lines d))"
proof -
  have len: "readyLen d \<noteq> 0" "readyLen d \<le> pendingLen d" using assms by (auto simp: lines_def in_ok_def)
  note t = take_pending [OF len]
  show "in_ok (d\<lparr>inR := inR d + 1\<rparr>)" using assms(1) len t(2,3) by (auto simp: in_ok_def)
  have "pending d \<noteq> []" using len by (auto simp flip: length_greater_0_conv)
  then have "drop (readyLen d) (pending d) = drop (readyLen d - 1) (tl (pending d))" "take (readyLen d - 1) (tl (pending d)) = tl (take (readyLen d) (pending d))"
    using len by (cases "pending d"; cases "readyLen d"; simp)+
  then show "lines (d\<lparr>inR := inR d + 1\<rparr>) = (tl (fst (lines d)), snd (lines d))" using t(1,3) by (simp add: lines_def)
  show "inBuf d ! unat (inR d mod INPUT_BUF) = hd (fst (lines d))" using t(4) len by (simp add: lines_def)
qed

lemma lines_length: "in_ok d \<Longrightarrow> length (fst (lines d)) + length (snd (lines d)) = pendingLen d"
  by (simp add: lines_def in_ok_def)

text \<open>The line editor that a user of the console sees.\<close>

definition accepted_char :: "byte \<Rightarrow> byte list \<times> byte list \<Rightarrow> bool" where
  "accepted_char c l \<longleftrightarrow> c \<notin> {0, 0x08, 0x10, 0x15, 0x7F} \<and> length (fst l) + length (snd l) < 128"

definition commits :: "byte \<Rightarrow> byte list \<times> byte list \<Rightarrow> bool" where
  "commits c l \<longleftrightarrow> accepted_char c l \<and> (c \<in> {0x04, 0x0A, 0x0D} \<or> length (fst l) + length (snd l) = 127)"

definition edit :: "byte \<Rightarrow> byte list \<times> byte list \<Rightarrow> byte list \<times> byte list" where
  "edit c l =
     (if c = 0x15 then (fst l, rev (dropWhile (\<lambda>x. x \<noteq> 0x0A) (rev (snd l))))
      else if c = 0x08 \<or> c = 0x7F then (fst l, butlast (snd l))
      else if accepted_char c l
      then let new = snd l @ [if c = 0x0D then 0x0A else c] in if commits c l then (fst l @ new, []) else (fst l, new)
      else l)"

definition same_devices :: "InputState \<Rightarrow> InputState \<Rightarrow> bool" where
  "same_devices d e \<longleftrightarrow> scancodes e = scancodes d \<and> received e = received d \<and> shiftKeys e = shiftKeys d \<and>
     uartPresent e = uartPresent d \<and> consoleDevice e = consoleDevice d"

definition console_section :: "nat \<Rightarrow> 'a kinput_scheme \<Rightarrow> bool" where
  "console_section i s \<longleftrightarrow> in_section i s \<and> holds i ConsLock s \<and> lock_free ProcessTableLock s \<and> length (procs s) = NPROC \<and> console_ok (cons s)"

definition typed :: "InputState \<Rightarrow> ConsoleState \<Rightarrow> Process list \<Rightarrow> 'a kinput_scheme \<Rightarrow> 'a kinput_scheme" where
  "typed d k ps s = set_procs ps (s\<lparr>input := d, cons := k\<rparr>)"

lemma typed_sel [simp]:
  "input (typed d k ps s) = d" "cons (typed d k ps s) = k" "procs (typed d k ps s) = ps"
  "typed d' k' ps' (typed d k ps s) = typed d' k' ps' s" "typed (input s) (cons s) (procs s) s = s"
  "apic (typed d k ps s) = apic s" "mem (typed d k ps s) = mem s"
  by (simp_all add: typed_def set_procs_def)

lemma typed_upd:
  "s\<lparr>input := d\<rparr> = typed d (cons s) (procs s) s" "s\<lparr>cons := k\<rparr> = typed (input s) k (procs s) s"
  "set_procs ps s = typed (input s) (cons s) ps s"
  by (simp_all add: typed_def set_procs_def)

lemma typed_lock [simp]:
  "in_section i (typed d k ps s) = in_section i s" "holds i l (typed d k ps s) = holds i l s"
  "lock_free l (typed d k ps s) = lock_free l s" "released i l (typed d k ps s) = typed d k ps (released i l s)"
  "depth i (typed d k ps s) = depth i s" "curproc i (typed d k ps s) = curproc i s"
  "acquired i l (typed d k ps s) = typed d k ps (acquired i l s)"
  by (simp_all add: typed_def depth_def)

lemma typed_cpus [simp]: "cpus (typed d k ps s) = cpus s"
  by (simp add: typed_def)

lemma console_section_typed [simp]:
  "console_section i s \<Longrightarrow> length ps = NPROC \<Longrightarrow> console_ok k \<Longrightarrow> console_section i (typed d k ps s)"
  by (simp add: console_section_def)

lemma section_putc:
  assumes "console_section i s"
  obtains k where "consputc c s = Ret () (typed (input s) k (procs s) s)" "printed [c] (cons s) k"
proof -
  obtain k where "consputc c s = Ret () (s\<lparr>cons := k\<rparr>)" "printed [c] (cons s) k"
    using consputc_run assms by (auto simp: console_section_def)
  then show thesis using that [of k] by (simp add: typed_upd)
qed

lemma section_wakeup: "console_section i s \<Longrightarrow> wakeup c s = Ret () (typed (input s) (cons s) (map (woken c) (procs s)) s)"
  by (simp add: console_section_def wakeup_run [of i] proc_ready_def in_section_cpu_ok resync_section typed_upd)

lemma updInput_run: "updInput f s = Ret () (typed (f (input s)) (cons s) (procs s) s)"
  by (simp add: updInput_def kmonad typed_upd)

lemma same_devices_simps [simp]:
  "same_devices d d" "same_devices d (putChar c e) = same_devices d e" "same_devices d (e\<lparr>inE := x\<rparr>) = same_devices d e"
  "same_devices d (e\<lparr>inW := x\<rparr>) = same_devices d e" "same_devices d (e\<lparr>inR := x\<rparr>) = same_devices d e"
  "same_devices (d\<lparr>inR := x\<rparr>) e = same_devices d e"
  by (simp_all add: same_devices_def putChar_def)

lemma same_devices_trans: "same_devices d e \<Longrightarrow> same_devices e f \<Longrightarrow> same_devices d f"
  by (simp add: same_devices_def)

lemma getK_bind: "bindK (getK f) g s = g (f s) s"
  by (simp add: kmonad)

lemma erase_run:
  assumes "console_section i s" "in_ok (input s)" "snd (lines (input s)) \<noteq> []"
  obtains d k where "bindK (updInput (\<lambda>d. d\<lparr>inE := inE d - 1\<rparr>)) (\<lambda>_. consputc BACKSPACE) s = Ret () (typed d k (procs s) s)"
    "in_ok d" "same_devices (input s) d" "printed [BACKSPACE] (cons s) k" "lines d = (fst (lines (input s)), butlast (snd (lines (input s))))"
proof -
  let ?d = "(input s)\<lparr>inE := inE (input s) - 1\<rparr>"
  have len: "length (procs s) = NPROC" "console_ok (cons s)" using assms(1) by (simp_all add: console_section_def)
  obtain k where "consputc BACKSPACE (typed ?d (cons s) (procs s) s) = Ret () (typed ?d k (procs s) s)" "printed [BACKSPACE] (cons s) k"
    using section_putc [OF console_section_typed [OF assms(1) len]] by (metis typed_sel(1,2,3,4))
  then show thesis using lines_erase [OF assms(2,3)] by (intro that [of ?d k]) (simp_all add: bindK_Ret [OF updInput_run])
qed

lemma killLine_run:
  assumes "console_section i s" "in_ok (input s)" "length (snd (lines (input s))) \<le> n"
  shows "\<exists>d k. killLine n s = Ret () (typed d k (procs s) s) \<and> in_ok d \<and> same_devices (input s) d \<and>
    printed (replicate (length (takeWhile (\<lambda>x. x \<noteq> 0x0A) (rev (snd (lines (input s)))))) BACKSPACE) (cons s) k \<and>
    lines d = (fst (lines (input s)), rev (dropWhile (\<lambda>x. x \<noteq> 0x0A) (rev (snd (lines (input s))))))"
  using assms
proof (induction n arbitrary: s)
  case 0
  then show ?case by (intro exI [of _ "input s"] exI [of _ "cons s"]) (simp add: kmonad console_section_def prod_eq_iff)
next
  case (Suc n)
  let ?ed = "snd (lines (input s))"
  show ?case
  proof (cases "?ed \<noteq> [] \<and> last ?ed \<noteq> 0x0A")
    case True
    obtain d k where d: "bindK (updInput (\<lambda>d. d\<lparr>inE := inE d - 1\<rparr>)) (\<lambda>_. consputc BACKSPACE) s = Ret () (typed d k (procs s) s)"
      "in_ok d" "same_devices (input s) d" "printed [BACKSPACE] (cons s) k" "lines d = (fst (lines (input s)), butlast ?ed)"
      by (rule erase_run [OF Suc.prems(1,2) conjunct1 [OF True]])
    have "console_section i (typed d k (procs s) s)" using Suc.prems(1) d(4) by (simp add: console_section_def printed_def)
    then have "\<exists>d' k'. killLine n (typed d k (procs s) s) = Ret () (typed d' k' (procs s) s) \<and> in_ok d' \<and> same_devices d d' \<and>
      printed (replicate (length (takeWhile (\<lambda>x. x \<noteq> 0x0A) (rev (butlast ?ed)))) BACKSPACE) k k' \<and>
      lines d' = (fst (lines (input s)), rev (dropWhile (\<lambda>x. x \<noteq> 0x0A) (rev (butlast ?ed))))"
      using Suc.IH [of "typed d k (procs s) s"] d(2,5) Suc.prems(3) by simp
    then obtain d' k' where d': "killLine n (typed d k (procs s) s) = Ret () (typed d' k' (procs s) s)" "in_ok d'" "same_devices d d'"
      "printed (replicate (length (takeWhile (\<lambda>x. x \<noteq> 0x0A) (rev (butlast ?ed)))) BACKSPACE) k k'"
      "lines d' = (fst (lines (input s)), rev (dropWhile (\<lambda>x. x \<noteq> 0x0A) (rev (butlast ?ed))))" by blast
    have "killLine (Suc n) s = killLine n (typed d k (procs s) s)"
      using d(1) True lines_erase(3) [OF Suc.prems(2)] editing_empty [OF Suc.prems(2)]
      by (simp add: getK_bind bindK_assoc [symmetric] bindK_Ret)
    moreover have "dropWhile (\<lambda>x. x \<noteq> 0x0A) (rev (butlast ?ed)) = dropWhile (\<lambda>x. x \<noteq> 0x0A) (rev ?ed)"
      "replicate (length (takeWhile (\<lambda>x. x \<noteq> 0x0A) (rev ?ed))) BACKSPACE =
        [BACKSPACE] @ replicate (length (takeWhile (\<lambda>x. x \<noteq> 0x0A) (rev (butlast ?ed)))) BACKSPACE"
      using True by (cases ?ed rule: rev_cases; auto)+
    ultimately show ?thesis using d' True same_devices_trans [OF d(3) d'(3)] printed_append [OF d(4) d'(4)]
      by (intro exI [of _ d'] exI [of _ k']) (simp del: killLine.simps)
  next
    case False
    then have "killLine (Suc n) s = Ret () s"
      using lines_erase(3) [OF Suc.prems(2)] editing_empty [OF Suc.prems(2)] by (auto simp: getK_bind kmonad)
    moreover have "rev (dropWhile (\<lambda>x. x \<noteq> 0x0A) (rev ?ed)) = ?ed" "takeWhile (\<lambda>x. x \<noteq> 0x0A) (rev ?ed) = []"
      using False by (cases ?ed rule: rev_cases; auto)+
    ultimately show ?thesis using Suc.prems by (intro exI [of _ "input s"] exI [of _ "cons s"]) (simp add: console_section_def prod_eq_iff del: killLine.simps)
  qed
qed

text \<open>One character: the buffer follows the editor, and readers are woken exactly when a line is committed.\<close>

definition echo :: "byte \<Rightarrow> byte list \<times> byte list \<Rightarrow> int list" where
  "echo c l =
     (if c = 0x15 then replicate (length (takeWhile (\<lambda>x. x \<noteq> 0x0A) (rev (snd l)))) BACKSPACE
      else if c = 0x08 \<or> c = 0x7F then if snd l = [] then [] else [BACKSPACE]
      else if accepted_char c l then [if c = 0x0D then 0x0A else uint c] else [])"

definition char_done :: "byte \<Rightarrow> 'a kinput_scheme \<Rightarrow> InputState \<Rightarrow> ConsoleState \<Rightarrow> Process list \<Rightarrow> bool" where
  "char_done c s d k ps \<longleftrightarrow> in_ok d \<and> same_devices (input s) d \<and> printed (echo c (lines (input s))) (cons s) k \<and> lines d = edit c (lines (input s)) \<and>
     ps = (if commits c (lines (input s)) then map (woken InputChan) (procs s) else procs s)"

lemma accept_run:
  fixes c :: int and s :: "'a kinput_scheme"
  assumes sec: "console_section i s" and ok: "in_ok (input s)" "pendingLen (input s) < 128"
  defines "d \<equiv> putChar c (input s)"
  shows "\<exists>k. bindK (updInput (putChar c)) (\<lambda>_. bindK (consputc c) (\<lambda>_.
      bindK (getK input) (\<lambda>d. whenK (c = 0x0A \<or> c = 0x04 \<or> inE d = inR d + INPUT_BUF)
        (bindK (updInput (\<lambda>d. d\<lparr>inW := inE d\<rparr>)) (\<lambda>_. wakeup InputChan))))) s =
      (if c = 0x0A \<or> c = 0x04 \<or> pendingLen (input s) = 127
       then Ret () (typed (d\<lparr>inW := inE d\<rparr>) k (map (woken InputChan) (procs s)) s)
       else Ret () (typed d k (procs s) s)) \<and> printed [c] (cons s) k"
proof -
  have len: "length (procs s) = NPROC" "console_ok (cons s)" using sec by (simp_all add: console_section_def)
  have sec1: "console_section i (typed d (cons s) (procs s) s)" by (rule console_section_typed [OF sec len])
  obtain k where k: "consputc c (typed d (cons s) (procs s) s) = Ret () (typed d k (procs s) s)" "printed [c] (cons s) k"
    using section_putc [OF sec1] by (metis typed_sel(1,2,3,4))
  have kok: "console_ok k" using k(2) by (simp add: printed_def)
  have full: "inE d = inR d + INPUT_BUF \<longleftrightarrow> pendingLen (input s) = 127"
    unfolding input_full using put_pending(2) [of "input s" c] ok by (auto simp: in_ok_def d_def)
  have wake: "wakeup InputChan (typed (d\<lparr>inW := inE d\<rparr>) k (procs s) s) =
      Ret () (typed (d\<lparr>inW := inE d\<rparr>) k (map (woken InputChan) (procs s)) s)"
    using section_wakeup [OF console_section_typed [OF sec len(1) kok]] by simp
  have u: "updInput (putChar c) s = Ret () (typed d (cons s) (procs s) s)" by (simp add: updInput_run d_def)
  have w: "updInput (\<lambda>d. d\<lparr>inW := inE d\<rparr>) (typed d k (procs s) s) = Ret () (typed (d\<lparr>inW := inE d\<rparr>) k (procs s) s)"
    by (simp add: updInput_run)
  show ?thesis using k(2)
    by (intro exI [of _ k]) (simp add: bindK_Ret [where m = "updInput f" for f] bindK_Ret [where m = "consputc c" for c] u k(1) getK_bind full whenK_def w wake returnK_def)
qed

lemma char_codes:
  "uint (c :: byte) = 0x10 \<longleftrightarrow> c = 0x10" "uint c = 0x15 \<longleftrightarrow> c = 0x15" "uint c = 0x08 \<longleftrightarrow> c = 0x08" "uint c = 0x7F \<longleftrightarrow> c = 0x7F"
  "uint c = 0x0D \<longleftrightarrow> c = 0x0D" "uint c = 0x0A \<longleftrightarrow> c = 0x0A" "uint c = 0x04 \<longleftrightarrow> c = 0x04" "uint c = 0 \<longleftrightarrow> c = 0"
  by (simp_all add: word_uint_eq_iff)

lemma accept_char:
  assumes sec: "console_section i s" and ok: "in_ok (input s)" and acc: "accepted_char c (lines (input s))"
  shows "\<exists>d k ps. consoleChar (uint c) s = Ret (c = 0x10) (typed d k ps s) \<and> char_done c s d k ps"
proof -
  let ?com = "commits c (lines (input s))"
  define x where "x = (if uint c = 0x0D then 0x0A else uint c)"
  define d where "d = putChar x (input s)"
  have n: "pendingLen (input s) < 128" "c \<notin> {0, 0x08, 0x10, 0x15, 0x7F}"
    using acc lines_length [OF ok] by (simp_all add: accepted_char_def)
  have "word_of_int x = (if c = 0x0D then 0x0A else c)" by (simp add: x_def char_codes)
  then have put: "in_ok d" "lines d = (fst (lines (input s)), snd (lines (input s)) @ [if c = 0x0D then 0x0A else c])"
    using lines_put [OF ok n(1), of x] by (simp_all add: d_def)
  have com: "?com \<longleftrightarrow> x = 0x0A \<or> x = 0x04 \<or> pendingLen (input s) = 127"
    using acc lines_length [OF ok] by (auto simp: commits_def char_codes x_def)
  obtain k where k: "bindK (updInput (putChar x)) (\<lambda>_. bindK (consputc x) (\<lambda>_.
      bindK (getK input) (\<lambda>d. whenK (x = 0x0A \<or> x = 0x04 \<or> inE d = inR d + INPUT_BUF)
        (bindK (updInput (\<lambda>d. d\<lparr>inW := inE d\<rparr>)) (\<lambda>_. wakeup InputChan))))) s =
      (if ?com then Ret () (typed (d\<lparr>inW := inE d\<rparr>) k (map (woken InputChan) (procs s)) s)
       else Ret () (typed d k (procs s) s))" "printed [x] (cons s) k"
    using accept_run [OF sec ok n(1), of x] unfolding com d_def by blast
  define e where "e = (if ?com then d\<lparr>inW := inE d\<rparr> else d)"
  define ps where "ps = (if ?com then map (woken InputChan) (procs s) else procs s)"
  have "consoleChar (uint c) s = bindK (bindK (updInput (putChar x)) (\<lambda>_. bindK (consputc x) (\<lambda>_.
      bindK (getK input) (\<lambda>d. whenK (x = 0x0A \<or> x = 0x04 \<or> inE d = inR d + INPUT_BUF)
        (bindK (updInput (\<lambda>d. d\<lparr>inW := inE d\<rparr>)) (\<lambda>_. wakeup InputChan)))))) (\<lambda>_. returnK False) s"
    unfolding consoleChar_def Let_def x_def [symmetric] getK_bind input_room using n by (simp add: char_codes getK_bind input_room whenK_def)
  also have "\<dots> = Ret (c = 0x10) (typed e k ps s)" using n(2) by (simp add: bindK_run [where f = "\<lambda>_. returnK False"] k(1) e_def ps_def returnK_def)
  finally have "consoleChar (uint c) s = Ret (c = 0x10) (typed e k ps s)" .
  moreover have "char_done c s e k ps"
    using put lines_commit [OF put(1)] k(2) n(2) acc by (simp add: char_done_def edit_def echo_def Let_def e_def ps_def d_def x_def char_codes)
  ultimately show ?thesis by blast
qed

lemma unaccepted:
  assumes "console_section i s" "in_ok (input s)" "edit c (lines (input s)) = lines (input s)" "echo c (lines (input s)) = []" "\<not> accepted_char c (lines (input s))"
  shows "char_done c s (input s) (cons s) (procs s)"
  using assms by (simp add: char_done_def commits_def console_section_def)

lemma consoleChar_run:
  assumes sec: "console_section i s" and ok: "in_ok (input s)"
  shows "\<exists>d k ps. consoleChar (uint c) s = Ret (c = 0x10) (typed d k ps s) \<and> char_done c s d k ps"
proof -
  let ?l = "lines (input s)"
  consider "accepted_char c ?l" | "c = 0x15" | "c = 0x08 \<or> c = 0x7F" "snd ?l \<noteq> []"
    | "\<not> accepted_char c ?l" "c \<noteq> 0x15" "c = 0x08 \<or> c = 0x7F \<Longrightarrow> snd ?l = []" by blast
  then show ?thesis
  proof cases
    case 1
    then show ?thesis by (rule accept_char [OF sec ok])
  next
    case 2
    have na: "\<not> accepted_char c ?l" using 2 by (simp add: accepted_char_def)
    obtain d k where d: "killLine (length (snd ?l)) s = Ret () (typed d k (procs s) s)" "in_ok d" "same_devices (input s) d"
      "printed (replicate (length (takeWhile (\<lambda>x. x \<noteq> 0x0A) (rev (snd ?l)))) BACKSPACE) (cons s) k"
      "lines d = (fst ?l, rev (dropWhile (\<lambda>x. x \<noteq> 0x0A) (rev (snd ?l))))" using killLine_run [OF sec ok order_refl] by blast
    have "consoleChar (uint c) s = Ret False (typed d k (procs s) s)"
      using 2 d(1) editing_length [OF ok] by (simp add: consoleChar_def getK_bind bindK_Ret returnK_def)
    moreover have "char_done c s d k (procs s)" using d(2-5) 2 na by (simp add: char_done_def edit_def echo_def commits_def)
    ultimately show ?thesis using 2 by (intro exI [of _ d] exI [of _ k] exI [of _ "procs s"]) simp
  next
    case 3
    have na: "\<not> accepted_char c ?l" using 3 by (auto simp: accepted_char_def)
    obtain d k where d: "bindK (updInput (\<lambda>d. d\<lparr>inE := inE d - 1\<rparr>)) (\<lambda>_. consputc BACKSPACE) s = Ret () (typed d k (procs s) s)"
      "in_ok d" "same_devices (input s) d" "printed [BACKSPACE] (cons s) k" "lines d = (fst ?l, butlast (snd ?l))" by (rule erase_run [OF sec ok 3(2)])
    have "consoleChar (uint c) s = Ret False (typed d k (procs s) s)"
      using 3 d(1) editing_empty [OF ok] by (auto simp: consoleChar_def char_codes getK_bind whenK_def bindK_run [where f = "\<lambda>_. returnK False"] returnK_def)
    moreover have "char_done c s d k (procs s)" using d(2-5) 3 na by (auto simp: char_done_def edit_def echo_def commits_def)
    ultimately show ?thesis using 3(1) by (intro exI [of _ d] exI [of _ k] exI [of _ "procs s"]) auto
  next
    case 4
    have e: "edit c ?l = ?l" "echo c ?l = []" using 4 by (auto simp: edit_def echo_def prod_eq_iff)
    have room: "c \<noteq> 0x10 \<Longrightarrow> c \<noteq> 0x08 \<and> c \<noteq> 0x7F \<Longrightarrow> \<not> (c \<noteq> 0 \<and> pendingLen (input s) < 128)"
      using 4(1,2) lines_length [OF ok] by (auto simp: accepted_char_def)
    have "consoleChar (uint c) s = Ret (c = 0x10) (typed (input s) (cons s) (procs s) s)"
      using 4(2,3) room editing_empty [OF ok] by (auto simp: consoleChar_def char_codes getK_bind whenK_def input_room kmonad)
    then show ?thesis using unaccepted [OF sec ok e 4(1)] by blast
  qed
qed

section \<open>Sources of characters\<close>

text \<open>
  What \<^verbatim>\<open>consoleInterrupt\<close> needs from the function that it is given: the device has a finite queue of characters, a call takes the
  first one, and nothing else changes.  The keyboard and the serial port both provide it.
\<close>

fun echoes :: "byte list \<Rightarrow> byte list \<times> byte list \<Rightarrow> int list" where
  "echoes [] l = []"
| "echoes (c # cs) l = echo c l @ echoes cs (edit c l)"

fun committing :: "byte list \<Rightarrow> byte list \<times> byte list \<Rightarrow> bool" where
  "committing [] l = False"
| "committing (c # cs) l \<longleftrightarrow> commits c l \<or> committing cs (edit c l)"

definition session_done :: "byte list \<Rightarrow> InputState \<Rightarrow> 'a kinput_scheme \<Rightarrow> InputState \<Rightarrow> ConsoleState \<Rightarrow> Process list \<Rightarrow> bool" where
  "session_done cs e s d k ps \<longleftrightarrow> in_ok d \<and> same_devices e d \<and> printed (echoes cs (lines (input s))) (cons s) k \<and>
     lines d = fold edit cs (lines (input s)) \<and> ps = (if committing cs (lines (input s)) then map (woken InputChan) (procs s) else procs s)"

definition console_ready :: "nat \<Rightarrow> 'a kinput_scheme \<Rightarrow> bool" where
  "console_ready i s \<longleftrightarrow> cpu_ok i s \<and> lock_free ConsLock s \<and> lock_free ProcessTableLock s \<and> length (procs s) = NPROC \<and>
     console_ok (cons s) \<and> in_ok (input s)"

lemma woken_idem [simp]: "woken c (woken c p) = woken c p"
  by (simp add: woken_def)

lemma console_enter: "console_ready i s \<Longrightarrow> console_section i (acquired i ConsLock s)"
  by (simp add: console_ready_def console_section_def)

locale char_source =
  fixes getc :: "('a kinput_scheme, int) op" and chars :: "int \<Rightarrow> InputState \<Rightarrow> byte list" and advance :: "InputState \<Rightarrow> InputState"
  assumes getc_empty: "chars (uart (cons s)) (input s) = [] \<Longrightarrow> getc s = Ret (-1) s"
    and getc_next: "chars (uart (cons s)) (input s) = c # cs \<Longrightarrow> getc s = Ret (uint c) (s\<lparr>input := advance (input s)\<rparr>)"
    and chars_next: "chars u d = c # cs \<Longrightarrow> chars u (advance d) = cs"
    and chars_bound: "length (chars u d) \<le> length (scancodes d) + length (received d)"
    and chars_same: "same_devices d e \<Longrightarrow> chars u e = chars u d"
    and advance_same: "same_devices d e \<Longrightarrow> same_devices (advance d) (advance e)"
    and advance_buffer: "in_ok (advance d) = in_ok d" "lines (advance d) = lines d"
begin

lemma advances_same: "same_devices d e \<Longrightarrow> same_devices ((advance ^^ n) d) ((advance ^^ n) e)"
  by (induction n) (simp_all add: advance_same)

lemma loop_run:
  assumes "console_section i s" "in_ok (input s)" "chars (uart (cons s)) (input s) = cs" "length cs < n"
  shows "\<exists>d k ps. consoleInterrupt_loop n getc dump s = Ret (dump \<or> 0x10 \<in> set cs) (typed d k ps s) \<and>
    session_done cs ((advance ^^ length cs) (input s)) s d k ps"
  using assms
proof (induction n arbitrary: s cs dump)
  case (Suc n)
  have len: "length (procs s) = NPROC" "console_ok (cons s)" using Suc.prems(1) by (simp_all add: console_section_def)
  show ?case
  proof (cases cs)
    case Nil
    then have "consoleInterrupt_loop (Suc n) getc dump s = Ret (dump \<or> 0x10 \<in> set cs) (typed (input s) (cons s) (procs s) s)"
      using getc_empty [of s] Suc.prems(3) by (simp add: bindK_Ret returnK_def)
    then show ?thesis using Nil Suc.prems(2) len
      by (intro exI [of _ "input s"] exI [of _ "cons s"] exI [of _ "procs s"]) (simp add: session_done_def)
  next
    case (Cons c cs')
    let ?a = "advance (input s)"
    let ?s = "typed ?a (cons s) (procs s) s"
    have g: "getc s = Ret (uint c) ?s" using getc_next [of s] Suc.prems(3) Cons by (simp add: typed_upd)
    have sec: "console_section i ?s" by (rule console_section_typed [OF Suc.prems(1) len])
    have ok: "in_ok (input ?s)" using Suc.prems(2) by (simp add: advance_buffer)
    obtain d k ps where d: "consoleChar (uint c) ?s = Ret (c = 0x10) (typed d k ps s)" "char_done c ?s d k ps"
      using consoleChar_run [OF sec ok, of c] by auto
    let ?t = "typed d k ps s"
    have dd: "in_ok d" "same_devices ?a d" "printed (echo c (lines (input s))) (cons s) k" "lines d = edit c (lines (input s))"
      "ps = (if commits c (lines (input s)) then map (woken InputChan) (procs s) else procs s)"
      using d(2) by (simp_all add: char_done_def advance_buffer)
    have sect: "console_section i ?t" using console_section_typed [OF Suc.prems(1), of ps k] dd(3,5) len by (simp add: printed_def)
    have ch: "chars (uart (cons ?t)) (input ?t) = cs'"
      using chars_same [OF dd(2)] chars_next Suc.prems(3) Cons dd(3) by (simp add: printed_def)
    obtain d' k' ps' where r: "consoleInterrupt_loop n getc (dump \<or> c = 0x10) ?t = Ret ((dump \<or> c = 0x10) \<or> 0x10 \<in> set cs') (typed d' k' ps' ?t)"
      "session_done cs' ((advance ^^ length cs') (input ?t)) ?t d' k' ps'"
      using Suc.IH [where dump = "dump \<or> c = 0x10", OF sect _ ch] dd(1) Suc.prems(4) Cons by auto
    have "consoleInterrupt_loop (Suc n) getc dump s = Ret (dump \<or> 0x10 \<in> set cs) (typed d' k' ps' s)"
      using r(1) Cons by (auto simp: bindK_Ret g d(1))
    moreover have "session_done cs ((advance ^^ length cs) (input s)) s d' k' ps'"
      using r(2) dd Cons advances_same [OF dd(2), of "length cs'"]
      by (auto simp: session_done_def funpow_swap1 o_def intro: printed_append same_devices_trans)
    ultimately show ?thesis by blast
  qed
qed simp

lemma interrupt_run:
  fixes s :: "'a kinput_scheme"
  assumes "console_ready i s"
  defines "cs \<equiv> chars (uart (cons s)) (input s)"
  shows "\<exists>d k ps. consoleInterrupt getc s = whenK (0x10 \<in> set cs) processDump (typed d k ps (resync i s)) \<and>
    session_done cs ((advance ^^ length cs) (input s)) s d k ps"
proof -
  let ?a = "acquired i ConsLock s"
  let ?n = "Suc (length (scancodes (input s)) + length (received (input s)))"
  have ok: "cpu_ok i s" "lock_free ConsLock s" "in_ok (input s)" using assms(1) by (simp_all add: console_ready_def)
  have "length cs < ?n" using chars_bound [of "uart (cons s)" "input s"] by (simp add: cs_def less_Suc_eq_le)
  then obtain d k ps where l: "consoleInterrupt_loop ?n getc False ?a = Ret (0x10 \<in> set cs) (typed d k ps ?a)"
    "session_done cs ((advance ^^ length cs) (input s)) ?a d k ps"
    using loop_run [OF console_enter [OF assms(1)], of cs ?n False] ok(3) by (auto simp: cs_def)
  have "spinlockRelease ConsLock (typed d k ps ?a) = Ret () (typed d k ps (resync i s))"
    using ok spinlockRelease_ok [of i "typed d k ps ?a" ConsLock] by simp
  then have "consoleInterrupt getc s = whenK (0x10 \<in> set cs) processDump (typed d k ps (resync i s))"
    by (simp add: consoleInterrupt_def spinlockAcquire_ok [OF ok(1,2)] getK_bind bindK_Ret l(1) del: consoleInterrupt_loop.simps)
  moreover have "session_done cs ((advance ^^ length cs) (input s)) s d k ps" using l(2) by (simp add: session_done_def)
  ultimately show ?thesis by blast
qed

end

fun decode :: "u32 \<Rightarrow> byte list \<Rightarrow> byte list" where
  "decode sh [] = []"
| "decode sh (x # xs) = snd (keyCode sh x) # decode (fst (keyCode sh x)) xs"

text \<open>
  What the key maps say of the letters: the scan codes of the three rows give the letters of the keyboard, the shift map their
  capitals and the control map the control characters; a shift key pressed and released applies to the keys between.
\<close>

definition letter_codes :: "byte list" where
  "letter_codes = [0x10, 0x11, 0x12, 0x13, 0x14, 0x15, 0x16, 0x17, 0x18, 0x19, 0x1E, 0x1F, 0x20, 0x21, 0x22, 0x23, 0x24, 0x25, 0x26,
     0x2C, 0x2D, 0x2E, 0x2F, 0x30, 0x31, 0x32]"

lemma letter_keys:
  "map normalmap letter_codes = map of_char ''qwertyuiopasdfghjklzxcvbnm''"
  "map shiftmap letter_codes = map of_char ''QWERTYUIOPASDFGHJKLZXCVBNM''"
  "map ctlmap letter_codes = map (\<lambda>x. normalmap x - 0x60) letter_codes"
  by code_simp+

lemma decode_shift: "decode 0 [0x2A, 0x23, 0xAA, 0x17] = [0, 0x48, 0, 0x69]" "decode 0 [0x3A, 0x23, 0xBA, 0x17] = [0, 0x48, 0, 0x49]"
  by code_simp+

definition keyTaken :: "InputState \<Rightarrow> InputState" where
  "keyTaken d = d\<lparr>scancodes := tl (scancodes d), shiftKeys := fst (keyCode (shiftKeys d) (hd (scancodes d)))\<rparr>"

lemma length_decode [simp]: "length (decode sh xs) = length xs"
  by (induction xs arbitrary: sh) simp_all

lemma decode_Cons: "decode sh xs = c # cs \<longleftrightarrow> xs \<noteq> [] \<and> c = snd (keyCode sh (hd xs)) \<and> cs = decode (fst (keyCode sh (hd xs))) (tl xs)"
  by (cases xs) auto

lemma decode_Nil [simp]: "decode sh xs = [] \<longleftrightarrow> xs = []"
  by (cases xs) simp_all

lemma buffer_devices [simp]:
  "in_ok (d\<lparr>scancodes := x, shiftKeys := y\<rparr>) = in_ok d" "lines (d\<lparr>scancodes := x, shiftKeys := y\<rparr>) = lines d"
  "in_ok (d\<lparr>received := x\<rparr>) = in_ok d" "lines (d\<lparr>received := x\<rparr>) = lines d"
  by (simp_all add: in_ok_def lines_def pending_def pendingLen_def readyLen_def)

lemma kbdgetc_run:
  "kbdgetc s = (if scancodes (input s) = [] then Ret (-1) s
     else Ret (uint (snd (keyCode (shiftKeys (input s)) (hd (scancodes (input s)))))) (s\<lparr>input := keyTaken (input s)\<rparr>))"
  by (simp add: kbdgetc_def getK_bind KBS_DIB_def returnK_def updInput_def modifyK_def bindK_def case_prod_beta keyTaken_def)

lemma uartgetc_run:
  "uartgetc s = (if uart (cons s) = 0 \<or> received (input s) = [] then Ret (-1) s
     else Ret (uint (hd (received (input s)))) (s\<lparr>input := (input s)\<lparr>received := tl (received (input s))\<rparr>\<rparr>))"
  by (simp add: uartgetc_def getK_bind returnK_def updInput_def modifyK_def bindK_def)

interpretation keyboard: char_source kbdgetc "\<lambda>u d. decode (shiftKeys d) (scancodes d)" keyTaken
  by unfold_locales (simp_all add: kbdgetc_run decode_Cons same_devices_def, simp_all add: keyTaken_def)

definition serialChars :: "int \<Rightarrow> InputState \<Rightarrow> byte list" where
  "serialChars u d = (if u = 0 then [] else received d)"

lemma serialChars_simps:
  "serialChars u d = [] \<longleftrightarrow> u = 0 \<or> received d = []"
  "serialChars u d = c # cs \<longleftrightarrow> u \<noteq> 0 \<and> received d \<noteq> [] \<and> c = hd (received d) \<and> cs = tl (received d)"
  by (auto simp: serialChars_def)

interpretation serial_port: char_source uartgetc serialChars "\<lambda>d. d\<lparr>received := tl (received d)\<rparr>"
  by unfold_locales (simp_all add: uartgetc_run same_devices_def serialChars_simps, simp_all add: serialChars_def)

lemma keys_taken:
  "scancodes ((keyTaken ^^ n) d) = drop n (scancodes d)" "received ((keyTaken ^^ n) d) = received d"
  by (induction n) (simp_all add: keyTaken_def drop_Suc tl_drop)

section \<open>Reading lines\<close>

text \<open>
  \<open>readResult n dst r\<close>: what a reader that still wants \<open>n\<close> characters and has \<open>dst\<close> gets from the committed characters \<open>r\<close>, with
  the characters that stay committed; \<open>None\<close> when it has to wait.
\<close>

definition lineBody :: "nat \<Rightarrow> byte list \<Rightarrow> byte list" where
  "lineBody n r = takeWhile (\<lambda>x. x \<noteq> 0x04 \<and> x \<noteq> 0x0A) (take n r)"

definition readResult :: "nat \<Rightarrow> byte list \<Rightarrow> byte list \<Rightarrow> (byte list \<times> byte list) option" where
  "readResult n dst r =
     (let b = lineBody n r; rest = drop (length b) r in
      if length b = n then Some (dst @ b, rest)
      else if rest = [] then None
      else if hd rest = 0x0A then Some (dst @ b @ [0x0A], tl rest)
      else Some (dst @ b, if dst @ b = [] then tl rest else rest))"

lemma readResult_simps [simp]:
  "readResult 0 dst r = Some (dst, r)" "readResult (Suc n) dst [] = None"
  "readResult (Suc n) dst (c # r) =
     (if c = 0x04 then Some (dst, if dst = [] then r else c # r)
      else if c = 0x0A then Some (dst @ [c], r) else readResult n (dst @ [c]) r)"
  by (simp_all add: readResult_def lineBody_def Let_def)

definition waitInput :: "byte list \<Rightarrow> ('a kinput_scheme, read_progress) op" where
  "waitInput dst =
     bindK currentProcess (\<lambda>k. bindK (getProc k) (\<lambda>p.
     if IsKilled p \<noteq> 0 then bindK (spinlockRelease ConsLock) (\<lambda>_. returnK (ReadDone (-1) dst))
     else bindK (sleep_enter InputChan (Some ConsLock)) (\<lambda>local. returnK (ReadAsleep local dst))))"

lemma readFinish_run:
  "console_section i s \<Longrightarrow> readFinish target n dst s = Ret (ReadDone (int target - int n) dst) (released i ConsLock s)"
  using spinlockRelease_ok [of i s ConsLock] by (simp add: readFinish_def console_section_def bindK_Ret returnK_def)

lemma length_ready: "in_ok d \<Longrightarrow> length (fst (lines d)) = readyLen d"
  by (simp add: lines_def in_ok_def)

lemma consoleRead_loop_run:
  assumes "console_section i s" "in_ok (input s)" "target = n + length dst"
  shows "\<exists>d. in_ok d \<and> same_devices (input s) d \<and> snd (lines d) = snd (lines (input s)) \<and>
    (case readResult n dst (fst (lines (input s))) of
       Some (out, left) \<Rightarrow> fst (lines d) = left \<and>
         consoleRead_loop target n dst s = Ret (ReadDone (int (length out)) out) (typed d (cons s) (procs s) (released i ConsLock s))
     | None \<Rightarrow> fst (lines d) = [] \<and>
         consoleRead_loop target n dst s = waitInput (dst @ fst (lines (input s))) (typed d (cons s) (procs s) s))"
  using assms
proof (induction n arbitrary: s dst)
  case 0
  then show ?case by (intro exI [of _ "input s"]) (simp add: readFinish_run flip: typed_lock)
next
  case (Suc n)
  have len: "length (procs s) = NPROC" "console_ok (cons s)" using Suc.prems(1) by (simp_all add: console_section_def)
  show ?case
  proof (cases "fst (lines (input s))")
    case Nil
    then have "consoleRead_loop target (Suc n) dst s = waitInput dst s"
      using length_ready [OF Suc.prems(2)] by (simp add: getK_bind committed_empty waitInput_def)
    then show ?thesis using Nil Suc.prems(2) by (intro exI [of _ "input s"]) (simp del: consoleRead_loop.simps)
  next
    case (Cons c r)
    let ?d = "(input s)\<lparr>inR := inR (input s) + 1\<rparr>"
    let ?t = "typed ?d (cons s) (procs s) s"
    have ne: "inR (input s) \<noteq> inW (input s)" using Cons length_ready [OF Suc.prems(2)] by (auto simp: committed_empty)
    have l: "in_ok ?d" "lines ?d = (r, snd (lines (input s)))" "inBuf (input s) ! unat (inR (input s) mod INPUT_BUF) = c"
      using lines_take [OF Suc.prems(2)] Cons by simp_all
    have u: "updInput (\<lambda>d. d\<lparr>inR := inR d + 1\<rparr>) s = Ret () ?t" by (simp add: updInput_run)
    have sec: "console_section i ?t" by (rule console_section_typed [OF Suc.prems(1) len])
    have step: "consoleRead_loop target (Suc n) dst s =
        (if c = 0x04 then bindK (whenK (Suc n < target) (updInput (\<lambda>d. d\<lparr>inR := inR d - 1\<rparr>))) (\<lambda>_. readFinish target (Suc n) dst)
         else if c = 0x0A then readFinish target n (dst @ [c]) else consoleRead_loop target n (dst @ [c])) ?t"
      using ne l(3) by (simp add: getK_bind Let_def bindK_Ret u)
    have dev: "same_devices (input s) ?d" by simp
    consider "c = 0x04" | "c = 0x0A" | "c \<noteq> 0x04" "c \<noteq> 0x0A" by blast
    then show ?thesis
    proof cases
      case 1
      let ?e = "if dst = [] then ?d else input s"
      have "whenK (Suc n < target) (updInput (\<lambda>d. d\<lparr>inR := inR d - 1\<rparr>)) ?t = Ret () (typed ?e (cons s) (procs s) s)"
        using Suc.prems(3) by (simp add: whenK_def updInput_run returnK_def)
      then have "consoleRead_loop target (Suc n) dst s = readFinish target (Suc n) dst (typed ?e (cons s) (procs s) s)"
        unfolding step using 1 by (simp add: bindK_Ret)
      then show ?thesis using readFinish_run [OF console_section_typed [OF Suc.prems(1) len], of target "Suc n" dst ?e] 1 Cons l Suc.prems(2,3)
        by (intro exI [of _ ?e]) (simp del: consoleRead_loop.simps)
    next
      case 2
      then show ?thesis using readFinish_run [OF sec, of target n "dst @ [c]"] Cons l dev step Suc.prems(3)
        by (intro exI [of _ ?d]) (simp del: consoleRead_loop.simps)
    next
      case 3
      then show ?thesis using Suc.IH [OF sec, of "dst @ [c]"] Cons l step Suc.prems(3)
        by (simp del: consoleRead_loop.simps cong: option.case_cong)
    qed
  qed
qed

lemma waitInput_run:
  assumes "console_section i s" "curproc i s = Some k" "k < NPROC" "depth i s = 1"
  shows "waitInput dst s =
    (if IsKilled (procs s ! k) \<noteq> 0 then Ret (ReadDone (-1) dst) (released i ConsLock s)
     else Ret (ReadAsleep (k, InterruptsEnabled (cpus s ! i)) dst)
       (set_procs ((procs s)[k := (procs s ! k)\<lparr>Chan := InputChan, State := SLEEPING\<rparr>])
         (released i ConsLock (acquired i ProcessTableLock s))))"
proof -
  have sec: "in_section i s" "holds i ConsLock s" "lock_free ProcessTableLock s" "length (procs s) = NPROC"
    using assms(1) by (simp_all add: console_section_def)
  have c: "currentProcess s = Ret k s"
    using assms(2) sec(1) by (simp add: currentProcess_def kmonad myProcess_ok [of i] in_section_cpu_ok resync_section)
  have p: "getProc k s = Ret (procs s ! k) s" using sec(4) assms(3) by (simp add: getProc_def kmonad)
  show ?thesis
    using sleep_enter_run [OF sec(1-3) assms(2) sec(4) assms(3), of InputChan] spinlockRelease_ok [OF sec(1,2)] assms(4)
    by (simp add: waitInput_def bindK_Ret c p returnK_def)
qed

section \<open>Properties\<close>

definition blank_input :: "byte list \<Rightarrow> InputState" where
  "blank_input codes = \<lparr>inBuf = replicate 128 0, inR = 0, inW = 0, inE = 0, shiftKeys = 0, scancodes = codes, received = [],
     uartPresent = True, consoleDevice = True\<rparr>"

definition input_boot :: "InputState \<Rightarrow> kinput" where
  "input_boot d = kapic.extend (kfat.extend (fat_boot (disk_boot (\<lambda>_. []))) \<lparr>apic = blank_apic\<rparr>) \<lparr>input = d\<rparr>"

lemma input_boot_sel [simp]:
  "input (input_boot d) = d" "cons (input_boot d) = blank_console" "procs (input_boot d) = procs pipe_boot" "cpus (input_boot d) = cpus pipe_boot"
  "ncpu (input_boot d) = ncpu pipe_boot" "localApicId (input_boot d) = localApicId pipe_boot" "eflags (input_boot d) = eflags pipe_boot"
  "locks (input_boot d) = locks pipe_boot"
  by (simp_all add: input_boot_def fat_boot_def disk_boot_def kapic.defs kfat.defs kdisk.defs kfile.defs)
    (simp add: file_boot_def pipe_boot_def boot_kpipe_def boot_kproc_def boot_console_def set_current_def kproc.defs kpipe.defs vm.defs console.defs kalloc.defs)

lemma input_boot_ready:
  assumes "in_ok d"
  shows "console_ready 0 (input_boot d)" "curproc 0 (input_boot d) = Some 0" "depth 0 (input_boot d) = 0"
proof -
  have "pipe_idle 0 0 0x80200000 pipe_boot" "lock_free ConsLock pipe_boot" by (rule pipe_boot_idle) (simp add: pipe_boot_def)
  then show "console_ready 0 (input_boot d)" "curproc 0 (input_boot d) = Some 0" "depth 0 (input_boot d) = 0"
    using assms by (simp_all add: console_ready_def pipe_idle_def proc_ready_def cpu_ok_def cpu_index_def lock_free_def curproc_def depth_def
      blank_console_def console_ok_def cursor_def)
qed

text \<open>
  C12: the keyboard interrupt.  With the console lock free the handler returns, or goes on to the listing of the processes when
  Ctrl-P was typed.  It has taken every waiting scan code and left the serial port alone; the edit buffer is the result of editing
  it with the decoded characters one after the other, as a line editor does; the console shows their echo; and the processes that
  wait for input are made runnable exactly when some character committed a line.
\<close>

theorem keyboard_edits_line:
  assumes "console_ready i s"
  defines "cs \<equiv> decode (shiftKeys (input s)) (scancodes (input s))"
  shows "\<exists>d k. keyboardInterrupt s = whenK (0x10 \<in> set cs) processDump
      (typed d k (if committing cs (lines (input s)) then map (woken InputChan) (procs s) else procs s) (resync i s)) \<and>
    in_ok d \<and> lines d = fold edit cs (lines (input s)) \<and> scancodes d = [] \<and> received d = received (input s) \<and>
    printed (echoes cs (lines (input s))) (cons s) k"
proof -
  obtain d k ps where d: "consoleInterrupt kbdgetc s = whenK (0x10 \<in> set cs) processDump (typed d k ps (resync i s))"
    "session_done cs ((keyTaken ^^ length cs) (input s)) s d k ps"
    using keyboard.interrupt_run [OF assms(1)] unfolding cs_def by blast
  then show ?thesis
    using keys_taken [of "length cs" "input s"] by (auto simp: keyboardInterrupt_def session_done_def same_devices_def cs_def)
qed

theorem keyboard_edits_line_witness:
  "\<exists>d k. keyboardInterrupt (input_boot (blank_input [0x26, 0xA6, 0x25, 0x0E, 0x1F, 0x9F, 0x1C])) =
      Ret () (typed d k (procs pipe_boot) (resync 0 (input_boot (blank_input [0x26, 0xA6, 0x25, 0x0E, 0x1F, 0x9F, 0x1C])))) \<and>
    lines d = ([0x6C, 0x73, 0x0A], []) \<and> scancodes d = []"
proof -
  let ?d = "blank_input [0x26, 0xA6, 0x25, 0x0E, 0x1F, 0x9F, 0x1C]"
  have ok: "in_ok ?d" "lines ?d = ([], [])" "shiftKeys ?d = 0" "scancodes ?d = [0x26, 0xA6, 0x25, 0x0E, 0x1F, 0x9F, 0x1C]"
    by (simp_all add: blank_input_def in_ok_def lines_def pending_def pendingLen_def readyLen_def)
  have c: "decode 0 [0x26, 0xA6, 0x25, 0x0E, 0x1F, 0x9F, 0x1C] = [0x6C, 0, 0x6B, 0x08, 0x73, 0, 0x0A]"
    by (simp add: keyCode_def keyPress_def normalmap_def shiftcode_def togglecode_def table256_def const_defs)
  have e: "fold edit [0x6C, 0, 0x6B, 0x08, 0x73, 0, 0x0A] ([], []) = ([0x6C, 0x73, 0x0A], [])"
    by (simp add: edit_def accepted_char_def commits_def)
  have w: "map (woken InputChan) (procs pipe_boot) = procs pipe_boot"
    by (rule map_idI) (auto simp: pipe_boot_def woken_def live_process_def blank_process_def)
  show ?thesis
    using keyboard_edits_line [OF input_boot_ready(1) [OF ok(1)]] unfolding input_boot_sel ok(2-4) c e w whenK_def returnK_def by auto
qed

text \<open>
  C13: reading from the console.  A reader gets the first committed line, ended by its newline, a Ctrl-D or the number of characters
  that it asked for, and what follows stays committed; a Ctrl-D after other characters stays too, so that the next reader sees the
  end of the file.  A reader that finds no end of line takes what there is and goes to sleep with the console lock released, unless
  it has been killed.  What is being edited is never touched.
\<close>

theorem consoleRead_returns_line:
  assumes "console_ready i s" "curproc i s = Some k" "k < NPROC" "depth i s = 0"
  shows "\<exists>d. in_ok d \<and> same_devices (input s) d \<and> snd (lines d) = snd (lines (input s)) \<and>
    (case readResult (nat n) [] (fst (lines (input s))) of
       Some (out, left) \<Rightarrow> fst (lines d) = left \<and> consoleRead n s = Ret (ReadDone (int (length out)) out) (typed d (cons s) (procs s) (resync i s))
     | None \<Rightarrow> fst (lines d) = [] \<and> consoleRead n s =
         (if IsKilled (procs s ! k) \<noteq> 0 then Ret (ReadDone (-1) (fst (lines (input s)))) (typed d (cons s) (procs s) (resync i s))
          else Ret (ReadAsleep (k, eflags s AND FL_IF) (fst (lines (input s))))
            (typed d (cons s) ((procs s)[k := (procs s ! k)\<lparr>Chan := InputChan, State := SLEEPING\<rparr>]) (acquired i ProcessTableLock s))))"
proof -
  let ?a = "acquired i ConsLock s"
  have ok: "cpu_ok i s" "lock_free ConsLock s" "in_ok (input s)" using assms(1) by (simp_all add: console_ready_def)
  note sec = console_enter [OF assms(1)]
  have len: "length (procs s) = NPROC" "console_ok (cons s)" using assms(1) by (simp_all add: console_ready_def)
  have ie: "InterruptsEnabled (cpus ?a ! i) = eflags s AND FL_IF"
    using assms(4) cpu_ok_bound [OF ok(1)] by (simp add: acquired_def pushed_def depth_def)
  have start: "consoleRead n s = consoleRead_loop (nat n) (nat n) [] ?a"
    using spinlockAcquire_ok [OF ok(1,2)] by (simp add: consoleRead_def bindK_Ret)
  have wait: "waitInput dst (typed d (cons s) (procs s) ?a) =
      (if IsKilled (procs s ! k) \<noteq> 0 then Ret (ReadDone (-1) dst) (typed d (cons s) (procs s) (resync i s))
       else Ret (ReadAsleep (k, eflags s AND FL_IF) dst)
         (typed d (cons s) ((procs s)[k := (procs s ! k)\<lparr>Chan := InputChan, State := SLEEPING\<rparr>]) (acquired i ProcessTableLock s)))" for d dst
    using waitInput_run [of i "typed d (cons s) (procs s) ?a" k dst] sec assms(2-4) ok(1,2) len ie
    by (simp add: typed_upd)
  show ?thesis
    using consoleRead_loop_run [OF sec, of "nat n" "nat n" "[]"] ok start wait by (simp cong: option.case_cong)
qed

theorem consoleRead_returns_line_witness:
  "\<exists>s d. lines (input (s :: kinput)) = ([0x6C, 0x73, 0x0A], [0x78]) \<and>
    consoleRead 100 s = Ret (ReadDone 3 [0x6C, 0x73, 0x0A]) (typed d (cons s) (procs s) (resync 0 s)) \<and> lines d = ([], [0x78])"
proof -
  define e where "e = (blank_input [])\<lparr>inBuf := [0x6C, 0x73, 0x0A, 0x78] @ replicate 124 0, inW := 3, inE := 4\<rparr>"
  have e: "in_ok e" "lines e = ([0x6C, 0x73, 0x0A], [0x78])"
    by (simp_all add: e_def blank_input_def in_ok_def lines_def pending_def pendingLen_def readyLen_def upt_rec)
  have r: "readResult (nat 100) [] [0x6C, 0x73, 0x0A] = Some ([0x6C, 0x73, 0x0A], [])"
    by (simp add: readResult_def lineBody_def)
  obtain d where d: "snd (lines d) = [0x78]" "fst (lines d) = []"
    "consoleRead 100 (input_boot e) = Ret (ReadDone 3 [0x6C, 0x73, 0x0A]) (typed d (cons (input_boot e)) (procs (input_boot e)) (resync 0 (input_boot e)))"
    using consoleRead_returns_line [OF input_boot_ready(1,2) [OF e(1)] _ input_boot_ready(3) [OF e(1)], of 100] r e(2) by (auto simp: NPROC_def)
  show ?thesis using e(2) d by (intro exI [of _ "input_boot e"] exI [of _ d]) (simp add: prod_eq_iff)
qed

end
