(* ===== verification/Spec2Isabelle.thy ===== *)
theory Spec2Isabelle
  imports CString Frame Shell FatPath Umalloc Input
begin

text \<open>
  \<^bold>\<open>Verification library of UoDOS\<close>, a teaching operating system for 32-bit PCs derived from xv6 (\<^verbatim>\<open>src/UoDOS\<close>).

  \<^bold>\<open>The program.\<close>  The kernel starts in \<^verbatim>\<open>kernel_main.c\<close>, which sets up the page allocator (\<^verbatim>\<open>kalloc.c\<close>), page tables
  (\<^verbatim>\<open>vm.c\<close>), interrupt controllers (\<^verbatim>\<open>mp.c\<close>, \<^verbatim>\<open>lapic.c\<close>, \<^verbatim>\<open>ioapic.c\<close>, \<^verbatim>\<open>picirq.c\<close>), console (\<^verbatim>\<open>console.c\<close>, \<^verbatim>\<open>uart.c\<close>, \<^verbatim>\<open>kbd.c\<close>), process table (\<^verbatim>\<open>proc.c\<close>),
  buffer cache (\<^verbatim>\<open>bio.c\<close>), file table (\<^verbatim>\<open>file.c\<close>) and disk driver (\<^verbatim>\<open>ide.c\<close>).  Processes sleep and wake on channels under
  spin locks (\<^verbatim>\<open>spinlock.c\<close>) and sleep locks (\<^verbatim>\<open>sleeplock.c\<close>), talk through pipes (\<^verbatim>\<open>pipe.c\<close>) and read files of a FAT12 volume
  (\<^verbatim>\<open>fs.c\<close>) through the buffer cache.  User programs have a small library (\<^verbatim>\<open>printf.c\<close>, \<^verbatim>\<open>umalloc.c\<close>) and a shell (\<^verbatim>\<open>sh.c\<close>).

  \<^bold>\<open>The state.\<close>  Kernel code is written in the state monad of \<open>Prelude\<close>: an operation maps a state to an \<open>outcome\<close>, which is a result
  with a new state (\<open>Ret\<close>), a \<open>Panic\<close> with its message, a loop that never ends (\<open>Hang\<close>) or an access outside of any object
  (\<open>Fault\<close>).  The state is a chain of record extensions, one per layer of the kernel:
  \<open>hw\<close> (\<open>Spinlock\<close>: processors, flags, locks), \<open>kalloc\<close> (memory, free list), \<open>console\<close>, \<open>vm\<close> (memory management unit), \<open>kproc\<close>
  (process table), \<open>kpipe\<close>, \<open>kfile\<close> (file table), \<open>kdisk\<close> (buffers, queue, controller), \<open>kfat\<close> (mounted volume), \<open>kapic\<close> (interrupt
  controllers and clock), \<open>kinput\<close> (keyboard, serial port and line buffer).  An operation is typed on the scheme of the lowest layer that has what it needs, so it runs unchanged on all
  layers above.  Functions that switch to another process inside are split there: \<open>f_enter\<close> ends at the switch and
  \<open>f_exit\<close> or \<open>f_resume\<close> goes on after it.  The disk is the exception: \<open>ideReadWrite_wait\<close> lets the processor go idle, takes the
  interrupt of the disk and continues the process, as on a machine where nobody else is runnable, so the file system is verified
  for a process alone on its processor; a process that finds its buffer held by another one does not return there (\<open>Hang\<close>).

  \<^bold>\<open>The theories.\<close>
  \<^item> \<open>Prelude\<close>: machine words and addresses (\<^verbatim>\<open>types.h\<close>, \<^verbatim>\<open>param.h\<close>, \<^verbatim>\<open>memlayout.h\<close>, macros of \<^verbatim>\<open>mmu.h\<close>), the monad, the frame
    calculus \<open>keeps\<close>, and lemmas on words, scans and ring positions.
  \<^item> \<open>CString\<close>: \<^verbatim>\<open>string.c\<close> over a byte memory.
  \<^item> \<open>Spinlock\<close>: \<^verbatim>\<open>spinlock.c\<close>, \<^verbatim>\<open>myCpu\<close> and \<^verbatim>\<open>myProcess\<close>; locks as calls on one processor and as atomic steps of many processors
    (\<open>lock_step\<close>).  Mutual exclusion for every interleaving; nesting of \<open>pushCli\<close> and \<open>popCli\<close> restores the interrupt flag; the
    calls refine the steps.  The steps are single reads and writes of the lock.  The locale \<open>hw_field\<close> carries the lock algebra over to every later layer.
  \<^item> \<open>Kalloc\<close>: \<^verbatim>\<open>kalloc.c\<close>, the free list threaded through memory; boot, frame and round-trip theorems; locale of a page pool.
  \<^item> \<open>Digits\<close>, \<open>Printf\<close>, \<open>Console\<close>: \<^verbatim>\<open>printf.c\<close>, the output half of \<^verbatim>\<open>console.c\<close> and \<^verbatim>\<open>uartputc\<close>.  \<open>printf\<close> and \<open>cprintf\<close> print
    the concatenation of their items, and \<open>cprintf\<close> on the display controller refines an abstract terminal.
  \<^item> \<open>Vm\<close>, \<open>Uvm\<close>: \<^verbatim>\<open>vm.c\<close> and \<^verbatim>\<open>mmu.h\<close>.  \<open>walk\<close> is the translation that the processor computes; growing an address space is
    all or nothing.
  \<^item> \<open>Sched\<close>: process table, \<open>sleep\<close>, \<open>wakeup\<close>, \<open>kill\<close> and the scheduler of \<^verbatim>\<open>proc.c\<close>; \<open>Proc\<close>: creation, growth, \<open>fork\<close>, \<open>exit\<close> and \<open>wait\<close>.
  \<^item> \<open>Frame\<close>: what the lower layers leave alone, as the locales \<open>cpu_field\<close>, \<open>vm_field\<close> and \<open>proc_field\<close>.
  \<^item> \<open>Pipe\<close>: \<^verbatim>\<open>pipe.c\<close>; the ring is an instance of the locale \<open>bounded_queue\<close>; order of the bytes, no lost wakeup, closing.
  \<^item> \<open>FileTable\<close>: \<^verbatim>\<open>file.c\<close> and \<^verbatim>\<open>pipealloc\<close>; reference counts are exact for every sequence of calls.
  \<^item> \<open>Disk\<close>, \<open>Bio\<close>: \<^verbatim>\<open>sleeplock.c\<close>, \<^verbatim>\<open>ide.c\<close>, \<^verbatim>\<open>bio.c\<close>.  Cached reads and writes are those of the disk (locale \<open>block_device\<close>), and
    the list of buffers is in order of last use.
  \<^item> \<open>Fat\<close>, \<open>FatPath\<close>: \<^verbatim>\<open>fs.c\<close>.  Decoding of the allocation table, exact reads, lookup of names and paths, and their composition.  The
    lookup is specified on the entries of all clusters of a directory; the code reads only the first sixteen entries of a
    sub-directory, which is a hypothesis on the names (\<open>dirOk\<close>).
  \<^item> \<open>Apic\<close>: \<^verbatim>\<open>mp.c\<close>, \<^verbatim>\<open>lapic.c\<close>, \<^verbatim>\<open>ioapic.c\<close>, \<^verbatim>\<open>picirq.c\<close>.  The table of processors is read as it lies in memory, exactly the
    enabled interrupts are unmasked, and the clock is read consistently.
  \<^item> \<open>Input\<close>: \<^verbatim>\<open>kbd.c\<close>, \<^verbatim>\<open>kbd.h\<close>, the rest of \<^verbatim>\<open>uart.c\<close>, and \<^verbatim>\<open>consoleInterrupt\<close> and \<^verbatim>\<open>consoleRead\<close>.  The ring with its three indices refines
    a line editor, and readers get whole lines; the locale \<open>char_source\<close> is the contract of the two devices.
  \<^item> \<open>Shell\<close>: the parser of \<^verbatim>\<open>sh.c\<close>; it ends on every line, and \<open>nulterminate\<close> makes exactly the arguments strings.
  \<^item> \<open>Umalloc\<close>: \<^verbatim>\<open>umalloc.c\<close>; the locale \<open>allocator\<close> is the contract of \<open>malloc\<close> and \<open>free\<close>, and every sequence of calls keeps the
    blocks in use disjoint.

  \<^bold>\<open>Bounds and fuel.\<close>  Loops whose number of rounds the code bounds recurse over that number: the scan of a page directory over its
  entries, the reading of a file over the bytes asked for, the console interrupt over the bytes that wait in the devices, the search for the multiprocessor structure over the length of the area.
  \<open>mpinit_loop\<close> has fuel \<open>2 ^ 16\<close>, more than a table of at most \<open>2 ^ 16 - 1\<close> bytes has entries; \<open>cmosTime\<close> takes its fuel as an argument and
  returns with any fuel larger than the number of reads after which the clock is quiet.  The searches of \<open>Umalloc\<close> are partial
  functions, and the theorems show that they return.  Waiting for a device that never answers is \<open>Hang\<close>.
  Of the C integers that count, \<^verbatim>\<open>ReferenceCount\<close> of a file wraps at 32 bits in \<open>fileDup\<close>, and the theorem bounds the number of
  references.  \<^verbatim>\<open>CliDepth\<close> is an unbounded integer in \<open>pushCli\<close> and \<open>popCli\<close>, on which the locks are built; \<open>pushCli32\<close> and \<open>popCli32\<close> have
  the 32-bit counter, nesting is proved for them, and \<open>cli32_same\<close> says that both agree below \<open>2 ^ 31\<close>.

  \<^bold>\<open>Not modelled.\<close>  Assembly code and the build; the system call wrappers \<^verbatim>\<open>syscall.c\<close>,
  \<^verbatim>\<open>sysfile.c\<close> and \<^verbatim>\<open>sysproc.c\<close>, whose callees are modelled; \<^verbatim>\<open>trap.c\<close>; \<^verbatim>\<open>exec.c\<close> and the loading of program segments; \<^verbatim>\<open>fileRead\<close> and
  \<^verbatim>\<open>fileWrite\<close>; the order of calls in \<^verbatim>\<open>kernel_main.c\<close>; running of commands in \<^verbatim>\<open>sh.c\<close> and the programs \<^verbatim>\<open>init.c\<close> and \<^verbatim>\<open>echo.c\<close>, which act
  through system calls only.  The contents of registers across a context switch and the addresses that
  the linker chooses are arguments of the definitions that need them.
\<close>

end
